(* ===== verification/NL_Prelude.thy ===== *)
theory NL_Prelude
  imports Main "HOL-Library.Word" "HOL-Library.Monad_Syntax"
begin

text \<open>
  Shared vocabulary of the nlmon development: names for the C integer types, the collections
  of simplification rules the component theories fill, outcomes of C code that may fail or run
  into undefined behaviour, and the lemmas on circular windows of arrays that every circular
  buffer of the program rests on.
\<close>

unbundle bit_operations_syntax

section \<open>Machine integers\<close>

text \<open>
  The program is built for LP64 Linux: \<open>size_t\<close>, \<open>unsigned long\<close> and \<open>uint64_t\<close> are 64 bits wide.
  Signed values are words read through \<^const>\<open>sint\<close>.
\<close>

type_synonym u8 = "8 word"
type_synonym u16 = "16 word"
type_synonym u32 = "32 word"
type_synonym u64 = "64 word"
type_synonym i32 = "32 word"
type_synonym i64 = "64 word"
type_synonym size_t = "64 word"

lemma unat_exp:
  assumes "k < LENGTH('a)"
  shows "unat (2 ^ k :: 'a::len word) = 2 ^ k"
proof -
  have "(2 ^ k :: 'a word) = of_nat (2 ^ k)" by simp
  moreover have "unat (of_nat (2 ^ k) :: 'a word) = 2 ^ k"
    using assms by (simp only: unsigned_of_nat) (simp add: take_bit_nat_eq_self)
  ultimately show ?thesis by simp
qed

text \<open>Counting modulo a power of two by masking, as the ring buffer does.\<close>

lemma unat_inc_and_mask:
  fixes h :: "'a::len word"
  assumes "k < LENGTH('a)" and "unat h < 2 ^ k"
  shows "unat ((h + 1) AND (2 ^ k - 1)) = (unat h + 1) mod 2 ^ k"
proof -
  have "(h + 1) AND (2 ^ k - 1) = take_bit k (h + 1)"
    by (simp add: take_bit_eq_mask mask_eq_exp_minus_1)
  then have "unat ((h + 1) AND (2 ^ k - 1)) = take_bit k (unat (h + 1))"
    by (simp add: unsigned_take_bit_eq)
  also have "unat (h + 1) = unat h + 1"
  proof -
    have "2 ^ k < (2::nat) ^ LENGTH('a)" using assms(1) by simp
    then have "unat h + 1 < 2 ^ LENGTH('a)" using assms(2) by linarith
    then show ?thesis by (simp add: unat_word_ariths)
  qed
  finally show ?thesis by (simp add: take_bit_eq_mod)
qed

text \<open>
  The heap is represented by an oracle that says whether an allocation of a given number of
  elements succeeds; every \<open>malloc\<close>, \<open>calloc\<close>, \<open>realloc\<close> and \<open>strdup\<close> whose failure the code
  handles consults it.
\<close>

type_synonym alloc = "nat \<Rightarrow> bool"

definition mem_ok :: "alloc \<Rightarrow> bool" where
  "mem_ok mem \<longleftrightarrow> (\<forall>n. mem n)"

lemma mem_okD [simp]: "mem_ok mem \<Longrightarrow> mem n"
  by (simp add: mem_ok_def)

lemma mem_ok_True [simp]: "mem_ok (\<lambda>_. True)"
  by (simp add: mem_ok_def)

section \<open>Collections of rules\<close>

named_theorems window_simps \<open>rewriting of circular windows\<close>
named_theorems rb_simps \<open>field-level behaviour of the ring buffer operations\<close>
named_theorems lex_simps \<open>behaviour of the lexer on its next characters\<close>
named_theorems vm_simps \<open>one step of the filter virtual machine\<close>

section \<open>Outcomes\<close>

text \<open>
  A C computation delivers a value, reports failure to its caller, or runs into undefined
  behaviour (a read through the wrong union member, an index out of bounds).
\<close>

datatype 'a outcome = Ok 'a | Fail | UB

fun bind_outcome :: "'a outcome \<Rightarrow> ('a \<Rightarrow> 'b outcome) \<Rightarrow> 'b outcome" where
  "bind_outcome (Ok a) f = f a"
| "bind_outcome Fail f = Fail"
| "bind_outcome UB f = UB"

fun result_of :: "'a \<Rightarrow> 'a outcome \<Rightarrow> 'a" where
  "result_of d (Ok a) = a"
| "result_of d Fail = d"
| "result_of d UB = d"

lemma bind_outcome_Ok_iff:
  "bind_outcome m f = Ok b \<longleftrightarrow> (\<exists>a. m = Ok a \<and> f a = Ok b)"
  by (cases m) auto

lemma bind_outcome_assoc:
  "bind_outcome (bind_outcome m f) g = bind_outcome m (\<lambda>x. bind_outcome (f x) g)"
  by (cases m) auto

section \<open>Circular windows\<close>

text \<open>
  The elements of an array read from index \<open>s\<close> on, wrapping round at its end.
\<close>

definition window :: "'a list \<Rightarrow> nat \<Rightarrow> nat \<Rightarrow> 'a list" where
  "window xs s n = map (\<lambda>i. xs ! ((s + i) mod length xs)) [0..<n]"

lemma length_window [simp]: "length (window xs s n) = n"
  by (simp add: window_def)

lemma window_0 [simp]: "window xs s 0 = []"
  by (simp add: window_def)

lemma window_eq_Nil_iff [simp]: "window xs s n = [] \<longleftrightarrow> n = 0"
  by (simp add: window_def)

lemma nth_window [simp]: "i < n \<Longrightarrow> window xs s n ! i = xs ! ((s + i) mod length xs)"
  by (simp add: window_def)

lemma window_mod [window_simps]: "window xs (s mod length xs) n = window xs s n"
  by (simp add: window_def mod_add_left_eq)

lemma window_Suc [window_simps]:
  "window xs s (Suc n) = window xs s n @ [xs ! ((s + n) mod length xs)]"
  by (simp add: window_def)

lemma window_Suc_hd: "window xs s (Suc n) = xs ! (s mod length xs) # window xs (Suc s) n"
  by (rule nth_equalityI) (auto simp: nth_Cons split: nat.split)

lemma mod_inj_window:
  fixes i j n s :: nat
  assumes "(s + i) mod n = (s + j) mod n" "i < n" "j < n"
  shows "i = j"
proof -
  have aux: "a = b" if "a \<le> b" "(s + a) mod n = (s + b) mod n" "b < n" for a b :: nat
  proof -
    have "n dvd (s + b) - (s + a)"
      using that(1,2) by (metis add_le_cancel_left mod_eq_dvd_iff_nat)
    then have "n dvd b - a" by simp
    with that(3) show ?thesis
      using that(1) by (metis diff_is_0_eq dvd_imp_le le_antisym less_imp_diff_less
          not_gr_zero not_le zero_less_diff)
  qed
  show ?thesis
    using aux [of i j] aux [of j i] assms by (cases "i \<le> j") auto
qed

lemma window_update_outside:
  assumes "n < length xs" and "k = (s + n) mod length xs"
  shows "window (xs[k := x]) s n = window xs s n"
proof (rule nth_equalityI)
  fix i assume "i < length (window (xs[k := x]) s n)"
  then have "i < n" by simp
  with assms have "k \<noteq> (s + i) mod length xs"
    using mod_inj_window [of s n "length xs" i] by auto
  with \<open>i < n\<close> show "window (xs[k := x]) s n ! i = window xs s n ! i" by simp
qed simp

lemma window_snoc_update:
  assumes "n < length xs" and "k = (s + n) mod length xs"
  shows "window (xs[k := x]) s (Suc n) = window xs s n @ [x]"
proof -
  have "k < length xs" using assms by (metis gr_implies_not0 mod_less_divisor not_gr_zero)
  then show ?thesis
    using window_update_outside [OF assms, of x] assms(2) by (simp add: window_Suc)
qed

section \<open>Lists and options\<close>

lemma prefix_nth_append: "i < length xs \<Longrightarrow> (xs @ ys) ! i = xs ! i"
  by (simp add: nth_append)

lemma nth_append_at [simp]: "(xs @ y # ys) ! length xs = y"
  by simp

lemma list_update_append_at [simp]: "(xs @ y # ys)[length xs := z] = xs @ z # ys"
  by (simp add: list_update_append)

end
