(* ===== verification/Bounded_Fifo.thy ===== *)
theory Bounded_Fifo
  imports NL_Prelude
begin

text \<open>
  The contract of a bounded first-in first-out queue, as the event processor relies on it:
  an insertion either appends the item or, exactly when the queue holds its limit, refuses it
  and leaves the contents alone; a removal takes the oldest item.
\<close>

text \<open>
  A run of a client: the accepted items and the delivered items, in order, and the final queue.
\<close>

datatype 'a fifo_op = Enq 'a | Deq

fun fifo_run :: "('q \<Rightarrow> 'a option \<Rightarrow> bool \<times> 'q) \<Rightarrow> ('q \<Rightarrow> 'a option \<times> 'q) \<Rightarrow>
    'a fifo_op list \<Rightarrow> 'q \<Rightarrow> 'a list \<times> 'a list \<times> 'q" where
  "fifo_run enq deq [] q = ([], [], q)"
| "fifo_run enq deq (Enq x # ops) q =
     (case enq q (Some x) of (ok, q') \<Rightarrow>
        case fifo_run enq deq ops q' of (acc, del, q'') \<Rightarrow>
          (if ok then x # acc else acc, del, q''))"
| "fifo_run enq deq (Deq # ops) q =
     (case deq q of (r, q') \<Rightarrow>
        case fifo_run enq deq ops q' of (acc, del, q'') \<Rightarrow>
          (acc, case r of None \<Rightarrow> del | Some y \<Rightarrow> y # del, q''))"

lemma fifo_run_snoc:
  "fifo_run enq deq (ops @ [a]) q =
     (case fifo_run enq deq ops q of (acc, del, q') \<Rightarrow>
        (case a of
           Enq x \<Rightarrow> (case enq q' (Some x) of (ok, q'') \<Rightarrow> (if ok then acc @ [x] else acc, del, q''))
         | Deq \<Rightarrow> (case deq q' of (r, q'') \<Rightarrow> (acc, case r of None \<Rightarrow> del | Some y \<Rightarrow> del @ [y], q''))))"
  by (induction enq deq ops q rule: fifo_run.induct) (auto split: prod.splits option.splits fifo_op.splits)

locale bounded_fifo =
  fixes enq :: "'q \<Rightarrow> 'a option \<Rightarrow> bool \<times> 'q"
    and deq :: "'q \<Rightarrow> 'a option \<times> 'q"
    and contents :: "'q \<Rightarrow> 'a list"
    and limit :: "'q \<Rightarrow> nat"
    and inv :: "'q \<Rightarrow> bool"
  assumes within_limit: "inv q \<Longrightarrow> length (contents q) \<le> limit q"
    and enq_null: "enq q None = (False, q)"
    and enq_room: "inv q \<Longrightarrow> length (contents q) < limit q \<Longrightarrow> enq q (Some x) = (ok, q') \<Longrightarrow>
      ok \<and> inv q' \<and> contents q' = contents q @ [x] \<and> limit q' = limit q"
    and enq_full: "inv q \<Longrightarrow> length (contents q) = limit q \<Longrightarrow> enq q (Some x) = (ok, q') \<Longrightarrow>
      \<not> ok \<and> inv q' \<and> contents q' = contents q \<and> limit q' = limit q"
    and deq_empty: "inv q \<Longrightarrow> contents q = [] \<Longrightarrow> deq q = (r, q') \<Longrightarrow> r = None \<and> q' = q"
    and deq_first: "inv q \<Longrightarrow> contents q = y # ys \<Longrightarrow> deq q = (r, q') \<Longrightarrow>
      r = Some y \<and> inv q' \<and> contents q' = ys \<and> limit q' = limit q"
begin

lemma enq_cases:
  assumes "inv q" and "enq q (Some x) = (ok, q')"
  shows "inv q' \<and> limit q' = limit q \<and> ok = (length (contents q) < limit q) \<and>
    contents q' = contents q @ (if ok then [x] else [])"
  using assms within_limit [of q] enq_room [of q x ok q'] enq_full [of q x ok q']
  by (cases "length (contents q) < limit q") auto

lemma deq_cases:
  assumes "inv q" and "deq q = (r, q')"
  shows "inv q' \<and> limit q' = limit q \<and>
    contents q = (case r of None \<Rightarrow> [] | Some y \<Rightarrow> [y]) @ contents q' \<and>
    (r = None \<longleftrightarrow> contents q = [])"
  using assms deq_empty [of q r q'] deq_first [of q _ _ r q']
  by (cases "contents q") auto

lemma fifo_run_order:
  assumes "inv q" and "fifo_run enq deq ops q = (acc, del, q')"
  shows "inv q' \<and> limit q' = limit q \<and> contents q @ acc = del @ contents q'"
  using assms
proof (induction ops arbitrary: q acc del q')
  case Nil
  then show ?case by simp
next
  case (Cons a ops)
  show ?case
  proof (cases a)
    case (Enq x)
    obtain ok q1 where e: "enq q (Some x) = (ok, q1)" by force
    obtain acc1 del1 q2 where r: "fifo_run enq deq ops q1 = (acc1, del1, q2)"
      by (rule prod_cases3)
    have res: "q2 = q'" "del1 = del" "acc = (if ok then [x] else []) @ acc1"
      using Cons.prems(2) e r Enq by auto
    have q1: "inv q1" "limit q1 = limit q" "contents q1 = contents q @ (if ok then [x] else [])"
      using enq_cases [OF Cons.prems(1) e] by blast+
    show ?thesis using Cons.IH [OF q1(1) r] q1(2,3) res by simp
  next
    case Deq
    obtain y q1 where d: "deq q = (y, q1)" by force
    obtain acc1 del1 q2 where r: "fifo_run enq deq ops q1 = (acc1, del1, q2)"
      by (rule prod_cases3)
    have res: "q2 = q'" "acc1 = acc" "del = (case y of None \<Rightarrow> [] | Some z \<Rightarrow> [z]) @ del1"
      using Cons.prems(2) d r Deq by (auto split: option.splits)
    have q1: "inv q1" "limit q1 = limit q"
        "contents q = (case y of None \<Rightarrow> [] | Some z \<Rightarrow> [z]) @ contents q1"
      using deq_cases [OF Cons.prems(1) d] by blast+
    show ?thesis using Cons.IH [OF q1(1) r] q1(2,3) res by simp
  qed
qed

lemma fifo_run_fill:
  assumes "inv q"
  shows "\<exists>q'. fifo_run enq deq (map Enq xs) q = (take (limit q - length (contents q)) xs, [], q')"
  using assms
proof (induction xs arbitrary: q)
  case (Cons x xs)
  obtain ok q1 where e: "enq q (Some x) = (ok, q1)" by force
  have q1: "inv q1" "limit q1 = limit q" "ok = (length (contents q) < limit q)" "contents q1 = contents q @ (if ok then [x] else [])"
    using enq_cases [OF Cons.prems e] by blast+
  obtain q' where "fifo_run enq deq (map Enq xs) q1 = (take (limit q1 - length (contents q1)) xs, [], q')"
    using Cons.IH [OF q1(1)] by blast
  then show ?case using e q1(2-4) by (auto simp: take_Cons' Suc_diff_Suc)
qed simp

lemma fifo_run_delivers_in_order:
  assumes "inv q" and "contents q = []" and "fifo_run enq deq ops q = (acc, del, q')"
  shows "acc = del @ contents q' \<and> length acc - length del \<le> limit q"
  using fifo_run_order [OF assms(1,3)] within_limit [of q'] assms(2) by auto

end

end
