(* ===== verification/Ring_Buffer.thy ===== *)
theory Ring_Buffer
  imports NL_Prelude Bounded_Fifo
begin

text \<open>
  The event queue of \<^verbatim>\<open>src/src/core/ring_buffer.c\<close>: a power-of-two circular array of pointers
  with a write position and a read position, used by one producer and one consumer.
  The sequential operations are here, with the refinement to a bounded first-in first-out
  queue; theory \<open>Ring_Concurrency\<close> runs them interleaved.
\<close>

section \<open>State and operations\<close>

text \<open>
  \<open>None\<close> in \<open>rb_data\<close> is a NULL slot. The record is the buffer a non-NULL pointer refers to: every operation of the code first
  returns false, NULL, 0 or (for \<open>ring_buffer_is_empty\<close>) true for a NULL buffer, which no definition here repeats.
\<close>

record 'a ring_buffer =
  rb_data :: "'a option list"
  rb_capacity :: size_t
  rb_mask :: size_t
  rb_head :: size_t
  rb_tail :: size_t
  rb_enqueue_count :: u64
  rb_dequeue_count :: u64
  rb_overflow_count :: u64
  rb_peak_usage :: u64

definition next_power_of_2 :: "size_t \<Rightarrow> size_t" where
  "next_power_of_2 n =
     (if n = 0 then 1
      else let n = n - 1;
               n = n OR drop_bit 1 n;
               n = n OR drop_bit 2 n;
               n = n OR drop_bit 4 n;
               n = n OR drop_bit 8 n;
               n = n OR drop_bit 16 n;
               n = n OR drop_bit 32 n
           in n + 1)"

definition ring_buffer_create :: "alloc \<Rightarrow> size_t \<Rightarrow> 'a ring_buffer option" where
  "ring_buffer_create mem capacity =
     (if capacity = 0 then None
      else if \<not> mem 1 then None
      else let cap = next_power_of_2 capacity in
        if \<not> mem (unat cap) then None
        else Some \<lparr>rb_data = replicate (unat cap) None,
                   rb_capacity = cap, rb_mask = cap - 1,
                   rb_head = 0, rb_tail = 0,
                   rb_enqueue_count = 0, rb_dequeue_count = 0,
                   rb_overflow_count = 0, rb_peak_usage = 0\<rparr>)"

text \<open>
  \<open>size\<close> as computed for the peak, before the new item is counted, and in
  \<open>ring_buffer_size\<close>: the distance from tail to head round the array.
\<close>

definition rb_distance :: "size_t \<Rightarrow> size_t \<Rightarrow> size_t \<Rightarrow> size_t" where
  "rb_distance capacity head tail =
     (if tail \<le> head then head - tail else capacity - tail + head)"

definition ring_buffer_enqueue :: "'a ring_buffer \<Rightarrow> 'a option \<Rightarrow> bool \<times> 'a ring_buffer" where
  "ring_buffer_enqueue rb item =
     (case item of
        None \<Rightarrow> (False, rb)
      | Some x \<Rightarrow>
          let head = rb_head rb;
              tail = rb_tail rb;
              next_head = (head + 1) AND rb_mask rb
          in if next_head = tail
             then (False, rb\<lparr>rb_overflow_count := rb_overflow_count rb + 1\<rparr>)
             else let size = rb_distance (rb_capacity rb) head tail + 1
                  in (True, rb\<lparr>rb_data := (rb_data rb)[unat head := Some x],
                               rb_head := next_head,
                               rb_enqueue_count := rb_enqueue_count rb + 1,
                               rb_peak_usage := max size (rb_peak_usage rb)\<rparr>))"

definition ring_buffer_dequeue :: "'a ring_buffer \<Rightarrow> 'a option \<times> 'a ring_buffer" where
  "ring_buffer_dequeue rb =
     (let head = rb_head rb;
          tail = rb_tail rb
      in if head = tail then (None, rb)
         else let item = rb_data rb ! unat tail;
                  next_tail = (tail + 1) AND rb_mask rb
              in (item, rb\<lparr>rb_tail := next_tail,
                           rb_dequeue_count := rb_dequeue_count rb + 1\<rparr>))"

definition ring_buffer_is_empty :: "'a ring_buffer \<Rightarrow> bool" where
  "ring_buffer_is_empty rb \<longleftrightarrow> rb_head rb = rb_tail rb"

definition ring_buffer_is_full :: "'a ring_buffer \<Rightarrow> bool" where
  "ring_buffer_is_full rb \<longleftrightarrow> (rb_head rb + 1) AND rb_mask rb = rb_tail rb"

definition ring_buffer_size :: "'a ring_buffer \<Rightarrow> size_t" where
  "ring_buffer_size rb = rb_distance (rb_capacity rb) (rb_head rb) (rb_tail rb)"

definition ring_buffer_capacity :: "'a ring_buffer \<Rightarrow> size_t" where
  "ring_buffer_capacity rb = rb_capacity rb - 1"

definition ring_buffer_stats :: "'a ring_buffer \<Rightarrow> u64 \<times> u64 \<times> u64 \<times> u64" where
  "ring_buffer_stats rb =
     (rb_enqueue_count rb, rb_dequeue_count rb, rb_overflow_count rb, rb_peak_usage rb)"

section \<open>Rounding up to a power of two\<close>

text \<open>
  The shift-and-or ladder fills every bit below the highest set bit. After the steps
  1, 2, \dots, \<open>m\<close> a bit is set exactly when some bit at most \<open>2 m - 1\<close> above it was set.
\<close>

definition smear :: "nat \<Rightarrow> size_t \<Rightarrow> size_t" where
  "smear k n = n OR drop_bit k n"

lemma bit_smear:
  assumes "\<And>i. bit w i \<longleftrightarrow> (\<exists>j < k. bit v (i + j))"
  shows "bit (smear k w) i \<longleftrightarrow> (\<exists>j < 2 * k. bit v (i + j))"
proof -
  have "bit (smear k w) i \<longleftrightarrow> bit w i \<or> bit w (k + i)"
    by (simp add: smear_def bit_or_iff bit_drop_bit_eq)
  also have "\<dots> \<longleftrightarrow> (\<exists>j < k. bit v (i + j)) \<or> (\<exists>j < k. bit v (k + i + j))"
    by (simp add: assms)
  also have "\<dots> \<longleftrightarrow> (\<exists>j < 2 * k. bit v (i + j))" (is "?l \<longleftrightarrow> ?r")
  proof
    assume ?l
    then show ?r
    proof
      assume "\<exists>j < k. bit v (i + j)"
      then show ?r by (metis less_le_trans mult_2 le_add1)
    next
      assume "\<exists>j < k. bit v (k + i + j)"
      then obtain j where "j < k" "bit v (k + i + j)" by blast
      then show ?r by (intro exI [of _ "k + j"]) (simp add: ac_simps)
    qed
  next
    assume ?r
    then obtain j where "j < 2 * k" "bit v (i + j)" by blast
    then show ?l
      by (cases "j < k") (auto intro: exI [of _ "j - k"] simp: ac_simps)
  qed
  finally show ?thesis .
qed

definition smear_all :: "size_t \<Rightarrow> size_t" where
  "smear_all n = smear 32 (smear 16 (smear 8 (smear 4 (smear 2 (smear 1 n)))))"

lemma bit_smear_all: "bit (smear_all v) i \<longleftrightarrow> (\<exists>j. bit v (i + j))"
proof -
  have s0: "bit v i \<longleftrightarrow> (\<exists>j < 1. bit v (i + j))" for i by simp
  have s1: "bit (smear 1 v) i \<longleftrightarrow> (\<exists>j < 2. bit v (i + j))" for i
    using bit_smear [OF s0] by simp
  have s2: "bit (smear 2 (smear 1 v)) i \<longleftrightarrow> (\<exists>j < 4. bit v (i + j))" for i
    using bit_smear [OF s1] by simp
  have s4: "bit (smear 4 (smear 2 (smear 1 v))) i \<longleftrightarrow> (\<exists>j < 8. bit v (i + j))" for i
    using bit_smear [OF s2] by simp
  have s8: "bit (smear 8 (smear 4 (smear 2 (smear 1 v)))) i \<longleftrightarrow> (\<exists>j < 16. bit v (i + j))" for i
    using bit_smear [OF s4] by simp
  have s16: "bit (smear 16 (smear 8 (smear 4 (smear 2 (smear 1 v))))) i
      \<longleftrightarrow> (\<exists>j < 32. bit v (i + j))" for i
    using bit_smear [OF s8] by simp
  have "bit (smear_all v) i \<longleftrightarrow> (\<exists>j < 64. bit v (i + j))"
    using bit_smear [OF s16] by (simp add: smear_all_def)
  also have "\<dots> \<longleftrightarrow> (\<exists>j. bit v (i + j))"
  proof
    assume "\<exists>j. bit v (i + j)"
    then obtain j where j: "bit v (i + j)" ..
    then have "i + j < 64" using bit_imp_le_length [OF j] by simp
    with j show "\<exists>j < 64. bit v (i + j)" by (intro exI [of _ j]) simp
  qed blast
  finally show ?thesis .
qed

lemma next_power_of_2_smear:
  "next_power_of_2 n = (if n = 0 then 1 else smear_all (n - 1) + 1)"
  by (simp add: next_power_of_2_def smear_all_def smear_def Let_def)

lemma smear_all_0 [simp]: "smear_all 0 = 0"
  by (simp add: smear_all_def smear_def)

text \<open>A non-zero word smears to the mask of its highest bit.\<close>

lemma smear_all_mask:
  assumes lo: "2 ^ k \<le> unat v" and hi: "unat v < 2 ^ Suc k"
  shows "smear_all v = mask (Suc k)"
proof (rule bit_word_eqI)
  fix i :: nat assume i: "i < LENGTH(64)"
  have top: "bit v k"
  proof -
    have "unat v div 2 ^ k = 1"
      using lo hi by (simp add: div_nat_eqI)
    then have "bit (unat v) k" by (simp add: bit_iff_odd)
    then show ?thesis by (simp add: bit_unsigned_iff)
  qed
  have above: "\<not> bit v j" if "k < j" for j
  proof -
    have "unat v div 2 ^ j = 0"
      using hi that by (metis Suc_leI div_less less_le_trans one_le_numeral power_increasing)
    then have "\<not> bit (unat v) j" by (simp add: bit_iff_odd)
    then show ?thesis using bit_imp_le_length [of v j] by (auto simp: bit_unsigned_iff)
  qed
  have "(\<exists>j. bit v (i + j)) \<longleftrightarrow> i \<le> k"
  proof
    assume "\<exists>j. bit v (i + j)"
    then obtain j where "bit v (i + j)" ..
    with above show "i \<le> k" by (meson le_add1 le_trans not_le_imp_less)
  next
    assume "i \<le> k"
    with top show "\<exists>j. bit v (i + j)" by (intro exI [of _ "k - i"]) simp
  qed
  then show "bit (smear_all v) i \<longleftrightarrow> bit (mask (Suc k) :: size_t) i"
    using i by (simp add: bit_smear_all bit_mask_iff less_Suc_eq_le)
qed

lemma ex_log2: "0 < n \<Longrightarrow> \<exists>k. 2 ^ k \<le> n \<and> n < 2 ^ Suc k" for n :: nat
  using ex_power_ivl1 [of 2 n] by auto

lemma next_power_of_2_eq:
  assumes "2 ^ k < unat n" and "unat n \<le> 2 ^ Suc k" and "k < 63"
  shows "next_power_of_2 n = 2 ^ Suc k"
proof -
  have n0: "n \<noteq> 0" using assms(1) by auto
  then have un: "unat (n - 1) = unat n - 1" by (simp add: unat_minus_one)
  have "smear_all (n - 1) = mask (Suc k)"
    by (rule smear_all_mask) (use assms un in auto)
  then show ?thesis
    using n0 by (simp add: next_power_of_2_smear mask_eq_exp_minus_1)
qed

lemma next_power_of_2_1 [simp]: "next_power_of_2 1 = 1"
  by (simp add: next_power_of_2_smear)

lemma next_power_of_2_exp:
  assumes "n \<noteq> 0" and "unat n \<le> 2 ^ 63"
  obtains k where "k \<le> 63" "next_power_of_2 n = 2 ^ k" "unat n \<le> 2 ^ k" "2 ^ k < 2 * unat n"
proof (cases "n = 1")
  case True
  then show ?thesis by (intro that [of 0]) auto
next
  case False
  then have "1 < unat n" using assms(1)
    by (metis less_one linorder_neqE_nat unat_eq_zero unat_1 unsigned_word_eqI)
  then have "0 < unat n - 1" by simp
  then obtain k where k: "2 ^ k \<le> unat n - 1" "unat n - 1 < 2 ^ Suc k"
    using ex_log2 by blast
  have lt: "2 ^ k < unat n" and le: "unat n \<le> 2 ^ Suc k" using k \<open>1 < unat n\<close> by auto
  have "k < 63"
    using lt assms(2) by (metis less_le_trans nat_power_less_imp_less zero_less_numeral)
  then show ?thesis
    using that [of "Suc k"] next_power_of_2_eq [OF lt le] lt le by auto
qed

lemma next_power_of_2_overflow:
  assumes "2 ^ 63 < unat n"
  shows "next_power_of_2 n = 0"
proof -
  have n0: "n \<noteq> 0" using assms by auto
  then have un: "unat (n - 1) = unat n - 1" by (simp add: unat_minus_one)
  have "unat (n - 1) < 2 ^ 64" using unsigned_less [of "n - 1"] by simp
  then have "smear_all (n - 1) = mask (Suc 63)"
    by (intro smear_all_mask) (use assms un in auto)
  also have "\<dots> = - 1" by (rule bit_word_eqI) (simp add: bit_mask_iff)
  finally show ?thesis using n0 by (simp add: next_power_of_2_smear)
qed

section \<open>Well-formed buffers and their contents\<close>

text \<open>
  The stored items, oldest first: the window of the array from the tail on. The number of
  items is the distance from the tail to the head modulo the array length.
\<close>

definition rb_count :: "'a ring_buffer \<Rightarrow> nat" where
  "rb_count rb =
     (unat (rb_head rb) + length (rb_data rb) - unat (rb_tail rb)) mod length (rb_data rb)"

definition rb_list :: "'a ring_buffer \<Rightarrow> 'a list" where
  "rb_list rb = map the (window (rb_data rb) (unat (rb_tail rb)) (rb_count rb))"

definition rb_limit :: "'a ring_buffer \<Rightarrow> nat" where
  "rb_limit rb = length (rb_data rb) - 1"

definition rb_shape :: "'a ring_buffer \<Rightarrow> bool" where
  "rb_shape rb \<longleftrightarrow>
     (\<exists>k \<le> 63. rb_capacity rb = 2 ^ k \<and> length (rb_data rb) = 2 ^ k) \<and>
     rb_mask rb = rb_capacity rb - 1 \<and>
     unat (rb_head rb) < length (rb_data rb) \<and> unat (rb_tail rb) < length (rb_data rb)"

text \<open>
  The invariant: the shape of the array, no NULL among the stored items, and statistics that
  agree with the contents.
\<close>

definition rb_inv :: "'a ring_buffer \<Rightarrow> bool" where
  "rb_inv rb \<longleftrightarrow> rb_shape rb \<and>
     None \<notin> set (window (rb_data rb) (unat (rb_tail rb)) (rb_count rb)) \<and>
     rb_enqueue_count rb - rb_dequeue_count rb = of_nat (rb_count rb) \<and>
     rb_count rb \<le> unat (rb_peak_usage rb) \<and> unat (rb_peak_usage rb) \<le> rb_limit rb"

lemma rb_shape_bounds:
  assumes "rb_shape rb"
  shows "unat (rb_head rb) < length (rb_data rb)" and "unat (rb_tail rb) < length (rb_data rb)"
  using assms unfolding rb_shape_def by blast+

lemma rb_shape_pos: "rb_shape rb \<Longrightarrow> 0 < length (rb_data rb)"
  by (drule rb_shape_bounds(1)) linarith

lemma rb_shape_cap: "rb_shape rb \<Longrightarrow> unat (rb_capacity rb) = length (rb_data rb)"
  unfolding rb_shape_def by (elim conjE exE) (simp add: unat_exp)

lemma rb_shape_inc [rb_simps]:
  assumes "rb_shape rb" and "unat p < length (rb_data rb)"
  shows "unat ((p + 1) AND rb_mask rb) = Suc (unat p) mod length (rb_data rb)"
  using assms unfolding rb_shape_def by (elim conjE exE) (simp add: unat_inc_and_mask)

text \<open>Distances round the array.\<close>

lemma ring_distance:
  fixes h t c :: nat
  assumes "h < c" "t < c"
  shows "(h + c - t) mod c = (if t \<le> h then h - t else h + c - t)"
proof (cases "t \<le> h")
  case True
  then have "(h + c - t) mod c = ((h - t) + c) mod c" by (simp add: add.commute)
  also have "\<dots> = (h - t) mod c" by (rule mod_add_self2)
  finally show ?thesis using True assms by simp
qed (use assms in simp)

lemma ring_inc: "h < c \<Longrightarrow> Suc h mod c = (if Suc h = c then 0 else Suc h)" for h c :: nat
  by simp

lemma ring_distance_inc_head:
  fixes h t c :: nat
  assumes "h < c" "t < c" "Suc h mod c \<noteq> t"
  shows "(Suc h mod c + c - t) mod c = Suc ((h + c - t) mod c)"
proof -
  have "Suc h mod c < c" using assms(1) by simp
  with assms show ?thesis
    unfolding ring_distance [OF \<open>Suc h mod c < c\<close> assms(2)] ring_distance [OF assms(1,2)]
    unfolding ring_inc [OF assms(1)] by (auto split: if_splits)
qed

lemma ring_distance_inc_tail:
  fixes h t c :: nat
  assumes "h < c" "t < c" "h \<noteq> t"
  shows "(h + c - t) mod c = Suc ((h + c - Suc t mod c) mod c)"
proof -
  have "Suc t mod c < c" using assms(2) by simp
  with assms show ?thesis
    unfolding ring_distance [OF assms(1) \<open>Suc t mod c < c\<close>] ring_distance [OF assms(1,2)]
    unfolding ring_inc [OF assms(2)] by (auto split: if_splits)
qed

lemma ring_distance_full:
  fixes h t c :: nat
  assumes "h < c" "t < c"
  shows "Suc h mod c = t \<longleftrightarrow> (h + c - t) mod c = c - 1"
  unfolding ring_distance [OF assms] ring_inc [OF assms(1)] using assms by auto

lemma ring_distance_zero:
  fixes h t c :: nat
  assumes "h < c" "t < c"
  shows "(h + c - t) mod c = 0 \<longleftrightarrow> h = t"
  unfolding ring_distance [OF assms] using assms by auto

lemma ring_distance_back:
  fixes h t c :: nat
  assumes "h < c" "t < c"
  shows "(t + (h + c - t) mod c) mod c = h"
  unfolding ring_distance [OF assms] using assms by (auto simp: not_le)

lemma rb_count_less: "rb_shape rb \<Longrightarrow> rb_count rb \<le> rb_limit rb"
proof -
  assume "rb_shape rb"
  then have "rb_count rb < length (rb_data rb)"
    unfolding rb_count_def by (intro mod_less_divisor rb_shape_pos)
  then show ?thesis by (simp add: rb_limit_def)
qed

lemma length_rb_list [simp]: "length (rb_list rb) = rb_count rb"
  by (simp add: rb_list_def)

lemma rb_full_iff:
  assumes "rb_shape rb"
  shows "ring_buffer_is_full rb \<longleftrightarrow> rb_count rb = rb_limit rb"
proof -
  have "ring_buffer_is_full rb \<longleftrightarrow>
      Suc (unat (rb_head rb)) mod length (rb_data rb) = unat (rb_tail rb)"
    using rb_shape_inc [OF assms, of "rb_head rb"] assms
    by (auto simp: ring_buffer_is_full_def rb_shape_def intro: unsigned_word_eqI)
  then show ?thesis
    using assms ring_distance_full by (simp add: rb_shape_def rb_count_def rb_limit_def)
qed

lemma rb_empty_iff:
  assumes "rb_shape rb"
  shows "ring_buffer_is_empty rb \<longleftrightarrow> rb_count rb = 0"
proof -
  have "ring_buffer_is_empty rb \<longleftrightarrow> unat (rb_head rb) = unat (rb_tail rb)"
    by (auto simp: ring_buffer_is_empty_def intro: unsigned_word_eqI)
  then show ?thesis
    using assms ring_distance_zero by (simp add: rb_shape_def rb_count_def)
qed

text \<open>The unsigned arithmetic of the size computation does not wrap.\<close>

lemma unat_rb_distance:
  assumes "rb_shape rb"
  shows "unat (rb_distance (rb_capacity rb) (rb_head rb) (rb_tail rb)) = rb_count rb"
proof (cases "rb_tail rb \<le> rb_head rb")
  case True
  then have "unat (rb_tail rb) \<le> unat (rb_head rb)" by (simp add: word_le_nat_alt)
  with True assms show ?thesis
    by (simp add: rb_distance_def rb_count_def unat_sub rb_shape_def ring_distance)
next
  case False
  let ?c = "rb_capacity rb" and ?h = "rb_head rb" and ?t = "rb_tail rb"
  have c: "unat ?c = length (rb_data rb)" using assms by (rule rb_shape_cap)
  have lt: "unat ?h < unat ?t" using False by (simp add: word_le_nat_alt)
  have tc: "?t \<le> ?c" using assms c by (simp add: rb_shape_def word_le_nat_alt)
  have ct: "unat (?c - ?t) = unat ?c - unat ?t" using tc by (rule unat_sub)
  have "unat ?c < 2 ^ 64" using unsigned_less [of ?c] by simp
  moreover have "unat ?t \<le> unat ?c" using tc by (simp add: word_le_nat_alt)
  ultimately have "unat ?c - unat ?t + unat ?h < 2 ^ 64" using lt by linarith
  then have "unat (?c - ?t + ?h) = unat ?c - unat ?t + unat ?h"
    using ct by (simp add: unat_word_ariths)
  with False lt c assms show ?thesis
    by (simp add: rb_distance_def rb_count_def rb_shape_def ring_distance)
qed

lemma unat_ring_capacity:
  assumes "rb_shape rb"
  shows "unat (ring_buffer_capacity rb) = rb_limit rb"
proof -
  have "rb_capacity rb \<noteq> 0"
    using rb_shape_cap [OF assms] rb_shape_pos [OF assms] by (metis less_irrefl unat_0)
  then show ?thesis
    using rb_shape_cap [OF assms]
    by (simp add: ring_buffer_capacity_def rb_limit_def unat_minus_one)
qed

section \<open>The buffer is a bounded first-in first-out queue\<close>

lemma enqueue_room:
  assumes inv: "rb_inv rb" and room: "rb_count rb < rb_limit rb"
    and e: "ring_buffer_enqueue rb (Some x) = (ok, rb')"
  shows "ok \<and> rb_inv rb' \<and> rb_list rb' = rb_list rb @ [x] \<and> rb_limit rb' = rb_limit rb"
proof -
  let ?h = "unat (rb_head rb)" and ?t = "unat (rb_tail rb)" and ?c = "length (rb_data rb)"
  let ?w = "window (rb_data rb) ?t (rb_count rb)"
  have sh: "rb_shape rb" using inv by (simp add: rb_inv_def)
  note b = rb_shape_bounds [OF sh]
  have nfull: "(rb_head rb + 1) AND rb_mask rb \<noteq> rb_tail rb"
    using rb_full_iff [OF sh] room by (simp add: ring_buffer_is_full_def)
  have rb': "ok" "rb' = rb\<lparr>rb_data := (rb_data rb)[?h := Some x],
      rb_head := (rb_head rb + 1) AND rb_mask rb,
      rb_enqueue_count := rb_enqueue_count rb + 1,
      rb_peak_usage := max (rb_distance (rb_capacity rb) (rb_head rb) (rb_tail rb) + 1)
                           (rb_peak_usage rb)\<rparr>"
    using e nfull by (simp_all add: ring_buffer_enqueue_def Let_def)
  have h': "unat ((rb_head rb + 1) AND rb_mask rb) = Suc ?h mod ?c"
    by (rule rb_shape_inc [OF sh b(1)])
  have sh': "rb_shape rb'"
    using sh h' b rb_shape_pos [OF sh] rb' by (simp add: rb_shape_def)
  have nt: "Suc ?h mod ?c \<noteq> ?t"
    using nfull h' by (metis unsigned_word_eqI)
  have cnt: "rb_count rb' = Suc (rb_count rb)"
    using ring_distance_inc_head [OF b nt] rb' h' by (simp add: rb_count_def)
  have hw: "?h = (?t + rb_count rb) mod ?c"
    using ring_distance_back [OF b] by (simp add: rb_count_def)
  have lt: "rb_count rb < ?c" using room by (simp add: rb_limit_def)
  have win: "window (rb_data rb') (unat (rb_tail rb')) (rb_count rb') = ?w @ [Some x]"
    using window_snoc_update [OF lt hw] cnt rb' by simp
  have sz: "unat (rb_distance (rb_capacity rb) (rb_head rb) (rb_tail rb) + 1) = Suc (rb_count rb)"
  proof -
    have "unat (rb_capacity rb) < 2 ^ 64" using unsigned_less [of "rb_capacity rb"] by simp
    then have "Suc (rb_count rb) < 2 ^ 64" using lt rb_shape_cap [OF sh] by simp
    then show ?thesis using unat_rb_distance [OF sh] by (simp add: unat_word_ariths)
  qed
  have peak: "unat (rb_peak_usage rb') = max (Suc (rb_count rb)) (unat (rb_peak_usage rb))"
    using rb' sz by (auto simp: max_def word_le_nat_alt)
  have lim: "rb_limit rb' = rb_limit rb" using rb' by (simp add: rb_limit_def)
  have "rb_inv rb'"
    using inv sh' win cnt peak room lim rb' by (auto simp: rb_inv_def algebra_simps)
  moreover have "rb_list rb' = rb_list rb @ [x]"
    unfolding rb_list_def win by simp
  ultimately show ?thesis using rb'(1) lim by simp
qed

lemma enqueue_full:
  assumes inv: "rb_inv rb" and full: "rb_count rb = rb_limit rb"
    and e: "ring_buffer_enqueue rb (Some x) = (ok, rb')"
  shows "\<not> ok \<and> rb_inv rb' \<and> rb_list rb' = rb_list rb \<and> rb_limit rb' = rb_limit rb"
proof -
  have "rb_shape rb" using inv by (simp add: rb_inv_def)
  then have "(rb_head rb + 1) AND rb_mask rb = rb_tail rb"
    using rb_full_iff [of rb] full by (simp add: ring_buffer_is_full_def)
  then have "\<not> ok" "rb' = rb\<lparr>rb_overflow_count := rb_overflow_count rb + 1\<rparr>"
    using e by (simp_all add: ring_buffer_enqueue_def)
  then show ?thesis
    using inv by (simp add: rb_inv_def rb_shape_def rb_count_def rb_list_def rb_limit_def)
qed

lemma dequeue_empty:
  assumes "rb_inv rb" and "rb_count rb = 0" and "ring_buffer_dequeue rb = (r, rb')"
  shows "r = None \<and> rb' = rb"
  using assms rb_empty_iff [of rb]
  by (simp add: rb_inv_def ring_buffer_is_empty_def ring_buffer_dequeue_def)

lemma dequeue_first:
  assumes inv: "rb_inv rb" and ys: "rb_list rb = y # ys"
    and d: "ring_buffer_dequeue rb = (r, rb')"
  shows "r = Some y \<and> rb_inv rb' \<and> rb_list rb' = ys \<and> rb_limit rb' = rb_limit rb"
proof -
  let ?h = "unat (rb_head rb)" and ?t = "unat (rb_tail rb)" and ?c = "length (rb_data rb)"
  have sh: "rb_shape rb" using inv by (simp add: rb_inv_def)
  note b = rb_shape_bounds [OF sh]
  have pos: "rb_count rb \<noteq> 0"
    using ys by (metis length_rb_list length_0_conv list.distinct(1))
  then have ne: "rb_head rb \<noteq> rb_tail rb"
    using rb_empty_iff [OF sh] by (simp add: ring_buffer_is_empty_def)
  have r: "r = rb_data rb ! ?t" and rb': "rb' = rb\<lparr>rb_tail := (rb_tail rb + 1) AND rb_mask rb,
      rb_dequeue_count := rb_dequeue_count rb + 1\<rparr>"
    using d ne by (simp_all add: ring_buffer_dequeue_def Let_def)
  have t': "unat ((rb_tail rb + 1) AND rb_mask rb) = Suc ?t mod ?c"
    by (rule rb_shape_inc [OF sh b(2)])
  have sh': "rb_shape rb'"
    using sh t' b rb_shape_pos [OF sh] rb' by (simp add: rb_shape_def)
  have nt: "?h \<noteq> ?t" using ne by (metis unsigned_word_eqI)
  have cnt: "rb_count rb = Suc (rb_count rb')"
    using ring_distance_inc_tail [OF b nt] rb' t' by (simp add: rb_count_def)
  have win: "window (rb_data rb) ?t (rb_count rb) =
      rb_data rb ! ?t # window (rb_data rb') (unat (rb_tail rb')) (rb_count rb')"
    using window_Suc_hd [of "rb_data rb" ?t "rb_count rb'"] cnt rb' t' b
      window_mod [of "rb_data rb" "Suc ?t"] by simp
  have lim: "rb_limit rb' = rb_limit rb" using rb' by (simp add: rb_limit_def)
  have "rb_data rb ! ?t \<in> set (window (rb_data rb) ?t (rb_count rb))" unfolding win by simp
  then have nn: "rb_data rb ! ?t \<noteq> None" using inv unfolding rb_inv_def by metis
  have eqs: "the (rb_data rb ! ?t) = y" "rb_list rb' = ys"
    using ys win by (simp_all add: rb_list_def)
  have "rb_inv rb'"
    using inv sh' win cnt lim rb' by (auto simp: rb_inv_def algebra_simps)
  with r nn eqs lim show ?thesis by auto
qed

interpretation ring_fifo: bounded_fifo ring_buffer_enqueue ring_buffer_dequeue rb_list rb_limit rb_inv
proof unfold_locales
  fix rb :: "'a ring_buffer" and x :: 'a and y ys ok rb' r
  show "rb_inv rb \<Longrightarrow> length (rb_list rb) \<le> rb_limit rb"
    by (simp add: rb_inv_def rb_count_less)
  show "ring_buffer_enqueue rb None = (False, rb)"
    by (simp add: ring_buffer_enqueue_def)
  show "rb_inv rb \<Longrightarrow> length (rb_list rb) < rb_limit rb \<Longrightarrow> ring_buffer_enqueue rb (Some x) = (ok, rb') \<Longrightarrow>
      ok \<and> rb_inv rb' \<and> rb_list rb' = rb_list rb @ [x] \<and> rb_limit rb' = rb_limit rb"
    using enqueue_room [of rb x ok rb'] by simp
  show "rb_inv rb \<Longrightarrow> length (rb_list rb) = rb_limit rb \<Longrightarrow> ring_buffer_enqueue rb (Some x) = (ok, rb') \<Longrightarrow>
      \<not> ok \<and> rb_inv rb' \<and> rb_list rb' = rb_list rb \<and> rb_limit rb' = rb_limit rb"
    using enqueue_full [of rb x ok rb'] by simp
  show "rb_inv rb \<Longrightarrow> rb_list rb = [] \<Longrightarrow> ring_buffer_dequeue rb = (r, rb') \<Longrightarrow> r = None \<and> rb' = rb"
    using dequeue_empty [of rb r rb'] by (metis length_rb_list list.size(3))
  show "rb_inv rb \<Longrightarrow> rb_list rb = y # ys \<Longrightarrow> ring_buffer_dequeue rb = (r, rb') \<Longrightarrow>
      r = Some y \<and> rb_inv rb' \<and> rb_list rb' = ys \<and> rb_limit rb' = rb_limit rb"
    by (rule dequeue_first)
qed

section \<open>Creation\<close>

lemma create_shape:
  assumes "ring_buffer_create mem n = Some rb" and "unat n \<le> 2 ^ 63"
  shows "rb_inv rb" and "rb_list rb = []"
    and "length (rb_data rb) = unat (next_power_of_2 n)" and "n \<noteq> 0"
proof -
  show n0: "n \<noteq> 0" using assms(1) by (auto simp: ring_buffer_create_def)
  obtain k where k: "k \<le> 63" "next_power_of_2 n = 2 ^ k"
    using next_power_of_2_exp [OF n0 assms(2)] by metis
  have rb: "rb = \<lparr>rb_data = replicate (2 ^ k) None, rb_capacity = 2 ^ k, rb_mask = 2 ^ k - 1,
      rb_head = 0, rb_tail = 0, rb_enqueue_count = 0, rb_dequeue_count = 0,
      rb_overflow_count = 0, rb_peak_usage = 0\<rparr>"
    using assms(1) k by (auto simp: ring_buffer_create_def Let_def unat_exp split: if_splits)
  have "rb_shape rb"
    unfolding rb_shape_def rb using k(1) by auto
  moreover have c0: "rb_count rb = 0" by (simp add: rb_count_def rb)
  ultimately show "rb_inv rb" using c0 by (simp add: rb_inv_def rb rb_limit_def)
  show "rb_list rb = []" using c0 by (simp add: rb_list_def)
  show "length (rb_data rb) = unat (next_power_of_2 n)" using k by (simp add: rb unat_exp)
qed

section \<open>Properties\<close>

text \<open>C26. For every request from 1 to \<open>2^63\<close> the capacity is the least power of two that is at
  least the request.\<close>

theorem next_power_of_2_least:
  assumes "n \<noteq> 0" and "unat n \<le> 2 ^ 63"
  shows "\<exists>k. unat (next_power_of_2 n) = 2 ^ k \<and> unat n \<le> 2 ^ k \<and>
    (\<forall>j. unat n \<le> 2 ^ j \<longrightarrow> (2::nat) ^ k \<le> 2 ^ j)"
proof -
  obtain k where k: "k \<le> 63" "next_power_of_2 n = 2 ^ k" "unat n \<le> 2 ^ k" "2 ^ k < 2 * unat n"
    using next_power_of_2_exp [OF assms] by metis
  have "(2::nat) ^ k \<le> 2 ^ j" if "unat n \<le> 2 ^ j" for j
  proof -
    have "(2::nat) ^ k < 2 ^ Suc j" using k(4) that by simp
    then have "k < Suc j" by (rule power_less_imp_less_exp [rotated]) simp
    then show ?thesis by (simp add: power_increasing)
  qed
  with k show ?thesis by (auto simp: unat_exp)
qed

theorem next_power_of_2_least_witness:
  "next_power_of_2 1000 = 1024 \<and>
   (\<exists>k. unat (next_power_of_2 1000) = 2 ^ k \<and> unat (1000::size_t) \<le> 2 ^ k \<and>
     (\<forall>j. unat (1000::size_t) \<le> 2 ^ j \<longrightarrow> (2::nat) ^ k \<le> 2 ^ j))"
proof
  show "next_power_of_2 1000 = 1024" by (simp add: next_power_of_2_def)
  show "\<exists>k. unat (next_power_of_2 1000) = 2 ^ k \<and> unat (1000::size_t) \<le> 2 ^ k \<and>
     (\<forall>j. unat (1000::size_t) \<le> 2 ^ j \<longrightarrow> (2::nat) ^ k \<le> 2 ^ j)"
    by (rule next_power_of_2_least) simp_all
qed

text \<open>C10. A created buffer, driven by any sequence of enqueue and dequeue calls, delivers exactly
  the accepted items in the order of acceptance; what is not delivered yet is still stored, and
  at most capacity minus one items are stored at any time.\<close>

theorem ring_buffer_fifo:
  assumes "ring_buffer_create mem n = Some rb" and "unat n \<le> 2 ^ 63"
    and "fifo_run ring_buffer_enqueue ring_buffer_dequeue ops rb = (accepted, delivered, rb')"
  shows "accepted = delivered @ rb_list rb' \<and>
    length (rb_list rb') \<le> unat (ring_buffer_capacity rb)"
proof -
  note c = create_shape [OF assms(1,2)]
  have "unat (ring_buffer_capacity rb) = rb_limit rb"
    using c(1) by (simp add: rb_inv_def unat_ring_capacity)
  with ring_fifo.fifo_run_delivers_in_order [OF c(1,2) assms(3)] show ?thesis by auto
qed

theorem ring_buffer_fifo_witness:
  "\<exists>rb rb'. ring_buffer_create (\<lambda>_. True) 4 = Some rb \<and>
     fifo_run ring_buffer_enqueue ring_buffer_dequeue
       [Enq (10::nat), Enq 11, Deq, Enq 12, Enq 13, Enq 14, Deq] rb = ([10, 11, 12, 13], [10, 11], rb') \<and>
     [10, 11, 12, 13] = [10, 11] @ rb_list rb' \<and>
     length (rb_list rb') \<le> unat (ring_buffer_capacity rb)"
proof -
  obtain rb :: "nat ring_buffer" where c: "ring_buffer_create (\<lambda>_. True) 4 = Some rb"
    by (simp add: ring_buffer_create_def next_power_of_2_def)
  obtain acc del rb' where r: "fifo_run ring_buffer_enqueue ring_buffer_dequeue
       [Enq (10::nat), Enq 11, Deq, Enq 12, Enq 13, Enq 14, Deq] rb = (acc, del, rb')"
    by (rule prod_cases3)
  have "(case fifo_run ring_buffer_enqueue ring_buffer_dequeue
       [Enq (10::nat), Enq 11, Deq, Enq 12, Enq 13, Enq 14, Deq]
       (the (ring_buffer_create (\<lambda>_. True) 4)) of (acc, del, _) \<Rightarrow>
     acc = [10, 11, 12, 13] \<and> del = [10, 11])"
    by code_simp
  then have "acc = [10, 11, 12, 13]" "del = [10, 11]" using c r by simp_all
  with c r ring_buffer_fifo [OF c _ r] show ?thesis by (intro exI [of _ rb] exI [of _ rb']) simp
qed

text \<open>What the buffer holds and what it has counted after a run.\<close>

definition stored :: "'a fifo_op list \<Rightarrow> 'a ring_buffer \<Rightarrow> nat" where
  "stored ops rb =
     (case fifo_run ring_buffer_enqueue ring_buffer_dequeue ops rb of
        (accepted, delivered, _) \<Rightarrow> length accepted - length delivered)"

definition enqueues :: "'a fifo_op list \<Rightarrow> nat" where
  "enqueues ops = length (filter (\<lambda>a. a \<noteq> Deq) ops)"

lemma enqueue_counters:
  assumes "ring_buffer_enqueue rb (Some x) = (ok, rb')"
  shows "rb_enqueue_count rb' = rb_enqueue_count rb + (if ok then 1 else 0)"
    "rb_dequeue_count rb' = rb_dequeue_count rb"
    "rb_overflow_count rb' = rb_overflow_count rb + (if ok then 0 else 1)"
    "rb_peak_usage rb' = (if ok then max (ring_buffer_size rb + 1) (rb_peak_usage rb) else rb_peak_usage rb)"
  using assms by (auto simp: ring_buffer_enqueue_def ring_buffer_size_def Let_def split: if_splits)

lemma dequeue_counters:
  assumes "ring_buffer_dequeue rb = (r, rb')" "rb_inv rb"
  shows "rb_enqueue_count rb' = rb_enqueue_count rb"
    "rb_dequeue_count rb' = rb_dequeue_count rb + (if r = None then 0 else 1)"
    "rb_overflow_count rb' = rb_overflow_count rb" "rb_peak_usage rb' = rb_peak_usage rb"
proof -
  have "r \<noteq> None" if "rb_head rb \<noteq> rb_tail rb"
  proof (cases "rb_list rb")
    case Nil
    then have "rb_count rb = 0" by (metis length_rb_list list.size(3))
    then show ?thesis using that assms(2) rb_empty_iff [of rb] by (simp add: rb_inv_def ring_buffer_is_empty_def)
  next
    case (Cons y ys)
    then show ?thesis using dequeue_first [OF assms(2) _ assms(1)] by simp
  qed
  then show "rb_enqueue_count rb' = rb_enqueue_count rb"
    "rb_dequeue_count rb' = rb_dequeue_count rb + (if r = None then 0 else 1)"
    "rb_overflow_count rb' = rb_overflow_count rb" "rb_peak_usage rb' = rb_peak_usage rb"
    using assms(1) by (auto simp: ring_buffer_dequeue_def Let_def split: if_splits)
qed

lemma size_rb_list: "rb_inv rb \<Longrightarrow> unat (ring_buffer_size rb) = length (rb_list rb)"
  by (simp add: rb_inv_def ring_buffer_size_def unat_rb_distance)

text \<open>One more call: the items counted so far, and the highest number of items.\<close>

lemma enqueue_peak:
  assumes "rb_inv rb" "ring_buffer_enqueue rb (Some x) = (ok, rb')" "length (rb_list rb) \<le> unat (rb_peak_usage rb)"
  shows "unat (rb_peak_usage rb') = max (unat (rb_peak_usage rb)) (length (rb_list rb'))"
proof (cases ok)
  case True
  have inv': "rb_inv rb'" and l: "rb_list rb' = rb_list rb @ [x]"
    using ring_fifo.enq_cases [OF assms(1,2)] True by auto
  have "length (rb_list rb') \<le> unat (rb_peak_usage rb')" using inv' by (simp add: rb_inv_def)
  then have "Suc (unat (ring_buffer_size rb)) < 2 ^ 64"
    using l size_rb_list [OF assms(1)] unsigned_less [where ?'a = nat, of "rb_peak_usage rb'"] by simp
  then have "unat (ring_buffer_size rb + 1) = length (rb_list rb')"
    using l size_rb_list [OF assms(1)] by (simp add: unat_word_ariths)
  then show ?thesis using enqueue_counters(4) [OF assms(2)] True by (auto simp: max_def word_le_nat_alt)
next
  case False
  then show ?thesis
    using ring_fifo.enq_cases [OF assms(1,2)] enqueue_counters(4) [OF assms(2)] assms(3) by simp
qed

definition rb_counted :: "'a fifo_op list \<Rightarrow> 'a ring_buffer \<Rightarrow> bool" where
  "rb_counted ops rb \<longleftrightarrow>
     (case fifo_run ring_buffer_enqueue ring_buffer_dequeue ops rb of (accepted, delivered, rb') \<Rightarrow>
        rb_enqueue_count rb' = of_nat (length accepted) \<and> rb_dequeue_count rb' = of_nat (length delivered) \<and>
        length accepted \<le> enqueues ops \<and> rb_overflow_count rb' = of_nat (enqueues ops - length accepted) \<and>
        unat (rb_peak_usage rb') = Max ((\<lambda>k. stored (take k ops) rb) ` {..length ops}))"

lemma peak_snoc:
  "Max ((\<lambda>k. stored (take k (ops @ [a])) rb) ` {..length (ops @ [a])}) =
     max (Max ((\<lambda>k. stored (take k ops) rb) ` {..length ops})) (stored (ops @ [a]) rb)"
proof -
  have "(\<lambda>k. stored (take k (ops @ [a])) rb) ` {..length (ops @ [a])} =
      insert (stored (ops @ [a]) rb) ((\<lambda>k. stored (take k ops) rb) ` {..length ops})"
    by (auto simp: atMost_Suc)
  then show ?thesis by (simp add: max.commute)
qed

lemma rb_run_counted:
  assumes start: "rb_inv rb" "rb_list rb = []" "ring_buffer_stats rb = (0, 0, 0, 0)"
  shows "rb_counted ops rb"
proof (induction ops rule: rev_induct)
  case Nil
  then show ?case using start(3) by (simp add: rb_counted_def ring_buffer_stats_def enqueues_def stored_def)
next
  case (snoc a ops)
  obtain acc del q where r: "fifo_run ring_buffer_enqueue ring_buffer_dequeue ops rb = (acc, del, q)" by (rule prod_cases3)
  have q: "rb_inv q" "acc = del @ rb_list q"
    using ring_fifo.fifo_run_order [OF start(1) r] start(2) by auto
  have stored: "stored ops rb = length (rb_list q)" by (simp add: stored_def r q(2))
  have peak: "length (rb_list q) \<le> unat (rb_peak_usage q)" using q(1) by (simp add: rb_inv_def)
  note IH = snoc [unfolded rb_counted_def r prod.case]
  show ?case
  proof (cases a)
    case (Enq x)
    obtain ok q' where e: "ring_buffer_enqueue q (Some x) = (ok, q')" by force
    have q': "rb_list q' = rb_list q @ (if ok then [x] else [])" using ring_fifo.enq_cases [OF q(1) e] by blast
    have r': "fifo_run ring_buffer_enqueue ring_buffer_dequeue (ops @ [a]) rb = (acc @ (if ok then [x] else []), del, q')"
      by (simp add: fifo_run_snoc r Enq e)
    have "stored (ops @ [a]) rb = length (rb_list q')" by (simp add: stored_def r' q(2) q')
    then have "unat (rb_peak_usage q') = Max ((\<lambda>k. stored (take k (ops @ [a])) rb) ` {..length (ops @ [a])})"
      unfolding peak_snoc using enqueue_peak [OF q(1) e peak] IH by simp
    then show ?thesis
      unfolding rb_counted_def r' prod.case using IH enqueue_counters(1-3) [OF e] Enq
      by (auto simp: enqueues_def Suc_diff_le)
  next
    case Deq
    obtain y q' where d: "ring_buffer_dequeue q = (y, q')" by force
    have r': "fifo_run ring_buffer_enqueue ring_buffer_dequeue (ops @ [a]) rb = (acc, del @ (case y of None \<Rightarrow> [] | Some z \<Rightarrow> [z]), q')"
      by (simp add: fifo_run_snoc r Deq d split: option.splits)
    have "stored (ops @ [a]) rb \<le> length (rb_list q)" by (auto simp: stored_def r' q(2) split: option.splits)
    then have "Max ((\<lambda>k. stored (take k (ops @ [a])) rb) ` {..length (ops @ [a])}) = unat (rb_peak_usage q)"
      unfolding peak_snoc using peak IH by simp
    then show ?thesis
      unfolding rb_counted_def r' prod.case using IH dequeue_counters [OF d q(1)] Deq
      by (auto simp: enqueues_def split: option.splits)
  qed
qed

text \<open>C27. The observers tell the truth after every history: when a created buffer has been driven by any sequence of
  enqueue and dequeue calls, the reported size is the number of accepted minus delivered items, the buffer is reported empty
  or full exactly when that is 0 or the reported capacity, the next enqueue succeeds exactly when it is not reported full,
  and the statistics are the number of accepted items, of delivered items, of refused enqueues (all modulo \<open>2^64\<close>) and the
  highest number of items stored at any point of the history.\<close>

theorem ring_buffer_observers:
  assumes "ring_buffer_create mem n = Some rb" and "unat n \<le> 2 ^ 63"
    and "fifo_run ring_buffer_enqueue ring_buffer_dequeue ops rb = (accepted, delivered, rb')"
  shows "unat (ring_buffer_size rb') = length accepted - length delivered \<and>
    (ring_buffer_is_empty rb' \<longleftrightarrow> accepted = delivered) \<and>
    (ring_buffer_is_full rb' \<longleftrightarrow> length accepted - length delivered = unat (ring_buffer_capacity rb')) \<and>
    (fst (ring_buffer_enqueue rb' (Some x)) \<longleftrightarrow> \<not> ring_buffer_is_full rb') \<and>
    ring_buffer_stats rb' = (of_nat (length accepted), of_nat (length delivered), of_nat (enqueues ops - length accepted),
      of_nat (Max ((\<lambda>k. stored (take k ops) rb) ` {..length ops})))"
proof -
  note c = create_shape [OF assms(1,2)]
  have zero: "ring_buffer_stats rb = (0, 0, 0, 0)"
    using assms(1) by (auto simp: ring_buffer_create_def ring_buffer_stats_def Let_def split: if_splits)
  have r: "rb_inv rb'" "accepted = delivered @ rb_list rb'"
    using ring_fifo.fifo_run_order [OF c(1) assms(3)] c(2) by auto
  then have sh: "rb_shape rb'" by (simp add: rb_inv_def)
  have "fst (ring_buffer_enqueue rb' (Some x)) \<longleftrightarrow> \<not> ring_buffer_is_full rb'"
    by (simp add: ring_buffer_enqueue_def ring_buffer_is_full_def Let_def)
  moreover have "ring_buffer_is_empty rb' \<longleftrightarrow> accepted = delivered"
    using rb_empty_iff [OF sh] r(2) by (metis append_self_conv length_rb_list length_0_conv)
  moreover have "ring_buffer_stats rb' = (of_nat (length accepted), of_nat (length delivered), of_nat (enqueues ops - length accepted),
      of_nat (Max ((\<lambda>k. stored (take k ops) rb) ` {..length ops})))"
    using rb_run_counted [OF c(1,2) zero, of ops] assms(3)
    by (simp add: rb_counted_def ring_buffer_stats_def) (metis of_nat_unat ucast_id)
  ultimately show ?thesis
    using r size_rb_list [OF r(1)] rb_full_iff [OF sh] unat_ring_capacity [OF sh] by simp
qed

theorem ring_buffer_observers_witness:
  "\<exists>rb rb'. ring_buffer_create (\<lambda>_. True) 3 = Some rb \<and>
     fifo_run ring_buffer_enqueue ring_buffer_dequeue [Enq (10::nat), Enq 11, Enq 12, Enq 13, Deq, Deq] rb = ([10, 11, 12], [10, 11], rb') \<and>
     unat (ring_buffer_size rb') = 1 \<and> fst (ring_buffer_enqueue rb' (Some 14)) \<and>
     fst (ring_buffer_stats rb') = 3 \<and> fst (snd (snd (ring_buffer_stats rb'))) = 1"
proof -
  let ?ops = "[Enq (10::nat), Enq 11, Enq 12, Enq 13, Deq, Deq]"
  obtain rb :: "nat ring_buffer" where c: "ring_buffer_create (\<lambda>_. True) 3 = Some rb"
    by (simp add: ring_buffer_create_def next_power_of_2_def)
  obtain acc del rb' where r: "fifo_run ring_buffer_enqueue ring_buffer_dequeue ?ops rb = (acc, del, rb')"
    by (rule prod_cases3)
  have "(case fifo_run ring_buffer_enqueue ring_buffer_dequeue ?ops (the (ring_buffer_create (\<lambda>_. True) 3)) of (acc, del, rb') \<Rightarrow>
     acc = [10, 11, 12] \<and> del = [10, 11] \<and> unat (ring_buffer_capacity rb') = 3)"
    by code_simp
  then have "acc = [10, 11, 12]" "del = [10, 11]" "unat (ring_buffer_capacity rb') = 3" using c r by simp_all
  with c r ring_buffer_observers [OF c _ r, of 14] show ?thesis
    by (intro exI [of _ rb] exI [of _ rb']) (simp add: enqueues_def)
qed

text \<open>C30. One slot is always kept free, so a buffer that was created for exactly \<open>2^k\<close> items holds one less: when items are
  enqueued into the new buffer one after the other, the first \<open>2^k - 1\<close> are accepted and all others are refused, and after
  any other history too an enqueue is refused exactly when \<open>2^k - 1\<close> items are stored. In particular a buffer created for one
  item refuses every item.\<close>

theorem ring_buffer_capacity_shortfall:
  assumes "ring_buffer_create mem (2 ^ k) = Some rb" and "k \<le> 63"
  shows "fst (fifo_run ring_buffer_enqueue ring_buffer_dequeue (map Enq xs) rb) = take (2 ^ k - 1) xs \<and>
    (case fifo_run ring_buffer_enqueue ring_buffer_dequeue ops rb of (accepted, delivered, rb') \<Rightarrow>
       fst (ring_buffer_enqueue rb' (Some x)) \<longleftrightarrow> length accepted - length delivered \<noteq> 2 ^ k - 1)"
proof -
  have un: "unat (2 ^ k :: size_t) = 2 ^ k" using assms(2) by (simp add: unat_exp)
  have le: "unat (2 ^ k :: size_t) \<le> 2 ^ 63"
    unfolding un by (rule power_increasing [OF assms(2)]) simp
  note c = create_shape [OF assms(1) le]
  obtain j where j: "j \<le> 63" "next_power_of_2 (2 ^ k) = 2 ^ j" "2 ^ k \<le> (2::nat) ^ j" "(2::nat) ^ j < 2 * 2 ^ k"
    using next_power_of_2_exp [OF c(4) le] un by metis
  have "j < Suc k" by (rule power_less_imp_less_exp [of 2]) (use j(4) in simp_all)
  moreover have "k \<le> j" by (rule power_le_imp_le_exp [OF _ j(3)]) simp
  ultimately have "length (rb_data rb) = 2 ^ k" using c(3) j(2) un by (metis le_antisym less_Suc_eq_le)
  then have lim: "rb_limit rb = 2 ^ k - 1" by (simp add: rb_limit_def)
  obtain acc del rb' where r: "fifo_run ring_buffer_enqueue ring_buffer_dequeue ops rb = (acc, del, rb')" by (rule prod_cases3)
  have rb': "rb_inv rb'" "rb_limit rb' = 2 ^ k - 1" "acc = del @ rb_list rb'"
    using ring_fifo.fifo_run_order [OF c(1) r] c(2) lim by auto
  obtain ok rb'' where e: "ring_buffer_enqueue rb' (Some x) = (ok, rb'')" by force
  have "ok \<longleftrightarrow> length acc - length del \<noteq> 2 ^ k - 1"
    using ring_fifo.enq_cases [OF rb'(1) e] ring_fifo.within_limit [OF rb'(1)] rb'(2,3) by auto
  then show ?thesis using ring_fifo.fifo_run_fill [OF c(1), of xs] c(2) lim r e by auto
qed

theorem ring_buffer_capacity_shortfall_witness:
  "\<exists>rb :: nat ring_buffer. ring_buffer_create (\<lambda>_. True) (2 ^ 2) = Some rb \<and>
     fst (fifo_run ring_buffer_enqueue ring_buffer_dequeue (map Enq [5, 6, 7, 8]) rb) = [5, 6, 7]"
proof -
  obtain rb :: "nat ring_buffer" where rb: "ring_buffer_create (\<lambda>_. True) (2 ^ 2) = Some rb"
    by (simp add: ring_buffer_create_def next_power_of_2_def)
  have "fst (fifo_run ring_buffer_enqueue ring_buffer_dequeue (map Enq [5, 6, 7, 8]) rb) = take (2 ^ 2 - 1) [5, 6, 7, 8]"
    using ring_buffer_capacity_shortfall [OF rb, where xs = "[5, 6, 7, 8]"] by simp
  then show ?thesis using rb by simp
qed

end
