(* ===== verification/Ring_Concurrency.thy ===== *)
theory Ring_Concurrency
  imports Ring_Buffer
begin

text \<open>
  The ring buffer under concurrency. Each atomic load, store and array access of
  \<open>ring_buffer_enqueue\<close> and \<open>ring_buffer_dequeue\<close> is one step of a transition system; the steps
  of one producer and of a set of consumers interleave freely. Loads and stores of the two
  positions are acquire and release operations on the two shared words, and every slot is
  handed over through them, so interleaving of whole accesses is the relevant behaviour. The
  statistics counters are folded into the step that publishes a position.
\<close>

section \<open>Transition system\<close>

text \<open>
  Where the producer is inside \<open>ring_buffer_enqueue\<close>: with the item, the loaded head, and the
  loaded tail; after \<open>P_Stored\<close> the slot is written and the head not yet published.
\<close>

datatype 'a prod_pc =
    P_Idle
  | P_Head 'a size_t
  | P_Both 'a size_t size_t
  | P_Stored 'a size_t size_t

text \<open>Where a consumer is inside \<open>ring_buffer_dequeue\<close>.\<close>

datatype 'a cons_pc =
    C_Idle
  | C_Head size_t
  | C_Both size_t size_t
  | C_Item "'a option" size_t

text \<open>\<open>published\<close> and \<open>returned\<close> record the completed calls, in order.\<close>

record 'a ring_sys =
  ring :: "'a ring_buffer"
  producer :: "'a prod_pc"
  consumer :: "nat \<Rightarrow> 'a cons_pc"
  published :: "'a list"
  returned :: "'a option list"

inductive ring_step :: "nat set \<Rightarrow> 'a ring_sys \<Rightarrow> 'a ring_sys \<Rightarrow> bool" for cs where
  enq_load_head: "producer s = P_Idle \<Longrightarrow>
    ring_step cs s (s\<lparr>producer := P_Head x (rb_head (ring s))\<rparr>)"
| enq_load_tail: "producer s = P_Head x h \<Longrightarrow>
    ring_step cs s (s\<lparr>producer := P_Both x h (rb_tail (ring s))\<rparr>)"
| enq_full: "producer s = P_Both x h t \<Longrightarrow> (h + 1) AND rb_mask (ring s) = t \<Longrightarrow>
    ring_step cs s (s\<lparr>producer := P_Idle,
      ring := (ring s)\<lparr>rb_overflow_count := rb_overflow_count (ring s) + 1\<rparr>\<rparr>)"
| enq_store: "producer s = P_Both x h t \<Longrightarrow> (h + 1) AND rb_mask (ring s) \<noteq> t \<Longrightarrow>
    ring_step cs s (s\<lparr>producer := P_Stored x h t,
      ring := (ring s)\<lparr>rb_data := (rb_data (ring s))[unat h := Some x]\<rparr>\<rparr>)"
| enq_publish: "producer s = P_Stored x h t \<Longrightarrow>
    ring_step cs s (s\<lparr>producer := P_Idle,
      ring := (ring s)\<lparr>rb_head := (h + 1) AND rb_mask (ring s),
        rb_enqueue_count := rb_enqueue_count (ring s) + 1,
        rb_peak_usage := max (rb_distance (rb_capacity (ring s)) h t + 1) (rb_peak_usage (ring s))\<rparr>,
      published := published s @ [x]\<rparr>)"
| deq_load_head: "c \<in> cs \<Longrightarrow> consumer s c = C_Idle \<Longrightarrow>
    ring_step cs s (s\<lparr>consumer := (consumer s)(c := C_Head (rb_head (ring s)))\<rparr>)"
| deq_load_tail: "c \<in> cs \<Longrightarrow> consumer s c = C_Head h \<Longrightarrow>
    ring_step cs s (s\<lparr>consumer := (consumer s)(c := C_Both h (rb_tail (ring s)))\<rparr>)"
| deq_none: "c \<in> cs \<Longrightarrow> consumer s c = C_Both h t \<Longrightarrow> h = t \<Longrightarrow>
    ring_step cs s (s\<lparr>consumer := (consumer s)(c := C_Idle)\<rparr>)"
| deq_read: "c \<in> cs \<Longrightarrow> consumer s c = C_Both h t \<Longrightarrow> h \<noteq> t \<Longrightarrow>
    ring_step cs s (s\<lparr>consumer := (consumer s)(c := C_Item (rb_data (ring s) ! unat t) t)\<rparr>)"
| deq_publish: "c \<in> cs \<Longrightarrow> consumer s c = C_Item v t \<Longrightarrow>
    ring_step cs s (s\<lparr>consumer := (consumer s)(c := C_Idle),
      ring := (ring s)\<lparr>rb_tail := (t + 1) AND rb_mask (ring s),
        rb_dequeue_count := rb_dequeue_count (ring s) + 1\<rparr>,
      returned := returned s @ [v]\<rparr>)"

definition ring_start :: "'a ring_buffer \<Rightarrow> 'a ring_sys" where
  "ring_start rb = \<lparr>ring = rb, producer = P_Idle, consumer = (\<lambda>_. C_Idle),
     published = [], returned = []\<rparr>"

inductive ring_reach :: "nat set \<Rightarrow> 'a ring_sys \<Rightarrow> 'a ring_sys \<Rightarrow> bool" for cs s where
  reach_start: "ring_reach cs s s"
| reach_step: "ring_reach cs s t \<Longrightarrow> ring_step cs t u \<Longrightarrow> ring_reach cs s u"

lemma ring_reach_trans: "ring_reach cs t u \<Longrightarrow> ring_reach cs s t \<Longrightarrow> ring_reach cs s u"
  by (induction rule: ring_reach.induct) (auto intro: ring_reach.reach_step)

section \<open>Uninterrupted calls are the sequential operations\<close>

lemma enqueue_by_steps:
  assumes "producer s = P_Idle"
  shows "\<exists>t. ring_reach cs s t \<and> producer t = P_Idle \<and>
    ring t = snd (ring_buffer_enqueue (ring s) (Some x)) \<and>
    published t = published s @ (if fst (ring_buffer_enqueue (ring s) (Some x)) then [x] else []) \<and>
    consumer t = consumer s \<and> returned t = returned s"
proof -
  let ?h = "rb_head (ring s)" and ?t = "rb_tail (ring s)"
  let ?s1 = "s\<lparr>producer := P_Head x ?h\<rparr>" and ?s2 = "s\<lparr>producer := P_Both x ?h ?t\<rparr>"
  have r2: "ring_reach cs s ?s2"
  proof -
    have "ring_reach cs s ?s1" by (rule reach_step [OF reach_start enq_load_head [OF assms]])
    then have "ring_reach cs s (?s1\<lparr>producer := P_Both x ?h (rb_tail (ring ?s1))\<rparr>)"
      by (rule reach_step [OF _ enq_load_tail]) simp
    then show ?thesis by simp
  qed
  show ?thesis
  proof (cases "(?h + 1) AND rb_mask (ring s) = ?t")
    case True
    let ?s3 = "?s2\<lparr>producer := P_Idle,
      ring := (ring ?s2)\<lparr>rb_overflow_count := rb_overflow_count (ring ?s2) + 1\<rparr>\<rparr>"
    have "ring_reach cs s ?s3"
      by (rule reach_step [OF r2 enq_full [of _ x ?h ?t]]) (simp_all add: True)
    then show ?thesis
      using True by (intro exI [of _ ?s3]) (simp add: ring_buffer_enqueue_def)
  next
    case False
    let ?s3 = "?s2\<lparr>producer := P_Stored x ?h ?t,
      ring := (ring s)\<lparr>rb_data := (rb_data (ring s))[unat ?h := Some x]\<rparr>\<rparr>"
    have r3: "ring_reach cs s ?s3"
      using reach_step [OF r2 enq_store [of ?s2 x ?h ?t cs]] False by simp
    let ?s4 = "?s3\<lparr>producer := P_Idle,
      ring := (ring ?s3)\<lparr>rb_head := (?h + 1) AND rb_mask (ring ?s3),
        rb_enqueue_count := rb_enqueue_count (ring ?s3) + 1,
        rb_peak_usage := max (rb_distance (rb_capacity (ring ?s3)) ?h ?t + 1)
                             (rb_peak_usage (ring ?s3))\<rparr>,
      published := published ?s3 @ [x]\<rparr>"
    have "ring_reach cs s ?s4"
      by (rule reach_step [OF r3 enq_publish]) simp
    then show ?thesis
      using False by (intro exI [of _ ?s4]) (simp add: ring_buffer_enqueue_def Let_def)
  qed
qed

lemma dequeue_by_steps:
  assumes "c \<in> cs" and "consumer s c = C_Idle"
  shows "\<exists>t. ring_reach cs s t \<and> consumer t = consumer s \<and> producer t = producer s \<and>
    ring t = snd (ring_buffer_dequeue (ring s)) \<and> published t = published s \<and>
    returned t = returned s @
      (if ring_buffer_is_empty (ring s) then [] else [fst (ring_buffer_dequeue (ring s))])"
proof -
  let ?h = "rb_head (ring s)" and ?t = "rb_tail (ring s)" and ?k = "consumer s"
  let ?s1 = "s\<lparr>consumer := ?k(c := C_Head ?h)\<rparr>" and ?s2 = "s\<lparr>consumer := ?k(c := C_Both ?h ?t)\<rparr>"
  have r2: "ring_reach cs s ?s2"
  proof -
    have "ring_reach cs s ?s1" by (rule reach_step [OF reach_start deq_load_head [OF assms]])
    then have "ring_reach cs s (?s1\<lparr>consumer := (consumer ?s1)(c := C_Both ?h (rb_tail (ring ?s1)))\<rparr>)"
      by (rule reach_step [OF _ deq_load_tail [OF assms(1)]]) simp
    then show ?thesis by simp
  qed
  have idle: "?k(c := C_Idle) = ?k" using assms(2) by auto
  show ?thesis
  proof (cases "?h = ?t")
    case True
    have "ring_reach cs s (?s2\<lparr>consumer := (consumer ?s2)(c := C_Idle)\<rparr>)"
      by (rule reach_step [OF r2 deq_none [OF assms(1), of _ ?h ?t]]) (simp_all add: True)
    then have "ring_reach cs s s" using idle by simp
    then show ?thesis
      using True by (intro exI [of _ s]) (simp add: ring_buffer_dequeue_def ring_buffer_is_empty_def)
  next
    case False
    let ?s3 = "?s2\<lparr>consumer := ?k(c := C_Item (rb_data (ring s) ! unat ?t) ?t)\<rparr>"
    have r3: "ring_reach cs s ?s3"
      using reach_step [OF r2 deq_read [of c cs ?s2 ?h ?t]] False assms(1) by simp
    let ?s4 = "?s3\<lparr>consumer := (consumer ?s3)(c := C_Idle),
      ring := (ring ?s3)\<lparr>rb_tail := (?t + 1) AND rb_mask (ring ?s3),
        rb_dequeue_count := rb_dequeue_count (ring ?s3) + 1\<rparr>,
      returned := returned ?s3 @ [rb_data (ring s) ! unat ?t]\<rparr>"
    have "ring_reach cs s ?s4"
      by (rule reach_step [OF r3 deq_publish [OF assms(1)]]) simp
    then show ?thesis
      using False idle by (intro exI [of _ ?s4])
        (simp add: ring_buffer_dequeue_def ring_buffer_is_empty_def Let_def)
  qed
qed

section \<open>One producer and one consumer\<close>

text \<open>
  Positions count the completed calls: the head is the number of published items modulo the
  array length, the tail the number of returned items. A position loaded earlier by the other
  side stands for an earlier count. The slots between the two counts hold the published items.
\<close>

definition ring_geometry :: "'a ring_buffer \<Rightarrow> bool" where
  "ring_geometry rb \<longleftrightarrow> (\<exists>k \<le> 63. rb_mask rb = 2 ^ k - 1 \<and> length (rb_data rb) = 2 ^ k)"

definition positions :: "'a ring_sys \<Rightarrow> bool" where
  "positions s \<longleftrightarrow>
     unat (rb_head (ring s)) = length (published s) mod length (rb_data (ring s)) \<and>
     unat (rb_tail (ring s)) = length (returned s) mod length (rb_data (ring s)) \<and>
     length (returned s) \<le> length (published s) \<and>
     length (published s) < length (returned s) + length (rb_data (ring s))"

definition slots :: "'a ring_sys \<Rightarrow> bool" where
  "slots s \<longleftrightarrow>
     (\<forall>i < length (returned s). returned s ! i = Some (published s ! i)) \<and>
     (\<forall>i. length (returned s) \<le> i \<and> i < length (published s) \<longrightarrow>
        rb_data (ring s) ! (i mod length (rb_data (ring s))) = Some (published s ! i))"

definition producer_ok :: "'a ring_sys \<Rightarrow> bool" where
  "producer_ok s \<longleftrightarrow>
     (case producer s of
        P_Idle \<Rightarrow> True
      | P_Head x h \<Rightarrow> h = rb_head (ring s)
      | P_Both x h t \<Rightarrow> h = rb_head (ring s) \<and>
          (\<exists>n \<le> length (returned s). unat t = n mod length (rb_data (ring s)) \<and>
             length (published s) < n + length (rb_data (ring s)))
      | P_Stored x h t \<Rightarrow> h = rb_head (ring s) \<and>
          Suc (length (published s)) < length (returned s) + length (rb_data (ring s)) \<and>
          rb_data (ring s) ! (length (published s) mod length (rb_data (ring s))) = Some x)"

definition consumer_ok :: "nat \<Rightarrow> 'a ring_sys \<Rightarrow> bool" where
  "consumer_ok c s \<longleftrightarrow>
     (case consumer s c of
        C_Idle \<Rightarrow> True
      | C_Head h \<Rightarrow> (\<exists>n. length (returned s) \<le> n \<and> n \<le> length (published s) \<and>
          unat h = n mod length (rb_data (ring s)))
      | C_Both h t \<Rightarrow> t = rb_tail (ring s) \<and>
          (\<exists>n. length (returned s) \<le> n \<and> n \<le> length (published s) \<and>
             unat h = n mod length (rb_data (ring s)))
      | C_Item v t \<Rightarrow> t = rb_tail (ring s) \<and> length (returned s) < length (published s) \<and>
          v = Some (published s ! length (returned s)))"

definition spsc_inv :: "nat \<Rightarrow> 'a ring_sys \<Rightarrow> bool" where
  "spsc_inv c s \<longleftrightarrow> ring_geometry (ring s) \<and> positions s \<and> slots s \<and> producer_ok s \<and> consumer_ok c s"

lemmas spsc_defs = spsc_inv_def positions_def slots_def producer_ok_def consumer_ok_def

lemma geometry_inc:
  assumes "ring_geometry rb" and "unat p = n mod length (rb_data rb)"
  shows "unat ((p + 1) AND rb_mask rb) = Suc n mod length (rb_data rb)"
proof -
  obtain k where k: "k \<le> 63" "rb_mask rb = 2 ^ k - 1" "length (rb_data rb) = 2 ^ k"
    using assms(1) by (auto simp: ring_geometry_def)
  have "unat p < 2 ^ k" using assms(2) k(3) by simp
  then have "unat ((p + 1) AND rb_mask rb) = Suc (unat p) mod 2 ^ k"
    using k by (simp add: unat_inc_and_mask)
  then show ?thesis using assms(2) k(3) by (simp add: mod_Suc_eq)
qed

lemma geometry_pos: "ring_geometry rb \<Longrightarrow> 0 < length (rb_data rb)"
  by (metis ring_geometry_def zero_less_numeral zero_less_power)

text \<open>The producer's test excludes a buffer that was full when the tail was loaded.\<close>

lemma not_full_room:
  fixes p n c :: nat
  assumes "Suc p mod c \<noteq> n mod c" and "p < n + c"
  shows "Suc p < n + c"
proof (rule ccontr)
  assume "\<not> ?thesis"
  then have "Suc p = n + c" using assms(2) by simp
  with assms(1) show False by (metis mod_add_self2)
qed

lemma slot_distinct:
  fixes i p c :: nat
  assumes "i < p" and "p < i + c"
  shows "i mod c \<noteq> p mod c"
proof
  assume "i mod c = p mod c"
  then have "(i + 0) mod c = (i + (p - i)) mod c" using assms(1) by simp
  from mod_inj_window [OF this] assms show False by linarith
qed

lemma inv_enq_store:
  assumes inv: "spsc_inv c s" and pc: "producer s = P_Both x h t"
    and room: "(h + 1) AND rb_mask (ring s) \<noteq> t"
  shows "spsc_inv c (s\<lparr>producer := P_Stored x h t,
      ring := (ring s)\<lparr>rb_data := (rb_data (ring s))[unat h := Some x]\<rparr>\<rparr>)"
proof -
  let ?d = "rb_data (ring s)" and ?p = "length (published s)" and ?r = "length (returned s)"
  have geo: "ring_geometry (ring s)" using inv by (simp add: spsc_inv_def)
  obtain n where h: "h = rb_head (ring s)" and n: "n \<le> ?r" "unat t = n mod length ?d"
      "?p < n + length ?d"
    using inv pc by (auto simp: spsc_defs)
  have hp: "unat h = ?p mod length ?d" using inv h by (simp add: spsc_defs)
  have "Suc ?p mod length ?d \<noteq> n mod length ?d"
    using geometry_inc [OF geo hp] n(2) room by (metis unsigned_word_eqI)
  then have "Suc ?p < ?r + length ?d" using not_full_room [OF _ n(3)] n(1) by simp
  moreover have "?d[unat h := Some x] ! (i mod length ?d) = ?d ! (i mod length ?d)"
    if "?r \<le> i" "i < ?p" for i
  proof -
    have "?p < i + length ?d" using inv that by (simp add: spsc_defs)
    from slot_distinct [OF that(2) this] hp show ?thesis by simp
  qed
  ultimately show ?thesis
    using inv h hp geometry_pos [OF geo]
    by (auto simp: spsc_defs ring_geometry_def split: cons_pc.splits)
qed

lemma inv_enq_publish:
  assumes inv: "spsc_inv c s" and pc: "producer s = P_Stored x h t"
  shows "spsc_inv c (s\<lparr>producer := P_Idle,
      ring := (ring s)\<lparr>rb_head := (h + 1) AND rb_mask (ring s),
        rb_enqueue_count := rb_enqueue_count (ring s) + 1,
        rb_peak_usage := max (rb_distance (rb_capacity (ring s)) h t + 1) (rb_peak_usage (ring s))\<rparr>,
      published := published s @ [x]\<rparr>)" (is "spsc_inv c ?s")
proof -
  let ?d = "rb_data (ring s)" and ?p = "length (published s)" and ?r = "length (returned s)"
  have geo: "ring_geometry (ring s)" and pos: "positions s" and sl: "slots s"
    and con: "consumer_ok c s" and pok: "producer_ok s"
    using inv by (simp_all add: spsc_inv_def)
  have h: "h = rb_head (ring s)" and st: "Suc ?p < ?r + length ?d" "?d ! (?p mod length ?d) = Some x"
    using pok pc by (simp_all add: producer_ok_def)
  have hp: "unat h = ?p mod length ?d" and le: "?r \<le> ?p"
    using pos h by (simp_all add: positions_def)
  have "positions ?s"
    using pos st le geometry_inc [OF geo hp] by (simp add: positions_def)
  moreover have "slots ?s"
  proof -
    have old: "(published s @ [x]) ! i = published s ! i" if "i < ?p" for i
      using that by (simp add: nth_append)
    have "?d ! (i mod length ?d) = Some ((published s @ [x]) ! i)" if "?r \<le> i" "i < Suc ?p" for i
      using that sl st(2) by (cases "i = ?p") (simp_all add: slots_def nth_append)
    then show ?thesis using sl le old by (simp add: slots_def)
  qed
  moreover have "consumer_ok c ?s"
  proof (cases "consumer s c")
    case (C_Head h')
    then obtain n where "?r \<le> n" "n \<le> ?p" "unat h' = n mod length ?d"
      using con by (auto simp: consumer_ok_def)
    then show ?thesis using C_Head by (auto simp: consumer_ok_def intro!: exI [of _ n])
  next
    case (C_Both h' t')
    then obtain n where "t' = rb_tail (ring s)" "?r \<le> n" "n \<le> ?p" "unat h' = n mod length ?d"
      using con by (auto simp: consumer_ok_def)
    then show ?thesis using C_Both by (auto simp: consumer_ok_def intro!: exI [of _ n])
  next
    case (C_Item v t')
    then show ?thesis using con by (simp add: consumer_ok_def nth_append)
  qed (simp add: consumer_ok_def)
  ultimately show ?thesis
    using geo by (simp add: spsc_inv_def producer_ok_def ring_geometry_def)
qed

lemma inv_deq_publish:
  assumes inv: "spsc_inv c s" and pc: "consumer s c = C_Item v t"
  shows "spsc_inv c (s\<lparr>consumer := (consumer s)(c := C_Idle),
      ring := (ring s)\<lparr>rb_tail := (t + 1) AND rb_mask (ring s),
        rb_dequeue_count := rb_dequeue_count (ring s) + 1\<rparr>,
      returned := returned s @ [v]\<rparr>)"
proof -
  let ?d = "rb_data (ring s)" and ?p = "length (published s)" and ?r = "length (returned s)"
  have geo: "ring_geometry (ring s)" using inv by (simp add: spsc_inv_def)
  have pos: "positions s" and sl: "slots s" and con: "consumer_ok c s"
    using inv by (simp_all add: spsc_inv_def)
  have st: "?r < ?p" "v = Some (published s ! ?r)" and t: "t = rb_tail (ring s)"
    using con pc by (simp_all add: consumer_ok_def)
  have tr: "unat t = ?r mod length ?d" using pos t by (simp add: positions_def)
  let ?s = "s\<lparr>consumer := (consumer s)(c := C_Idle),
      ring := (ring s)\<lparr>rb_tail := (t + 1) AND rb_mask (ring s),
        rb_dequeue_count := rb_dequeue_count (ring s) + 1\<rparr>,
      returned := returned s @ [v]\<rparr>"
  have pok: "producer_ok s" using inv by (simp add: spsc_inv_def)
  have "producer_ok ?s"
  proof (cases "producer s")
    case (P_Both x h u)
    with pok obtain n where n: "h = rb_head (ring s)" "n \<le> ?r" "unat u = n mod length ?d"
        "?p < n + length ?d"
      unfolding producer_ok_def by auto
    have "\<exists>n \<le> Suc ?r. unat u = n mod length ?d \<and> ?p < n + length ?d"
      using n by (intro exI [of _ n]) simp
    with P_Both n(1) show ?thesis by (simp add: producer_ok_def)
  next
    case (P_Stored x h u)
    then have "h = rb_head (ring s)" "Suc ?p < Suc ?r + length ?d" "?d ! (?p mod length ?d) = Some x"
      using pok unfolding producer_ok_def by simp_all
    with P_Stored show ?thesis by (simp add: producer_ok_def)
  next
    case P_Idle
    then show ?thesis by (simp add: producer_ok_def)
  next
    case (P_Head x h)
    then show ?thesis using pok by (simp add: producer_ok_def)
  qed
  moreover have "positions ?s"
    using pos st geometry_inc [OF geo tr] by (simp add: positions_def)
  moreover have "slots ?s"
  proof -
    have "(returned s @ [v]) ! i = Some (published s ! i)" if "i < Suc ?r" for i
      using that sl st(2) by (cases "i = ?r") (simp_all add: slots_def nth_append)
    then show ?thesis using sl by (simp add: slots_def)
  qed
  ultimately show ?thesis
    using geo by (simp add: spsc_inv_def consumer_ok_def ring_geometry_def)
qed

text \<open>Steps that move only a program counter.\<close>

lemma spsc_producer_upd:
  "spsc_inv c (s\<lparr>producer := p\<rparr>) \<longleftrightarrow> ring_geometry (ring s) \<and> positions s \<and> slots s \<and>
     producer_ok (s\<lparr>producer := p\<rparr>) \<and> consumer_ok c s"
  by (simp add: spsc_inv_def positions_def slots_def consumer_ok_def cong: cons_pc.case_cong)

lemma spsc_consumer_upd:
  "spsc_inv c (s\<lparr>consumer := k\<rparr>) \<longleftrightarrow> ring_geometry (ring s) \<and> positions s \<and> slots s \<and>
     producer_ok s \<and> consumer_ok c (s\<lparr>consumer := k\<rparr>)"
  by (simp add: spsc_inv_def positions_def slots_def producer_ok_def cong: prod_pc.case_cong)

lemma inv_deq_read:
  assumes inv: "spsc_inv c s" and pc: "consumer s c = C_Both h t" and ne: "h \<noteq> t"
  shows "spsc_inv c (s\<lparr>consumer := (consumer s)(c := C_Item (rb_data (ring s) ! unat t) t)\<rparr>)"
proof -
  have pos: "positions s" and sl: "slots s" and con: "consumer_ok c s"
    using inv by (simp_all add: spsc_inv_def)
  obtain n where t: "t = rb_tail (ring s)" and n: "length (returned s) \<le> n"
      "n \<le> length (published s)" "unat h = n mod length (rb_data (ring s))"
    using con pc by (auto simp: consumer_ok_def)
  have tr: "unat t = length (returned s) mod length (rb_data (ring s))"
    using pos t by (simp add: positions_def)
  have "n \<noteq> length (returned s)" using n(3) tr ne by (metis unsigned_word_eqI)
  with n have lt: "length (returned s) < length (published s)" by simp
  then have "rb_data (ring s) ! unat t = Some (published s ! length (returned s))"
    unfolding tr using sl by (simp add: slots_def)
  with t lt have "consumer_ok c (s\<lparr>consumer :=
      (consumer s)(c := C_Item (rb_data (ring s) ! unat t) t)\<rparr>)"
    unfolding consumer_ok_def by simp
  then show ?thesis
    using inv unfolding spsc_consumer_upd by (simp add: spsc_inv_def)
qed

lemma inv_enq_full:
  assumes "spsc_inv c s"
  shows "spsc_inv c (s\<lparr>producer := P_Idle, ring := (ring s)\<lparr>rb_overflow_count := n\<rparr>\<rparr>)"
  using assms by (simp add: spsc_defs ring_geometry_def cong: cons_pc.case_cong)

lemma spsc_step:
  assumes step: "ring_step {c} s s'" and inv: "spsc_inv c s"
  shows "spsc_inv c s'"
proof -
  have parts: "ring_geometry (ring s)" "positions s" "slots s" "producer_ok s" "consumer_ok c s"
    using inv by (simp_all add: spsc_inv_def)
  from step show ?thesis
  proof cases
    case (enq_load_head x)
    then show ?thesis using parts by (simp add: spsc_producer_upd producer_ok_def)
  next
    case (enq_load_tail x h)
    have "\<exists>n \<le> length (returned s). unat (rb_tail (ring s)) = n mod length (rb_data (ring s)) \<and>
        length (published s) < n + length (rb_data (ring s))"
      using parts(2) by (intro exI [of _ "length (returned s)"]) (simp add: positions_def)
    with enq_load_tail show ?thesis using parts by (simp add: spsc_producer_upd producer_ok_def)
  next
    case (enq_full x h t)
    then show ?thesis using inv_enq_full [OF inv] by simp
  next
    case (enq_store x h t)
    then show ?thesis using inv_enq_store [OF inv] by simp
  next
    case (enq_publish x h t)
    then show ?thesis using inv_enq_publish [OF inv] by simp
  next
    case (deq_load_head c')
    have "\<exists>n. length (returned s) \<le> n \<and> n \<le> length (published s) \<and>
        unat (rb_head (ring s)) = n mod length (rb_data (ring s))"
      using parts(2) by (intro exI [of _ "length (published s)"]) (simp add: positions_def)
    with deq_load_head show ?thesis using parts by (simp add: spsc_consumer_upd consumer_ok_def)
  next
    case (deq_load_tail c' h)
    then show ?thesis using parts by (simp add: spsc_consumer_upd consumer_ok_def)
  next
    case (deq_none c' h t)
    then show ?thesis using parts by (simp add: spsc_consumer_upd consumer_ok_def)
  next
    case (deq_read c' h t)
    then show ?thesis using inv_deq_read [OF inv] by simp
  next
    case (deq_publish c' v t)
    then show ?thesis using inv_deq_publish [OF inv] by simp
  qed
qed

lemma spsc_reach:
  assumes "ring_reach {c} s t" and "spsc_inv c s"
  shows "spsc_inv c t"
  using assms by (induction rule: ring_reach.induct) (auto intro: spsc_step)

lemma spsc_start:
  assumes "ring_buffer_create mem n = Some rb" and "unat n \<le> 2 ^ 63"
  shows "spsc_inv c (ring_start rb)"
proof -
  note cr = create_shape [OF assms]
  have "rb_head rb = 0" "rb_tail rb = 0"
    using assms(1) by (auto simp: ring_buffer_create_def Let_def split: if_splits)
  moreover have "ring_geometry rb"
    using cr(1) by (auto simp: rb_inv_def rb_shape_def ring_geometry_def)
  ultimately show ?thesis
    using geometry_pos [of rb] by (simp add: spsc_defs ring_start_def)
qed

section \<open>Properties\<close>

text \<open>C3. In every interleaving of the memory accesses of one producer and one consumer, the
  sequence of returned pointers is a prefix of the sequence of published items: nothing is lost,
  duplicated, reordered or read as NULL, and the number of items in flight stays below the
  array length.\<close>

theorem spsc_fifo:
  assumes "ring_buffer_create mem n = Some rb" and "unat n \<le> 2 ^ 63"
    and "ring_reach {c} (ring_start rb) s"
  shows "\<exists>pending. map Some (published s) = returned s @ map Some pending \<and>
    length pending \<le> unat (ring_buffer_capacity rb)"
proof -
  have inv: "spsc_inv c s" by (rule spsc_reach [OF assms(3) spsc_start [OF assms(1,2)]])
  have len: "length (rb_data (ring s)) = length (rb_data rb)"
    using assms(3) by (induction rule: ring_reach.induct)
      (auto simp: ring_start_def elim!: ring_step.cases)
  have cap: "unat (ring_buffer_capacity rb) = length (rb_data rb) - 1"
    using create_shape(1) [OF assms(1,2)] by (simp add: rb_inv_def unat_ring_capacity rb_limit_def)
  let ?r = "length (returned s)"
  have le: "?r \<le> length (published s)" using inv by (simp add: spsc_defs)
  have "map Some (take ?r (published s)) = returned s"
    by (rule nth_equalityI) (use inv le in \<open>auto simp: spsc_defs\<close>)
  then have "map Some (published s) = returned s @ map Some (drop ?r (published s))"
    by (metis append_take_drop_id map_append)
  moreover have "length (drop ?r (published s)) \<le> length (rb_data rb) - 1"
    using inv len by (simp add: spsc_defs) linarith
  ultimately show ?thesis using cap by metis
qed

lemma created_enqueue:
  assumes "ring_buffer_create mem n = Some rb" and "1 < unat n" and "unat n \<le> 2 ^ 63"
  shows "\<exists>s. ring_reach cs (ring_start rb) s \<and> producer s = P_Idle \<and> consumer s = (\<lambda>_. C_Idle) \<and>
    published s = [x] \<and> returned s = [] \<and> rb_inv (ring s) \<and> rb_list (ring s) = [x]"
proof -
  note cr = create_shape [OF assms(1,3)]
  obtain k where "next_power_of_2 n = 2 ^ k" "k \<le> 63" "unat n \<le> 2 ^ k"
    using next_power_of_2_exp [OF cr(4) assms(3)] by metis
  then have "1 < length (rb_data rb)" using cr(3) assms(2) by (simp add: unat_exp)
  then have room: "length (rb_list rb) < rb_limit rb" using cr(2) by (simp only: rb_limit_def) simp
  obtain ok rb' where e: "ring_buffer_enqueue rb (Some x) = (ok, rb')" by force
  from ring_fifo.enq_room [OF cr(1) room e] cr(2)
  have rb': ok "rb_inv rb'" "rb_list rb' = [x]" by simp_all
  have "producer (ring_start rb) = P_Idle" by (simp add: ring_start_def)
  from enqueue_by_steps [OF this, of cs x] e rb' show ?thesis
    by (auto simp: ring_start_def)
qed

theorem spsc_fifo_witness:
  "\<exists>rb s. ring_buffer_create (\<lambda>_. True) 4 = Some rb \<and> ring_reach {0} (ring_start rb) s \<and>
     published s = [7::nat] \<and>
     (\<exists>pending. map Some (published s) = returned s @ map Some pending \<and>
       length pending \<le> unat (ring_buffer_capacity rb))"
proof -
  obtain rb :: "nat ring_buffer" where c: "ring_buffer_create (\<lambda>_. True) 4 = Some rb"
    by (simp add: ring_buffer_create_def next_power_of_2_def)
  obtain s where s: "ring_reach {0} (ring_start rb) s" "published s = [7]"
    using created_enqueue [OF c, of "{0}" 7] by auto
  from spsc_fifo [OF c _ s(1)] c s show ?thesis by auto
qed

text \<open>
  Both consumers load the positions before either publishes its tail.
\<close>

lemma race_steps:
  assumes idle: "consumer s = (\<lambda>_. C_Idle)" and ne: "rb_head (ring s) \<noteq> rb_tail (ring s)"
  shows "\<exists>t. ring_reach {0, 1} s t \<and> published t = published s \<and>
    returned t = returned s @ [rb_data (ring s) ! unat (rb_tail (ring s)),
                               rb_data (ring s) ! unat (rb_tail (ring s))]"
proof -
  let ?h = "rb_head (ring s)" and ?t = "rb_tail (ring s)"
  let ?v = "rb_data (ring s) ! unat ?t"
  define f :: "'a cons_pc \<Rightarrow> 'a cons_pc \<Rightarrow> nat \<Rightarrow> 'a cons_pc"
    where "f p q c = (if c = 0 then p else if c = 1 then q else C_Idle)" for p q c
  have f: "f p q 0 = p" "f p q 1 = q" "(f p q)(0 := p') = f p' q" "(f p q)(1 := q') = f p q'" for p q p' q'
    by (auto simp: f_def)
  define k where "k p q = s\<lparr>consumer := f p q\<rparr>" for p q
  have k: "ring (k p q) = ring s" "consumer (k p q) = f p q" "published (k p q) = published s"
      "returned (k p q) = returned s" "(k p q)\<lparr>consumer := f p' q'\<rparr> = k p' q'" for p q p' q'
    by (simp_all add: k_def)
  have "f C_Idle C_Idle = consumer s" using idle by (auto simp: f_def)
  then have k0: "k C_Idle C_Idle = s" by (simp add: k_def)
  have "ring_reach {0, 1} s (k C_Idle C_Idle)" unfolding k0 by (rule reach_start)
  then have "ring_reach {0, 1} s (k (C_Head ?h) C_Idle)"
    by (rule reach_step) (use deq_load_head [of 0 "{0, 1}" "k C_Idle C_Idle", unfolded k f] in simp)
  then have "ring_reach {0, 1} s (k (C_Both ?h ?t) C_Idle)"
    by (rule reach_step) (use deq_load_tail [of 0 "{0, 1}" "k (C_Head ?h) C_Idle" ?h, unfolded k f] in simp)
  then have "ring_reach {0, 1} s (k (C_Both ?h ?t) (C_Head ?h))"
    by (rule reach_step) (use deq_load_head [of 1 "{0, 1}" "k (C_Both ?h ?t) C_Idle", unfolded k f] in simp)
  then have "ring_reach {0, 1} s (k (C_Both ?h ?t) (C_Both ?h ?t))"
    by (rule reach_step) (use deq_load_tail [of 1 "{0, 1}" "k (C_Both ?h ?t) (C_Head ?h)" ?h, unfolded k f] in simp)
  then have "ring_reach {0, 1} s (k (C_Item ?v ?t) (C_Both ?h ?t))"
    by (rule reach_step) (use ne deq_read [of 0 "{0, 1}" "k (C_Both ?h ?t) (C_Both ?h ?t)" ?h ?t, unfolded k f] in simp)
  then have r: "ring_reach {0, 1} s (k (C_Item ?v ?t) (C_Item ?v ?t))"
    by (rule reach_step) (use ne deq_read [of 1 "{0, 1}" "k (C_Item ?v ?t) (C_Both ?h ?t)" ?h ?t, unfolded k f] in simp)
  obtain u where u: "ring_reach {0, 1} s u" "consumer u 1 = C_Item ?v ?t" "published u = published s"
      "returned u = returned s @ [?v]"
  proof -
    let ?k = "k (C_Item ?v ?t) (C_Item ?v ?t)"
    let ?u = "?k\<lparr>consumer := (consumer ?k)(0 := C_Idle),
      ring := (ring ?k)\<lparr>rb_tail := (?t + 1) AND rb_mask (ring ?k),
        rb_dequeue_count := rb_dequeue_count (ring ?k) + 1\<rparr>,
      returned := returned ?k @ [?v]\<rparr>"
    have "ring_reach {0, 1} s ?u"
      by (rule reach_step [OF r deq_publish]) (simp_all add: k f)
    then show ?thesis by (rule that) (simp_all add: k f_def)
  qed
  let ?w = "u\<lparr>consumer := (consumer u)(1 := C_Idle),
    ring := (ring u)\<lparr>rb_tail := (?t + 1) AND rb_mask (ring u),
      rb_dequeue_count := rb_dequeue_count (ring u) + 1\<rparr>,
    returned := returned u @ [?v]\<rparr>"
  have "ring_reach {0, 1} s ?w"
    by (rule reach_step [OF u(1) deq_publish [OF _ u(2)]]) simp
  then show ?thesis using u by (intro exI [of _ ?w]) simp
qed

text \<open>C29. The queue is for one consumer only. With two threads inside \<open>ring_buffer_dequeue\<close>, as
  the worker threads of the event processor are, every buffer of at least two slots has an
  interleaving in which one enqueued item is returned twice.\<close>

theorem two_consumers_duplicate:
  assumes "ring_buffer_create mem n = Some rb" and "1 < unat n" and "unat n \<le> 2 ^ 63"
  shows "\<exists>s. ring_reach {0, 1} (ring_start rb) s \<and> published s = [x] \<and> returned s = [Some x, Some x]"
proof -
  obtain s where s: "ring_reach {0, 1} (ring_start rb) s" "consumer s = (\<lambda>_. C_Idle)"
      "published s = [x]" "returned s = []" and inv: "rb_inv (ring s)" "rb_list (ring s) = [x]"
    using created_enqueue [OF assms, of "{0, 1}" x] by metis
  obtain r rb' where d: "ring_buffer_dequeue (ring s) = (r, rb')" by force
  from dequeue_first [OF inv d] have "r = Some x" by simp
  with d have "rb_head (ring s) \<noteq> rb_tail (ring s)"
      "rb_data (ring s) ! unat (rb_tail (ring s)) = Some x"
    by (auto simp: ring_buffer_dequeue_def Let_def split: if_splits)
  with race_steps [OF s(2)] s show ?thesis by (auto intro: ring_reach_trans)
qed

theorem two_consumers_duplicate_witness:
  "\<exists>rb s. ring_buffer_create (\<lambda>_. True) 16 = Some rb \<and> ring_reach {0, 1} (ring_start rb) s \<and>
     published s = [9::nat] \<and> returned s = [Some 9, Some 9]"
proof -
  obtain rb :: "nat ring_buffer" where c: "ring_buffer_create (\<lambda>_. True) 16 = Some rb"
    by (simp add: ring_buffer_create_def next_power_of_2_def)
  with two_consumers_duplicate [OF c, of 9] show ?thesis by auto
qed

end
