(* ===== verification/C_Lib.thy ===== *)
theory C_Lib
  imports NL_Prelude
begin

text \<open>
  The part of the C library the filter language uses: characters of the C locale, comparison of
  NUL-terminated strings, and number conversion. A C string is the list of its characters
  without the terminating NUL.
\<close>

section \<open>Characters\<close>

abbreviation NUL :: char where
  "NUL \<equiv> CHR 0x00"

text \<open>Reading \<open>s[i]\<close>: the byte after the last one is the terminator.\<close>

definition c_at :: "string \<Rightarrow> nat \<Rightarrow> char" where
  "c_at s i = (if i < length s then s ! i else NUL)"

lemma c_at_less: "c_at s i \<noteq> NUL \<Longrightarrow> i < length s"
  by (simp add: c_at_def split: if_splits)

lemma c_at_Nil [simp]: "c_at [] i = NUL"
  by (simp add: c_at_def)

lemma c_at_append [simp]: "c_at (xs @ c # ys) (length xs) = c"
  by (simp add: c_at_def)

lemma c_at_end [simp]: "c_at xs (length xs) = NUL"
  by (simp add: c_at_def)

definition c_code :: "char \<Rightarrow> nat" where
  "c_code c = of_char c"

definition isdigit :: "char \<Rightarrow> bool" where
  "isdigit c \<longleftrightarrow> 48 \<le> c_code c \<and> c_code c \<le> 57"

definition isupper :: "char \<Rightarrow> bool" where
  "isupper c \<longleftrightarrow> 65 \<le> c_code c \<and> c_code c \<le> 90"

definition islower :: "char \<Rightarrow> bool" where
  "islower c \<longleftrightarrow> 97 \<le> c_code c \<and> c_code c \<le> 122"

definition isalpha :: "char \<Rightarrow> bool" where
  "isalpha c \<longleftrightarrow> isupper c \<or> islower c"

definition isalnum :: "char \<Rightarrow> bool" where
  "isalnum c \<longleftrightarrow> isalpha c \<or> isdigit c"

text \<open>Space, and the control characters from tab to carriage return.\<close>

definition isspace :: "char \<Rightarrow> bool" where
  "isspace c \<longleftrightarrow> c_code c = 32 \<or> (9 \<le> c_code c \<and> c_code c \<le> 13)"

lemmas ctype_defs = isspace_def isalnum_def isalpha_def isupper_def islower_def isdigit_def c_code_def

lemma ctype_NUL [simp]: "\<not> isspace NUL" "\<not> isdigit NUL" "\<not> isalpha NUL" "\<not> isalnum NUL"
  by (simp_all add: ctype_defs)

definition tolower :: "char \<Rightarrow> char" where
  "tolower c = (if isupper c then char_of (c_code c + 32) else c)"

section \<open>Strings\<close>

text \<open>\<open>strcasecmp(a, b) == 0\<close>.\<close>

definition strcaseeq :: "string \<Rightarrow> string \<Rightarrow> bool" where
  "strcaseeq a b \<longleftrightarrow> map tolower a = map tolower b"

lemma strcaseeq_refl [simp]: "strcaseeq a a"
  by (simp add: strcaseeq_def)

text \<open>The sign of \<open>strcmp\<close>: characters compare as unsigned bytes.\<close>

fun strcmp :: "string \<Rightarrow> string \<Rightarrow> int" where
  "strcmp [] [] = 0"
| "strcmp [] (y # ys) = -1"
| "strcmp (x # xs) [] = 1"
| "strcmp (x # xs) (y # ys) =
     (if c_code x < c_code y then -1 else if c_code y < c_code x then 1 else strcmp xs ys)"

lemma c_code_inject: "c_code a = c_code b \<longleftrightarrow> a = b"
  by (simp add: c_code_def)

lemma strcmp_eq_0 [simp]: "strcmp a b = 0 \<longleftrightarrow> a = b"
  by (induction a b rule: strcmp.induct) (auto simp: c_code_inject linorder_neq_iff)

lemma strcmp_antisym: "strcmp a b = - strcmp b a"
  by (induction a b rule: strcmp.induct) auto

text \<open>
  \<open>atoll\<close> on a string of digits, as \<open>strtoll\<close> computes it: the decimal value, clamped to the largest
  64-bit signed integer.
\<close>

definition digit_val :: "char \<Rightarrow> nat" where
  "digit_val c = c_code c - 48"

fun dec_val :: "nat \<Rightarrow> string \<Rightarrow> nat" where
  "dec_val acc [] = acc"
| "dec_val acc (c # cs) = (if isdigit c then dec_val (10 * acc + digit_val c) cs else acc)"

definition LLONG_MAX :: nat where
  "LLONG_MAX = 2 ^ 63 - 1"

definition atoll :: "string \<Rightarrow> i64" where
  "atoll s = of_nat (min LLONG_MAX (dec_val 0 s))"

lemma sint_of_nat_small:
  assumes "n < 2 ^ (LENGTH('a::len) - 1)"
  shows "sint (of_nat n :: 'a word) = int n"
proof -
  have "int n < 2 ^ (LENGTH('a) - 1)"
    using assms by (metis of_nat_less_iff of_nat_numeral of_nat_power)
  moreover have "- (2 ^ (LENGTH('a) - 1)) \<le> int n"
    by (rule order_trans [of _ 0]) simp_all
  ultimately show ?thesis
    by (simp only: signed_of_nat) (simp add: signed_take_bit_int_eq_self)
qed

end
