(* ===== verification/Filter_Syntax.thy ===== *)
theory Filter_Syntax
  imports C_Lib
begin

text \<open>
  The abstract syntax of the filter language, from \<^verbatim>\<open>src/include/filter_parser.h\<close>: field
  references, the node kinds of the syntax tree, and the table of field names of
  \<open>parse_field_name\<close> in \<^verbatim>\<open>src/src/core/filter_parser.c\<close>.
\<close>

section \<open>Fields\<close>

text \<open>
  The enumerators, grouped by the structure the field is read from: \<open>FILTER_FIELD_NL_LINK LINK_MTU\<close>
  is \<open>FILTER_FIELD_NL_LINK_MTU\<close> of the header.
\<close>

datatype basic_field =
    INTERFACE | MESSAGE_TYPE | EVENT_TYPE | NAMESPACE
  | TIMESTAMP | SEQUENCE

datatype nl_field =
    NL_PROTOCOL | NL_MSG_TYPE | NL_MSG_FLAGS | NL_SEQ
  | NL_PID | NL_GENL_CMD | NL_GENL_VERSION | NL_GENL_FAMILY_ID
  | NL_GENL_FAMILY_NAME

datatype link_field =
    LINK_IFNAME | LINK_IFINDEX | LINK_FLAGS | LINK_MTU
  | LINK_OPERSTATE | LINK_QDISC

datatype addr_field =
    ADDR_FAMILY | ADDR_IFINDEX | ADDR_PREFIXLEN | ADDR_SCOPE
  | ADDR_ADDR | ADDR_LABEL

datatype route_field =
    ROUTE_FAMILY | ROUTE_DST | ROUTE_SRC | ROUTE_GATEWAY
  | ROUTE_OIF | ROUTE_PROTOCOL | ROUTE_SCOPE | ROUTE_TYPE
  | ROUTE_PRIORITY

datatype neigh_field =
    NEIGH_FAMILY | NEIGH_IFINDEX | NEIGH_STATE | NEIGH_DST

datatype diag_field =
    DIAG_FAMILY | DIAG_STATE | DIAG_PROTOCOL | DIAG_SRC_PORT
  | DIAG_DST_PORT | DIAG_SRC_ADDR | DIAG_DST_ADDR | DIAG_UID
  | DIAG_INODE

datatype ct_field =
    CT_PROTOCOL | CT_TCP_STATE | CT_SRC_ADDR | CT_DST_ADDR
  | CT_SRC_PORT | CT_DST_PORT | CT_MARK

datatype nl80211_field =
    NL80211_CMD | NL80211_WIPHY | NL80211_IFINDEX | NL80211_IFNAME
  | NL80211_IFTYPE | NL80211_FREQ

datatype qca_field =
    QCA_SUBCMD | QCA_SUBCMD_NAME | QCA_VENDOR_ID

datatype filter_field_type =
    FILTER_FIELD basic_field
  | FILTER_FIELD_NL nl_field
  | FILTER_FIELD_NL_LINK link_field
  | FILTER_FIELD_NL_ADDR addr_field
  | FILTER_FIELD_NL_ROUTE route_field
  | FILTER_FIELD_NL_NEIGH neigh_field
  | FILTER_FIELD_NL_DIAG diag_field
  | FILTER_FIELD_NL_CT ct_field
  | FILTER_FIELD_NL_NL80211 nl80211_field
  | FILTER_FIELD_NL_QCA qca_field

text \<open>The enumerators in the order of their values.\<close>

definition filter_fields :: "filter_field_type list" where
  "filter_fields =
    [FILTER_FIELD INTERFACE, FILTER_FIELD MESSAGE_TYPE,
     FILTER_FIELD EVENT_TYPE, FILTER_FIELD NAMESPACE,
     FILTER_FIELD TIMESTAMP, FILTER_FIELD SEQUENCE,
     FILTER_FIELD_NL NL_PROTOCOL, FILTER_FIELD_NL NL_MSG_TYPE,
     FILTER_FIELD_NL NL_MSG_FLAGS, FILTER_FIELD_NL NL_SEQ,
     FILTER_FIELD_NL NL_PID, FILTER_FIELD_NL NL_GENL_CMD,
     FILTER_FIELD_NL NL_GENL_VERSION, FILTER_FIELD_NL NL_GENL_FAMILY_ID,
     FILTER_FIELD_NL NL_GENL_FAMILY_NAME, FILTER_FIELD_NL_LINK LINK_IFNAME,
     FILTER_FIELD_NL_LINK LINK_IFINDEX, FILTER_FIELD_NL_LINK LINK_FLAGS,
     FILTER_FIELD_NL_LINK LINK_MTU, FILTER_FIELD_NL_LINK LINK_OPERSTATE,
     FILTER_FIELD_NL_LINK LINK_QDISC, FILTER_FIELD_NL_ADDR ADDR_FAMILY,
     FILTER_FIELD_NL_ADDR ADDR_IFINDEX, FILTER_FIELD_NL_ADDR ADDR_PREFIXLEN,
     FILTER_FIELD_NL_ADDR ADDR_SCOPE, FILTER_FIELD_NL_ADDR ADDR_ADDR,
     FILTER_FIELD_NL_ADDR ADDR_LABEL, FILTER_FIELD_NL_ROUTE ROUTE_FAMILY,
     FILTER_FIELD_NL_ROUTE ROUTE_DST, FILTER_FIELD_NL_ROUTE ROUTE_SRC,
     FILTER_FIELD_NL_ROUTE ROUTE_GATEWAY, FILTER_FIELD_NL_ROUTE ROUTE_OIF,
     FILTER_FIELD_NL_ROUTE ROUTE_PROTOCOL, FILTER_FIELD_NL_ROUTE ROUTE_SCOPE,
     FILTER_FIELD_NL_ROUTE ROUTE_TYPE, FILTER_FIELD_NL_ROUTE ROUTE_PRIORITY,
     FILTER_FIELD_NL_NEIGH NEIGH_FAMILY, FILTER_FIELD_NL_NEIGH NEIGH_IFINDEX,
     FILTER_FIELD_NL_NEIGH NEIGH_STATE, FILTER_FIELD_NL_NEIGH NEIGH_DST,
     FILTER_FIELD_NL_DIAG DIAG_FAMILY, FILTER_FIELD_NL_DIAG DIAG_STATE,
     FILTER_FIELD_NL_DIAG DIAG_PROTOCOL, FILTER_FIELD_NL_DIAG DIAG_SRC_PORT,
     FILTER_FIELD_NL_DIAG DIAG_DST_PORT, FILTER_FIELD_NL_DIAG DIAG_SRC_ADDR,
     FILTER_FIELD_NL_DIAG DIAG_DST_ADDR, FILTER_FIELD_NL_DIAG DIAG_UID,
     FILTER_FIELD_NL_DIAG DIAG_INODE, FILTER_FIELD_NL_CT CT_PROTOCOL,
     FILTER_FIELD_NL_CT CT_TCP_STATE, FILTER_FIELD_NL_CT CT_SRC_ADDR,
     FILTER_FIELD_NL_CT CT_DST_ADDR, FILTER_FIELD_NL_CT CT_SRC_PORT,
     FILTER_FIELD_NL_CT CT_DST_PORT, FILTER_FIELD_NL_CT CT_MARK,
     FILTER_FIELD_NL_NL80211 NL80211_CMD, FILTER_FIELD_NL_NL80211 NL80211_WIPHY,
     FILTER_FIELD_NL_NL80211 NL80211_IFINDEX, FILTER_FIELD_NL_NL80211 NL80211_IFNAME,
     FILTER_FIELD_NL_NL80211 NL80211_IFTYPE, FILTER_FIELD_NL_NL80211 NL80211_FREQ,
     FILTER_FIELD_NL_QCA QCA_SUBCMD, FILTER_FIELD_NL_QCA QCA_SUBCMD_NAME,
     FILTER_FIELD_NL_QCA QCA_VENDOR_ID]"

text \<open>The value of an enumerator, stored in the eight-bit operand of the bytecode.\<close>

definition field_code :: "filter_field_type \<Rightarrow> u8" where
  "field_code f = of_nat (length (takeWhile (\<lambda>g. g \<noteq> f) filter_fields))"

text \<open>
  The other way, for a \<^verbatim>\<open>switch\<close> on that operand, as in \<open>extract_field\<close>: the enumerator whose case label the byte equals, or
  none, so that the default branch is taken.
\<close>

definition field_of_code :: "u8 \<Rightarrow> filter_field_type option" where
  "field_of_code b = (if unat b < length filter_fields then Some (filter_fields ! unat b) else None)"

section \<open>Field names\<close>

definition field_names :: "(string \<times> filter_field_type) list" where
  "field_names =
    [(''interface'', FILTER_FIELD INTERFACE),
     (''message_type'', FILTER_FIELD MESSAGE_TYPE),
     (''event_type'', FILTER_FIELD EVENT_TYPE),
     (''namespace'', FILTER_FIELD NAMESPACE),
     (''timestamp'', FILTER_FIELD TIMESTAMP),
     (''sequence'', FILTER_FIELD SEQUENCE),
     (''netlink.protocol'', FILTER_FIELD_NL NL_PROTOCOL),
     (''netlink.msg_type'', FILTER_FIELD_NL NL_MSG_TYPE),
     (''netlink.msg_flags'', FILTER_FIELD_NL NL_MSG_FLAGS),
     (''netlink.seq'', FILTER_FIELD_NL NL_SEQ),
     (''netlink.pid'', FILTER_FIELD_NL NL_PID),
     (''netlink.genl_cmd'', FILTER_FIELD_NL NL_GENL_CMD),
     (''netlink.genl_version'', FILTER_FIELD_NL NL_GENL_VERSION),
     (''netlink.genl_family_id'', FILTER_FIELD_NL NL_GENL_FAMILY_ID),
     (''netlink.genl_family_name'', FILTER_FIELD_NL NL_GENL_FAMILY_NAME),
     (''netlink.link.ifname'', FILTER_FIELD_NL_LINK LINK_IFNAME),
     (''netlink.link.ifindex'', FILTER_FIELD_NL_LINK LINK_IFINDEX),
     (''netlink.link.flags'', FILTER_FIELD_NL_LINK LINK_FLAGS),
     (''netlink.link.mtu'', FILTER_FIELD_NL_LINK LINK_MTU),
     (''netlink.link.operstate'', FILTER_FIELD_NL_LINK LINK_OPERSTATE),
     (''netlink.link.qdisc'', FILTER_FIELD_NL_LINK LINK_QDISC),
     (''netlink.addr.family'', FILTER_FIELD_NL_ADDR ADDR_FAMILY),
     (''netlink.addr.ifindex'', FILTER_FIELD_NL_ADDR ADDR_IFINDEX),
     (''netlink.addr.prefixlen'', FILTER_FIELD_NL_ADDR ADDR_PREFIXLEN),
     (''netlink.addr.scope'', FILTER_FIELD_NL_ADDR ADDR_SCOPE),
     (''netlink.addr.addr'', FILTER_FIELD_NL_ADDR ADDR_ADDR),
     (''netlink.addr.label'', FILTER_FIELD_NL_ADDR ADDR_LABEL),
     (''netlink.route.family'', FILTER_FIELD_NL_ROUTE ROUTE_FAMILY),
     (''netlink.route.dst'', FILTER_FIELD_NL_ROUTE ROUTE_DST),
     (''netlink.route.src'', FILTER_FIELD_NL_ROUTE ROUTE_SRC),
     (''netlink.route.gateway'', FILTER_FIELD_NL_ROUTE ROUTE_GATEWAY),
     (''netlink.route.oif'', FILTER_FIELD_NL_ROUTE ROUTE_OIF),
     (''netlink.route.protocol'', FILTER_FIELD_NL_ROUTE ROUTE_PROTOCOL),
     (''netlink.route.scope'', FILTER_FIELD_NL_ROUTE ROUTE_SCOPE),
     (''netlink.route.type'', FILTER_FIELD_NL_ROUTE ROUTE_TYPE),
     (''netlink.route.priority'', FILTER_FIELD_NL_ROUTE ROUTE_PRIORITY),
     (''netlink.neigh.family'', FILTER_FIELD_NL_NEIGH NEIGH_FAMILY),
     (''netlink.neigh.ifindex'', FILTER_FIELD_NL_NEIGH NEIGH_IFINDEX),
     (''netlink.neigh.state'', FILTER_FIELD_NL_NEIGH NEIGH_STATE),
     (''netlink.neigh.dst'', FILTER_FIELD_NL_NEIGH NEIGH_DST),
     (''netlink.diag.family'', FILTER_FIELD_NL_DIAG DIAG_FAMILY),
     (''netlink.diag.state'', FILTER_FIELD_NL_DIAG DIAG_STATE),
     (''netlink.diag.protocol'', FILTER_FIELD_NL_DIAG DIAG_PROTOCOL),
     (''netlink.diag.src_port'', FILTER_FIELD_NL_DIAG DIAG_SRC_PORT),
     (''netlink.diag.dst_port'', FILTER_FIELD_NL_DIAG DIAG_DST_PORT),
     (''netlink.diag.src_addr'', FILTER_FIELD_NL_DIAG DIAG_SRC_ADDR),
     (''netlink.diag.dst_addr'', FILTER_FIELD_NL_DIAG DIAG_DST_ADDR),
     (''netlink.diag.uid'', FILTER_FIELD_NL_DIAG DIAG_UID),
     (''netlink.diag.inode'', FILTER_FIELD_NL_DIAG DIAG_INODE),
     (''netlink.ct.protocol'', FILTER_FIELD_NL_CT CT_PROTOCOL),
     (''netlink.ct.tcp_state'', FILTER_FIELD_NL_CT CT_TCP_STATE),
     (''netlink.ct.src_addr'', FILTER_FIELD_NL_CT CT_SRC_ADDR),
     (''netlink.ct.dst_addr'', FILTER_FIELD_NL_CT CT_DST_ADDR),
     (''netlink.ct.src_port'', FILTER_FIELD_NL_CT CT_SRC_PORT),
     (''netlink.ct.dst_port'', FILTER_FIELD_NL_CT CT_DST_PORT),
     (''netlink.ct.mark'', FILTER_FIELD_NL_CT CT_MARK),
     (''netlink.nl80211.cmd'', FILTER_FIELD_NL_NL80211 NL80211_CMD),
     (''netlink.nl80211.wiphy'', FILTER_FIELD_NL_NL80211 NL80211_WIPHY),
     (''netlink.nl80211.ifindex'', FILTER_FIELD_NL_NL80211 NL80211_IFINDEX),
     (''netlink.nl80211.ifname'', FILTER_FIELD_NL_NL80211 NL80211_IFNAME),
     (''netlink.nl80211.iftype'', FILTER_FIELD_NL_NL80211 NL80211_IFTYPE),
     (''netlink.nl80211.freq'', FILTER_FIELD_NL_NL80211 NL80211_FREQ),
     (''netlink.qca.subcmd'', FILTER_FIELD_NL_QCA QCA_SUBCMD),
     (''netlink.qca.subcmd_name'', FILTER_FIELD_NL_QCA QCA_SUBCMD_NAME),
     (''netlink.qca.vendor_id'', FILTER_FIELD_NL_QCA QCA_VENDOR_ID)]"

text \<open>The chain of comparisons; an unknown name is taken for the interface field.\<close>

definition parse_field_name :: "string \<Rightarrow> filter_field_type" where
  "parse_field_name name =
     (case find (\<lambda>(n, f). strcaseeq name n) field_names of
        Some (n, f) \<Rightarrow> f
      | None \<Rightarrow> FILTER_FIELD INTERFACE)"

section \<open>Syntax trees\<close>

text \<open>The node kinds whose data is the binary arm of the union.\<close>

datatype filter_binary_type =
    FILTER_NODE_EQ | FILTER_NODE_NE | FILTER_NODE_LT | FILTER_NODE_GT
  | FILTER_NODE_LE | FILTER_NODE_GE | FILTER_NODE_MATCH | FILTER_NODE_NMATCH
  | FILTER_NODE_IN | FILTER_NODE_AND | FILTER_NODE_OR

datatype filter_node =
    FILTER_NODE_BINARY filter_binary_type filter_node filter_node
  | FILTER_NODE_NOT filter_node
  | FILTER_NODE_FIELD filter_field_type
  | FILTER_NODE_STRING string
  | FILTER_NODE_NUMBER i64
  | FILTER_NODE_LIST "filter_node list"

section \<open>Field codes and names are inverse to their decoders\<close>

lemma filter_fields_complete: "f \<in> set filter_fields"
proof (cases f)
  case (FILTER_FIELD x)
  then show ?thesis by (cases x) (simp_all add: filter_fields_def)
next
  case (FILTER_FIELD_NL x)
  then show ?thesis by (cases x) (simp_all add: filter_fields_def)
next
  case (FILTER_FIELD_NL_LINK x)
  then show ?thesis by (cases x) (simp_all add: filter_fields_def)
next
  case (FILTER_FIELD_NL_ADDR x)
  then show ?thesis by (cases x) (simp_all add: filter_fields_def)
next
  case (FILTER_FIELD_NL_ROUTE x)
  then show ?thesis by (cases x) (simp_all add: filter_fields_def)
next
  case (FILTER_FIELD_NL_NEIGH x)
  then show ?thesis by (cases x) (simp_all add: filter_fields_def)
next
  case (FILTER_FIELD_NL_DIAG x)
  then show ?thesis by (cases x) (simp_all add: filter_fields_def)
next
  case (FILTER_FIELD_NL_CT x)
  then show ?thesis by (cases x) (simp_all add: filter_fields_def)
next
  case (FILTER_FIELD_NL_NL80211 x)
  then show ?thesis by (cases x) (simp_all add: filter_fields_def)
next
  case (FILTER_FIELD_NL_QCA x)
  then show ?thesis by (cases x) (simp_all add: filter_fields_def)
qed

lemma length_filter_fields: "length filter_fields = 65"
  by (simp add: filter_fields_def)

lemma takeWhile_neq_nth:
  "x \<in> set xs \<Longrightarrow> length (takeWhile (\<lambda>g. g \<noteq> x) xs) < length xs \<and>
     xs ! length (takeWhile (\<lambda>g. g \<noteq> x) xs) = x"
  by (induction xs) auto

lemma field_of_code_code: "field_of_code (field_code f) = Some f"
proof -
  let ?i = "length (takeWhile (\<lambda>g. g \<noteq> f) filter_fields)"
  have i: "?i < length filter_fields" "filter_fields ! ?i = f"
    using takeWhile_neq_nth [OF filter_fields_complete] by blast+
  then have "unat (of_nat ?i :: u8) = ?i"
    by (simp add: length_filter_fields unsigned_of_nat take_bit_nat_eq_self)
  with i show ?thesis by (simp add: field_of_code_def field_code_def)
qed

lemma find_distinct_key:
  assumes "(k, v) \<in> set t" and "distinct (map fst t)"
  shows "find (\<lambda>(n, f). k = n) t = Some (k, v)"
  using assms by (induction t) (auto simp: rev_image_eqI)

lemma field_names_lower: "\<forall>(n, f) \<in> set field_names. map tolower n = n"
  by (simp add: field_names_def tolower_def isupper_def c_code_def)

lemma field_names_distinct: "distinct (map fst field_names)"
  by (simp add: field_names_def)

lemma parse_field_name_in:
  assumes "(n, f) \<in> set field_names" and "strcaseeq m n"
  shows "parse_field_name m = f"
proof -
  have "find (\<lambda>(k, f). strcaseeq m k) field_names = find (\<lambda>(k, f). n = k) field_names"
  proof (rule find_cong [OF refl])
    fix p assume p: "p \<in> set field_names"
    obtain k g where pk: "p = (k, g)" by force
    have "map tolower k = k" "map tolower n = n"
      using field_names_lower p pk assms(1) by auto
    with assms(2) pk show "(case p of (k, f) \<Rightarrow> strcaseeq m k) = (case p of (k, f) \<Rightarrow> n = k)"
      by (auto simp: strcaseeq_def)
  qed
  with find_distinct_key [OF assms(1) field_names_distinct] show ?thesis
    by (simp add: parse_field_name_def)
qed

lemma field_names_all: "\<exists>n. (n, f) \<in> set field_names"
proof -
  have "map snd field_names = filter_fields"
    by (simp add: field_names_def filter_fields_def)
  then have "f \<in> set (map snd field_names)" using filter_fields_complete by simp
  then show ?thesis by auto
qed

end
