(* ===== verification/Filter_Lexer.thy ===== *)
theory Filter_Lexer
  imports Filter_Syntax
begin

text \<open>
  The lexer of \<^verbatim>\<open>src/src/core/filter_parser.c\<close>: a cursor on the expression with line and column
  bookkeeping and one token of lookahead.
\<close>

section \<open>Tokens and lexer state\<close>

datatype token_type =
    TOKEN_EOF | TOKEN_ERROR
  | TOKEN_EQ | TOKEN_NE | TOKEN_LT | TOKEN_GT | TOKEN_LE | TOKEN_GE | TOKEN_MATCH | TOKEN_NMATCH
  | TOKEN_AND | TOKEN_OR | TOKEN_NOT | TOKEN_IN
  | TOKEN_FIELD | TOKEN_STRING | TOKEN_NUMBER
  | TOKEN_LPAREN | TOKEN_RPAREN | TOKEN_LBRACKET | TOKEN_RBRACKET | TOKEN_COMMA

record token =
  tok_type :: token_type
  tok_value :: "string option"
  tok_position :: nat
  tok_line :: nat
  tok_column :: nat

record lexer =
  lx_input :: string
  lx_position :: nat
  lx_line :: nat
  lx_column :: nat
  lx_current :: token

section \<open>Operations\<close>

definition lexer_init :: "string \<Rightarrow> lexer" where
  "lexer_init input =
     \<lparr>lx_input = input, lx_position = 0, lx_line = 1, lx_column = 1,
      lx_current = \<lparr>tok_type = TOKEN_EOF, tok_value = None, tok_position = 0, tok_line = 0,
        tok_column = 0\<rparr>\<rparr>"

definition lexer_free_token :: "token \<Rightarrow> token" where
  "lexer_free_token t = t\<lparr>tok_value := None\<rparr>"

definition lexer_peek :: "lexer \<Rightarrow> char" where
  "lexer_peek l = c_at (lx_input l) (lx_position l)"

definition lexer_advance :: "lexer \<Rightarrow> char \<times> lexer" where
  "lexer_advance l =
     (let c = c_at (lx_input l) (lx_position l) in
      if c = NUL then (c, l)
      else let l = l\<lparr>lx_position := lx_position l + 1, lx_column := lx_column l + 1\<rparr>
           in (c, if c = CHR 0x0A then l\<lparr>lx_line := lx_line l + 1, lx_column := 1\<rparr> else l))"

text \<open>A call whose result is dropped.\<close>

definition lexer_adv :: "lexer \<Rightarrow> lexer" where
  "lexer_adv l = snd (lexer_advance l)"

lemma lexer_advance_eq: "lexer_advance l = (lexer_peek l, lexer_adv l)"
  by (simp add: lexer_adv_def lexer_advance_def lexer_peek_def Let_def)

lemma lexer_adv_frame [simp]:
  "lx_input (lexer_adv l) = lx_input l" "lx_current (lexer_adv l) = lx_current l"
  by (simp_all add: lexer_adv_def lexer_advance_def Let_def)

lemma lexer_adv_position:
  "lx_position (lexer_adv l) = (if lexer_peek l = NUL then lx_position l else lx_position l + 1)"
  by (simp add: lexer_adv_def lexer_advance_def lexer_peek_def Let_def)

lemma peek_less: "lexer_peek l \<noteq> NUL \<Longrightarrow> lx_position l < length (lx_input l)"
  by (simp add: lexer_peek_def c_at_less)

text \<open>The loops end because each pass moves the cursor towards the terminator.\<close>

lemma adv_decreases:
  "lexer_peek l \<noteq> NUL \<Longrightarrow>
     length (lx_input l) - lx_position (lexer_adv l) < length (lx_input l) - lx_position l"
  using peek_less [of l] by (simp add: lexer_adv_position)

function lexer_skip_whitespace :: "lexer \<Rightarrow> lexer" where
  "lexer_skip_whitespace l =
     (if isspace (lexer_peek l) then lexer_skip_whitespace (lexer_adv l) else l)"
  by pat_completeness auto
termination
proof (relation "measure (\<lambda>l. length (lx_input l) - lx_position l)")
  fix l :: lexer
  assume "isspace (lexer_peek l)"
  then have "lexer_peek l \<noteq> NUL" by auto
  then show "(lexer_adv l, l) \<in> measure (\<lambda>l. length (lx_input l) - lx_position l)"
    using adv_decreases by simp
qed simp

declare lexer_skip_whitespace.simps [simp del]

definition is_ident_char :: "char \<Rightarrow> bool" where
  "is_ident_char c \<longleftrightarrow> isalnum c \<or> c = CHR ''_'' \<or> c = CHR ''.''"

function ident_loop :: "lexer \<Rightarrow> nat \<Rightarrow> lexer \<times> nat" where
  "ident_loop l len =
     (if is_ident_char (lexer_peek l) then ident_loop (lexer_adv l) (len + 1) else (l, len))"
  by pat_completeness auto
termination
proof (relation "measure (\<lambda>(l, _). length (lx_input l) - lx_position l)")
  fix l :: lexer and len :: nat
  assume "is_ident_char (lexer_peek l)"
  then have "lexer_peek l \<noteq> NUL" by (auto simp: is_ident_char_def)
  then show "((lexer_adv l, len + 1), l, len) \<in> measure (\<lambda>(l, _). length (lx_input l) - lx_position l)"
    using adv_decreases by simp
qed simp

declare ident_loop.simps [simp del]

definition lexer_read_identifier :: "lexer \<Rightarrow> string \<times> lexer" where
  "lexer_read_identifier l =
     (let start = lx_position l in
      case ident_loop l 0 of (l', len) \<Rightarrow> (take len (drop start (lx_input l)), l'))"

text \<open>
  Inside a quoted string a backslash is skipped together with the character after it, but the
  length counts the pair as one character.
\<close>

function string_loop :: "char \<Rightarrow> lexer \<Rightarrow> nat \<Rightarrow> lexer \<times> nat" where
  "string_loop quote l len =
     (if lexer_peek l \<noteq> quote \<and> lexer_peek l \<noteq> NUL
      then let l = (if lexer_peek l = CHR 0x5C then lexer_adv l else l)
           in string_loop quote (lexer_adv l) (len + 1)
      else (l, len))"
  by pat_completeness auto
termination
proof (relation "measure (\<lambda>(_, l, _). length (lx_input l) - lx_position l)")
  fix quote l len x
  assume g: "lexer_peek l \<noteq> quote \<and> lexer_peek l \<noteq> NUL"
    and x: "x = (if lexer_peek l = CHR 0x5C then lexer_adv l else l)"
  have "length (lx_input x) - lx_position (lexer_adv x) \<le> length (lx_input x) - lx_position x"
    by (auto simp: lexer_adv_position)
  moreover have "lx_input x = lx_input l" by (simp add: x)
  ultimately show "((quote, lexer_adv x, len + 1), quote, l, len)
      \<in> measure (\<lambda>(_, l, _). length (lx_input l) - lx_position l)"
    using adv_decreases [of l] adv_decreases [of x] g x by (cases "lexer_peek l = CHR 0x5C") auto
qed simp

declare string_loop.simps [simp del]

definition lexer_read_string :: "lexer \<Rightarrow> string \<times> lexer" where
  "lexer_read_string l =
     (case lexer_advance l of (quote, l) \<Rightarrow>
        let start = lx_position l in
        case string_loop quote l 0 of (l', len) \<Rightarrow>
          let l'' = (if lexer_peek l' = quote then lexer_adv l' else l')
          in (take len (drop start (lx_input l)), l''))"

function number_loop :: "lexer \<Rightarrow> nat \<Rightarrow> lexer \<times> nat" where
  "number_loop l len =
     (if isdigit (lexer_peek l) then number_loop (lexer_adv l) (len + 1) else (l, len))"
  by pat_completeness auto
termination
proof (relation "measure (\<lambda>(l, _). length (lx_input l) - lx_position l)")
  fix l :: lexer and len :: nat
  assume "isdigit (lexer_peek l)"
  then have "lexer_peek l \<noteq> NUL" by auto
  then show "((lexer_adv l, len + 1), l, len) \<in> measure (\<lambda>(l, _). length (lx_input l) - lx_position l)"
    using adv_decreases by simp
qed simp

declare number_loop.simps [simp del]

definition lexer_read_number :: "lexer \<Rightarrow> string \<times> lexer" where
  "lexer_read_number l =
     (let start = lx_position l in
      case number_loop l 0 of (l', len) \<Rightarrow> (take len (drop start (lx_input l)), l'))"

definition is_keyword :: "string \<Rightarrow> string \<Rightarrow> bool" where
  "is_keyword str keyword \<longleftrightarrow> strcaseeq str keyword"

definition set_type :: "token_type \<Rightarrow> lexer \<Rightarrow> lexer" where
  "set_type t l = l\<lparr>lx_current := (lx_current l)\<lparr>tok_type := t\<rparr>\<rparr>"

definition set_value :: "string \<Rightarrow> lexer \<Rightarrow> lexer" where
  "set_value v l = l\<lparr>lx_current := (lx_current l)\<lparr>tok_value := Some v\<rparr>\<rparr>"

text \<open>The two halves of \<open>lexer_next_token\<close>: where the token starts, and what it is.\<close>

definition lexer_start_token :: "lexer \<Rightarrow> lexer" where
  "lexer_start_token l =
     (let l = lexer_skip_whitespace (l\<lparr>lx_current := lexer_free_token (lx_current l)\<rparr>)
      in l\<lparr>lx_current := (lx_current l)\<lparr>tok_position := lx_position l, tok_line := lx_line l,
             tok_column := lx_column l\<rparr>\<rparr>)"

definition lexer_classify :: "lexer \<Rightarrow> lexer" where
  "lexer_classify l =
     (let c = lexer_peek l;
          d = c_at (lx_input l) (lx_position l + 1);
          one = (\<lambda>t. lexer_adv (set_type t l));
          two = (\<lambda>t. lexer_adv (lexer_adv (set_type t l)))
      in if c = NUL then set_type TOKEN_EOF l
         else if c = CHR ''='' \<and> d = CHR ''='' then two TOKEN_EQ
         else if c = CHR ''!'' \<and> d = CHR ''='' then two TOKEN_NE
         else if c = CHR ''<'' \<and> d = CHR ''='' then two TOKEN_LE
         else if c = CHR ''>'' \<and> d = CHR ''='' then two TOKEN_GE
         else if c = CHR ''='' \<and> d = CHR ''~'' then two TOKEN_MATCH
         else if c = CHR ''!'' \<and> d = CHR ''~'' then two TOKEN_NMATCH
         else if c = CHR ''<'' then one TOKEN_LT
         else if c = CHR ''>'' then one TOKEN_GT
         else if c = CHR ''('' then one TOKEN_LPAREN
         else if c = CHR '')'' then one TOKEN_RPAREN
         else if c = CHR ''['' then one TOKEN_LBRACKET
         else if c = CHR '']'' then one TOKEN_RBRACKET
         else if c = CHR '','' then one TOKEN_COMMA
         else if c = CHR 0x22 \<or> c = CHR 0x27 then
           (case lexer_read_string (set_type TOKEN_STRING l) of (v, l') \<Rightarrow> set_value v l')
         else if isdigit c then
           (case lexer_read_number (set_type TOKEN_NUMBER l) of (v, l') \<Rightarrow> set_value v l')
         else if isalpha c \<or> c = CHR ''_'' then
           (case lexer_read_identifier l of (v, l') \<Rightarrow>
              let l' = set_value v l' in
              if is_keyword v ''AND'' then set_type TOKEN_AND l'
              else if is_keyword v ''OR'' then set_type TOKEN_OR l'
              else if is_keyword v ''NOT'' then set_type TOKEN_NOT l'
              else if is_keyword v ''IN'' then set_type TOKEN_IN l'
              else set_type TOKEN_FIELD l')
         else set_type TOKEN_ERROR l)"

definition lexer_next_token :: "lexer \<Rightarrow> lexer" where
  "lexer_next_token l = lexer_classify (lexer_start_token l)"

section \<open>Cursor movement\<close>

definition lx_rest :: "lexer \<Rightarrow> string" where
  "lx_rest l = drop (lx_position l) (lx_input l)"

text \<open>Where a position lies in the text: the line and column a reader would count.\<close>

definition text_line :: "string \<Rightarrow> nat \<Rightarrow> nat" where
  "text_line s i = 1 + length (filter (\<lambda>c. c = CHR 0x0A) (take i s))"

definition text_column :: "string \<Rightarrow> nat \<Rightarrow> nat" where
  "text_column s i = 1 + length (takeWhile (\<lambda>c. c \<noteq> CHR 0x0A) (rev (take i s)))"

definition lx_tracks :: "lexer \<Rightarrow> bool" where
  "lx_tracks l \<longleftrightarrow> lx_position l \<le> length (lx_input l) \<and>
     lx_line l = text_line (lx_input l) (lx_position l) \<and>
     lx_column l = text_column (lx_input l) (lx_position l)"

lemma lexer_peek_rest: "lexer_peek l = (case lx_rest l of [] \<Rightarrow> NUL | c # _ \<Rightarrow> c)"
  by (cases "lx_position l < length (lx_input l)")
    (simp_all add: lexer_peek_def lx_rest_def c_at_def Cons_nth_drop_Suc [symmetric])

lemma lx_rest_adv: "lx_rest (lexer_adv l) = (if lexer_peek l = NUL then lx_rest l else tl (lx_rest l))"
  by (simp add: lx_rest_def lexer_adv_position drop_Suc tl_drop)

lemma lx_tracks_adv: assumes "lx_tracks l" shows "lx_tracks (lexer_adv l)"
proof (cases "lexer_peek l = NUL")
  case True
  then have "lexer_adv l = l" by (simp add: lexer_adv_def lexer_advance_def lexer_peek_def Let_def)
  then show ?thesis using assms by simp
next
  case False
  then have "lx_position l < length (lx_input l)" by (rule peek_less)
  then show ?thesis
    using assms False
    by (auto simp: lx_tracks_def lexer_adv_def lexer_advance_def lexer_peek_def c_at_def Let_def text_line_def
        text_column_def take_Suc_conv_app_nth)
qed

lemma adv_n_frame [simp]:
  "lx_input ((lexer_adv ^^ n) l) = lx_input l" "lx_current ((lexer_adv ^^ n) l) = lx_current l"
  by (induction n) simp_all

lemma lx_tracks_adv_n: "lx_tracks l \<Longrightarrow> lx_tracks ((lexer_adv ^^ n) l)"
  by (induction n) (simp_all add: lx_tracks_adv)

text \<open>A loop that advances while a test holds runs over the longest prefix that satisfies it.\<close>

lemma adv_while:
  assumes "\<not> P NUL" "P (lexer_peek l)"
  shows "length (takeWhile P (lx_rest l)) = Suc (length (takeWhile P (lx_rest (lexer_adv l))))"
    and "dropWhile P (lx_rest l) = dropWhile P (lx_rest (lexer_adv l))"
  using assms by (auto simp: lexer_peek_rest lx_rest_adv split: list.splits)

lemma peek_stop: "\<not> P (lexer_peek l) \<Longrightarrow> takeWhile P (lx_rest l) = []"
  by (simp add: lexer_peek_rest split: list.splits)

lemma skip_whitespace_eq:
  "lexer_skip_whitespace l = (lexer_adv ^^ length (takeWhile isspace (lx_rest l))) l"
proof (induction l rule: lexer_skip_whitespace.induct)
  case (1 l)
  show ?case
  proof (cases "isspace (lexer_peek l)")
    case True
    then show ?thesis
      using 1 adv_while(1) [of isspace l]
      by (simp add: lexer_skip_whitespace.simps [of l] funpow_swap1)
  next
    case False
    then show ?thesis by (simp add: lexer_skip_whitespace.simps [of l] peek_stop)
  qed
qed

lemma ident_NUL [simp]: "\<not> is_ident_char NUL"
  by (simp add: is_ident_char_def)

lemma ident_loop_eq:
  "ident_loop l len =
     (let n = length (takeWhile is_ident_char (lx_rest l)) in ((lexer_adv ^^ n) l, len + n))"
proof (induction l len rule: ident_loop.induct)
  case (1 l len)
  show ?case
  proof (cases "is_ident_char (lexer_peek l)")
    case True
    then show ?thesis
      using 1 adv_while(1) [of is_ident_char l]
      by (simp add: ident_loop.simps [of l] funpow_swap1 Let_def)
  next
    case False
    then show ?thesis by (simp add: ident_loop.simps [of l] peek_stop)
  qed
qed

lemma number_loop_eq:
  "number_loop l len =
     (let n = length (takeWhile isdigit (lx_rest l)) in ((lexer_adv ^^ n) l, len + n))"
proof (induction l len rule: number_loop.induct)
  case (1 l len)
  show ?case
  proof (cases "isdigit (lexer_peek l)")
    case True
    then show ?thesis
      using 1 adv_while(1) [of isdigit l]
      by (simp add: number_loop.simps [of l] funpow_swap1 Let_def)
  next
    case False
    then show ?thesis by (simp add: number_loop.simps [of l] peek_stop)
  qed
qed

lemma string_loop_adv: "\<exists>n. fst (string_loop q l len) = (lexer_adv ^^ n) l"
proof (induction q l len rule: string_loop.induct)
  case (1 q l len)
  show ?case
  proof (cases "lexer_peek l \<noteq> q \<and> lexer_peek l \<noteq> NUL")
    case True
    define x where "x = (if lexer_peek l = CHR 0x5C then lexer_adv l else l)"
    obtain n where n: "fst (string_loop q (lexer_adv x) (len + 1)) = (lexer_adv ^^ n) (lexer_adv x)"
      using 1 [OF True x_def] by blast
    have "string_loop q l len = string_loop q (lexer_adv x) (len + 1)"
      using True by (simp add: string_loop.simps [of q l] x_def Let_def)
    moreover obtain k where "lexer_adv x = (lexer_adv ^^ k) l"
    proof (cases "lexer_peek l = CHR 0x5C")
      case True
      then show ?thesis using that [of 2] by (simp add: x_def numeral_2_eq_2)
    next
      case False
      then show ?thesis using that [of 1] by (simp add: x_def)
    qed
    ultimately show ?thesis using n by (metis comp_apply funpow_add)
  next
    case False
    then show ?thesis by (auto simp: string_loop.simps [of q l] intro: exI [of _ 0])
  qed
qed

section \<open>Reference scanner\<close>

text \<open>
  What the lexer computes, on the text that is left: operators come from a table in order of
  length, words and numbers are longest prefixes.
\<close>

type_synonym lexeme = "token_type \<times> string option"

definition operator_table :: "(string \<times> token_type) list" where
  "operator_table =
     [(''=='', TOKEN_EQ), (''!='', TOKEN_NE), (''<='', TOKEN_LE), (''>='', TOKEN_GE),
      (''=~'', TOKEN_MATCH), (''!~'', TOKEN_NMATCH), (''<'', TOKEN_LT), (''>'', TOKEN_GT),
      (''('', TOKEN_LPAREN), ('')'', TOKEN_RPAREN), (''['', TOKEN_LBRACKET), ('']'', TOKEN_RBRACKET),
      ('','', TOKEN_COMMA)]"

definition word_type :: "string \<Rightarrow> token_type" where
  "word_type w =
     (if strcaseeq w ''AND'' then TOKEN_AND else if strcaseeq w ''OR'' then TOKEN_OR
      else if strcaseeq w ''NOT'' then TOKEN_NOT else if strcaseeq w ''IN'' then TOKEN_IN
      else TOKEN_FIELD)"

fun string_span :: "char \<Rightarrow> string \<Rightarrow> nat \<times> string" where
  "string_span q [] = (0, [])"
| "string_span q [c] = (if c = q then (0, [c]) else (1, []))"
| "string_span q (c # d # s) =
     (if c = q then (0, c # d # s)
      else let (n, r) = string_span q (if c = CHR 0x5C then s else d # s) in (Suc n, r))"

definition scan :: "string \<Rightarrow> lexeme \<times> string" where
  "scan text =
     (let s = dropWhile isspace text in
      case s of [] \<Rightarrow> ((TOKEN_EOF, None), [])
      | c # r \<Rightarrow>
        (case find (\<lambda>(w, _). take (length w) s = w) operator_table of
           Some (w, t) \<Rightarrow> ((t, None), drop (length w) s)
         | None \<Rightarrow>
           if c = CHR 0x22 \<or> c = CHR 0x27 then
             (case string_span c r of (n, r') \<Rightarrow> ((TOKEN_STRING, Some (take n r)), drop 1 r'))
           else if isdigit c then ((TOKEN_NUMBER, Some (takeWhile isdigit s)), dropWhile isdigit s)
           else if isalpha c \<or> c = CHR ''_'' then
             ((word_type (takeWhile is_ident_char s), Some (takeWhile is_ident_char s)),
              dropWhile is_ident_char s)
           else ((TOKEN_ERROR, None), s)))"

definition lx_lexeme :: "lexer \<Rightarrow> lexeme" where
  "lx_lexeme l = (tok_type (lx_current l), tok_value (lx_current l))"

lemma rest_no_NUL: "NUL \<notin> set (lx_input l) \<Longrightarrow> NUL \<notin> set (lx_rest l)"
  unfolding lx_rest_def using set_drop_subset by fast

lemma peek_NUL_iff: "NUL \<notin> set (lx_input l) \<Longrightarrow> lexer_peek l = NUL \<longleftrightarrow> lx_rest l = []"
  using rest_no_NUL [of l] by (auto simp: lexer_peek_rest split: list.splits)

lemma adv_n_rest:
  "NUL \<notin> set (lx_input l) \<Longrightarrow> lx_rest ((lexer_adv ^^ n) l) = drop n (lx_rest l)"
proof (induction n)
  case (Suc n)
  then have "lx_rest (lexer_adv ((lexer_adv ^^ n) l)) = tl (lx_rest ((lexer_adv ^^ n) l))"
    using peek_NUL_iff [of "(lexer_adv ^^ n) l"] by (auto simp: lx_rest_adv)
  then show ?case using Suc by (simp add: drop_Suc tl_drop)
qed simp

lemma adv_rest: "NUL \<notin> set (lx_input l) \<Longrightarrow> lx_rest (lexer_adv l) = tl (lx_rest l)"
  using adv_n_rest [of l 1] by (simp add: drop_Suc)

lemma string_loop_span:
  assumes "NUL \<notin> set (lx_input l)"
  shows "snd (string_loop q l len) = len + fst (string_span q (lx_rest l)) \<and>
         lx_rest (fst (string_loop q l len)) = snd (string_span q (lx_rest l))"
  using assms
proof (induction q l len rule: string_loop.induct)
  case (1 q l len)
  show ?case
  proof (cases "lexer_peek l \<noteq> q \<and> lexer_peek l \<noteq> NUL")
    case True
    define x where "x = (if lexer_peek l = CHR 0x5C then lexer_adv l else l)"
    have x: "NUL \<notin> set (lx_input x)" using 1(2) by (simp add: x_def)
    have IH: "snd (string_loop q (lexer_adv x) (len + 1)) = len + 1 + fst (string_span q (lx_rest (lexer_adv x)))"
      "lx_rest (fst (string_loop q (lexer_adv x) (len + 1))) = snd (string_span q (lx_rest (lexer_adv x)))"
      using 1(1) [OF True x_def] x by simp_all
    have step: "string_loop q l len = string_loop q (lexer_adv x) (len + 1)"
      using True by (simp add: string_loop.simps [of q l] x_def Let_def)
    have rest: "lx_rest (lexer_adv x) = (if lexer_peek l = CHR 0x5C then tl (tl (lx_rest l)) else tl (lx_rest l))"
      using 1(2) by (simp add: x_def adv_rest)
    have "string_span q (lx_rest l) = (let (n, r) = string_span q (lx_rest (lexer_adv x)) in (Suc n, r))"
      using True unfolding rest lexer_peek_rest
      by (cases "lx_rest l"; cases "tl (lx_rest l)") auto
    then show ?thesis using IH step by (simp add: Let_def split: prod.split)
  next
    case False
    have "string_span q (lx_rest l) = (0, lx_rest l)"
      using False peek_NUL_iff [OF 1(2)]
      by (cases "lx_rest l"; cases "tl (lx_rest l)") (auto simp: lexer_peek_rest)
    then show ?thesis using False by (auto simp: string_loop.simps [of q l])
  qed
qed

section \<open>The lexer computes the reference scanner\<close>

lemma set_frame [simp]:
  "lx_input (set_type t l) = lx_input l" "lx_rest (set_type t l) = lx_rest l"
  "lexer_peek (set_type t l) = lexer_peek l" "lx_position (set_type t l) = lx_position l"
  "lx_input (set_value v l) = lx_input l" "lx_rest (set_value v l) = lx_rest l"
  by (simp_all add: set_type_def set_value_def lx_rest_def lexer_peek_def)

lemma set_lexeme [simp]:
  "lx_lexeme (set_type t l) = (t, tok_value (lx_current l))"
  "lx_lexeme (set_value v l) = (tok_type (lx_current l), Some v)"
  "tok_value (lx_current (set_value v l)) = Some v"
  "tok_type (lx_current (set_type t l)) = t"
  by (simp_all add: set_type_def set_value_def lx_lexeme_def)

lemma adv_lexeme [simp]: "lx_lexeme (lexer_adv l) = lx_lexeme l"
  by (simp add: lx_lexeme_def)

lemma read_identifier_scan:
  assumes "NUL \<notin> set (lx_input l)" "lexer_read_identifier l = (v, l')"
  shows "v = takeWhile is_ident_char (lx_rest l)" "lx_rest l' = dropWhile is_ident_char (lx_rest l)"
    "lx_input l' = lx_input l"
  using assms
  by (auto simp: lexer_read_identifier_def ident_loop_eq Let_def adv_n_rest dropWhile_eq_drop
      takeWhile_eq_take [symmetric] lx_rest_def [symmetric])

lemma read_number_scan:
  assumes "NUL \<notin> set (lx_input l)" "lexer_read_number l = (v, l')"
  shows "v = takeWhile isdigit (lx_rest l)" "lx_rest l' = dropWhile isdigit (lx_rest l)"
    "lx_current l' = lx_current l"
  using assms
  by (auto simp: lexer_read_number_def number_loop_eq Let_def adv_n_rest dropWhile_eq_drop
      takeWhile_eq_take [symmetric] lx_rest_def [symmetric])

lemma string_loop_frame:
  "lx_input (fst (string_loop q l n)) = lx_input l" "lx_current (fst (string_loop q l n)) = lx_current l"
  using string_loop_adv [of q l n] by auto

lemma span_stop: "snd (string_span q s) = [] \<or> hd (snd (string_span q s)) = q"
  by (induction q s rule: string_span.induct) (auto simp: Let_def split: prod.split)

lemma read_string_scan:
  assumes nul: "NUL \<notin> set (lx_input l)" and c: "lx_rest l = c # r"
    and "lexer_read_string l = (v, l')"
  shows "v = take (fst (string_span c r)) r" "lx_rest l' = drop 1 (snd (string_span c r))"
    "lx_current l' = lx_current l"
proof -
  define m where "m = lexer_adv l"
  define k where "k = fst (string_loop c m 0)"
  have m: "lx_rest m = r" "lx_input m = lx_input l" "lx_current m = lx_current l"
    using nul c by (simp_all add: m_def adv_rest)
  have k: "lx_rest k = snd (string_span c r)" "lx_input k = lx_input l" "lx_current k = lx_current l"
    using string_loop_span [of m c 0] nul m by (simp_all add: k_def string_loop_frame)
  have n: "snd (string_loop c m 0) = fst (string_span c r)"
    using string_loop_span [of m c 0] nul m by simp
  have "lexer_peek l = c" using c by (simp add: lexer_peek_rest)
  then have eq: "v = take (fst (string_span c r)) r"
    "l' = (if lexer_peek k = c then lexer_adv k else k)"
    using assms(3) n m(1)
    by (simp_all add: lexer_read_string_def lexer_advance_eq m_def [symmetric] k_def Let_def
        lx_rest_def [symmetric] split: prod.splits if_splits)
  have "c \<noteq> NUL" using nul rest_no_NUL [of l] c by auto
  then have "lexer_peek k = c \<or> lx_rest k = []"
    using span_stop [of c r] unfolding k(1) [symmetric] by (auto simp: lexer_peek_rest split: list.split)
  then show "lx_rest l' = drop 1 (snd (string_span c r))"
    using eq(2) k nul by (auto simp: adv_rest drop_Suc)
  show "v = take (fst (string_span c r)) r" "lx_current l' = lx_current l" using eq k by auto
qed

lemma peek_second:
  "NUL \<notin> set (lx_input l) \<Longrightarrow>
     c_at (lx_input l) (lx_position l + 1) = (case lx_rest l of c # d # _ \<Rightarrow> d | _ \<Rightarrow> NUL)"
  by (cases "lx_position l + 1 < length (lx_input l)")
    (auto simp: c_at_def lx_rest_def Cons_nth_drop_Suc [symmetric] split: list.split
      dest!: arg_cong [of _ _ length])

lemma word_token:
  "set_type (word_type v) l =
     (if is_keyword v ''AND'' then set_type TOKEN_AND l
      else if is_keyword v ''OR'' then set_type TOKEN_OR l
      else if is_keyword v ''NOT'' then set_type TOKEN_NOT l
      else if is_keyword v ''IN'' then set_type TOKEN_IN l
      else set_type TOKEN_FIELD l)"
  by (simp add: word_type_def is_keyword_def)

text \<open>What \<open>scan\<close> does once white space is gone, as conditions on the first two characters.\<close>

definition second :: "string \<Rightarrow> char" where
  "second r = (case r of d # _ \<Rightarrow> d | _ \<Rightarrow> NUL)"

lemma take_two: "x \<noteq> NUL \<Longrightarrow> take (Suc 0) r = [x] \<longleftrightarrow> second r = x"
  by (cases r) (auto simp: second_def)

lemma find_operator:
  "find (\<lambda>(w, _). take (length w) (c # r) = w) operator_table =
     (if c = CHR ''='' \<and> second r = CHR ''='' then Some (''=='', TOKEN_EQ)
      else if c = CHR ''!'' \<and> second r = CHR ''='' then Some (''!='', TOKEN_NE)
      else if c = CHR ''<'' \<and> second r = CHR ''='' then Some (''<='', TOKEN_LE)
      else if c = CHR ''>'' \<and> second r = CHR ''='' then Some (''>='', TOKEN_GE)
      else if c = CHR ''='' \<and> second r = CHR ''~'' then Some (''=~'', TOKEN_MATCH)
      else if c = CHR ''!'' \<and> second r = CHR ''~'' then Some (''!~'', TOKEN_NMATCH)
      else if c = CHR ''<'' then Some (''<'', TOKEN_LT)
      else if c = CHR ''>'' then Some (''>'', TOKEN_GT)
      else if c = CHR ''('' then Some (''('', TOKEN_LPAREN)
      else if c = CHR '')'' then Some ('')'', TOKEN_RPAREN)
      else if c = CHR ''['' then Some (''['', TOKEN_LBRACKET)
      else if c = CHR '']'' then Some ('']'', TOKEN_RBRACKET)
      else if c = CHR '','' then Some ('','', TOKEN_COMMA)
      else None)"
  by (simp add: operator_table_def take_two)

lemma classify_scan:
  assumes nul: "NUL \<notin> set (lx_input l)" and ws: "dropWhile isspace (lx_rest l) = lx_rest l"
    and new: "tok_value (lx_current l) = None"
  shows "(lx_lexeme (lexer_classify l), lx_rest (lexer_classify l)) = scan (lx_rest l)"
proof (cases "lx_rest l")
  case Nil
  then show ?thesis
    using new by (simp add: scan_def lexer_classify_def lexer_peek_rest)
next
  case (Cons c r)
  then have c: "lexer_peek l = c" "c \<noteq> NUL" "dropWhile isspace (c # r) = c # r"
    using rest_no_NUL [OF nul] ws by (auto simp: lexer_peek_rest)
  have d: "c_at (lx_input l) (lx_position l + 1) = second r"
    using peek_second [OF nul] Cons by (simp add: second_def split: list.splits)
  define F where "F = (\<lambda>l. (lx_lexeme l, lx_rest l))"
  obtain vs ls where rs: "lexer_read_string (set_type TOKEN_STRING l) = (vs, ls)" by fastforce
  obtain vn ln where rn: "lexer_read_number (set_type TOKEN_NUMBER l) = (vn, ln)" by fastforce
  obtain vi li where ri: "lexer_read_identifier l = (vi, li)" by fastforce
  have F_op: "F (lexer_adv (set_type t l)) = ((t, None), r)"
    "F (lexer_adv (lexer_adv (set_type t l))) = ((t, None), drop 1 r)" for t
    using nul new Cons by (simp_all add: F_def adv_rest drop_Suc)
  have F_string: "F (set_value vs ls) = (case string_span c r of (n, r') \<Rightarrow>
      ((TOKEN_STRING, Some (take n r)), drop 1 r'))"
    using read_string_scan [OF _ _ rs, of c r] nul Cons by (simp add: F_def split: prod.split)
  have F_number: "F (set_value vn ln) =
      ((TOKEN_NUMBER, Some (takeWhile isdigit (c # r))), dropWhile isdigit (c # r))"
    using read_number_scan [OF _ rn] nul Cons by (simp add: F_def)
  have F_word: "F (set_type (word_type vi) (set_value vi li)) =
      ((word_type (takeWhile is_ident_char (c # r)), Some (takeWhile is_ident_char (c # r))),
       dropWhile is_ident_char (c # r))"
    using read_identifier_scan [OF nul ri] Cons by (simp add: F_def)
  have F_error: "F (set_type TOKEN_ERROR l) = ((TOKEN_ERROR, None), c # r)"
    using new Cons by (simp add: F_def)
  have "F (lexer_classify l) = scan (c # r)"
    unfolding lexer_classify_def scan_def Let_def c(1,3) d rs rn ri prod.case list.case
      word_token [symmetric] find_operator
    by (simp only: if_distrib [of F] if_distrib [of "case_option _ _"] F_op F_string F_number F_word
        F_error option.case prod.case c(2) list.size simp_thms if_False
        drop_Suc_Cons drop_0 add_0 One_nat_def add_Suc_right add_0_right)
  then show ?thesis by (simp add: F_def Cons)
qed

lemma start_token_rest:
  assumes "NUL \<notin> set (lx_input l)"
  shows "lx_rest (lexer_start_token l) = dropWhile isspace (lx_rest l)"
    "lx_input (lexer_start_token l) = lx_input l" "tok_value (lx_current (lexer_start_token l)) = None"
proof -
  let ?m = "l\<lparr>lx_current := lexer_free_token (lx_current l)\<rparr>"
  have "lx_rest (lexer_skip_whitespace ?m) = dropWhile isspace (lx_rest ?m)"
    using assms by (simp add: skip_whitespace_eq adv_n_rest dropWhile_eq_drop)
  then show "lx_rest (lexer_start_token l) = dropWhile isspace (lx_rest l)"
    by (simp add: lexer_start_token_def Let_def lx_rest_def)
  show "lx_input (lexer_start_token l) = lx_input l"
    "tok_value (lx_current (lexer_start_token l)) = None"
    by (simp_all add: lexer_start_token_def Let_def skip_whitespace_eq lexer_free_token_def)
qed

lemma scan_skip: "scan (dropWhile isspace s) = scan s"
  by (simp add: scan_def)

lemma next_token_scan:
  assumes "NUL \<notin> set (lx_input l)"
  shows "(lx_lexeme (lexer_next_token l), lx_rest (lexer_next_token l)) = scan (lx_rest l)"
  using classify_scan [of "lexer_start_token l"] start_token_rest [OF assms] assms
  by (simp add: lexer_next_token_def scan_skip)

lemma lexer_read_adv:
  "\<exists>n. snd (lexer_read_string l) = (lexer_adv ^^ n) l"
  "\<exists>n. snd (lexer_read_number l) = (lexer_adv ^^ n) l"
  "\<exists>n. snd (lexer_read_identifier l) = (lexer_adv ^^ n) l"
proof -
  obtain n where n: "fst (string_loop (lexer_peek l) (lexer_adv l) 0) = (lexer_adv ^^ n) (lexer_adv l)"
    using string_loop_adv by blast
  let ?k = "(lexer_adv ^^ n) (lexer_adv l)"
  have "snd (lexer_read_string l) = ?k \<or> snd (lexer_read_string l) = lexer_adv ?k"
    using n by (auto simp: lexer_read_string_def lexer_advance_eq Let_def split: prod.splits)
  moreover have "?k = (lexer_adv ^^ Suc n) l" by (simp only: funpow_Suc_right comp_apply)
  ultimately have "snd (lexer_read_string l) = (lexer_adv ^^ Suc n) l \<or>
      snd (lexer_read_string l) = (lexer_adv ^^ Suc (Suc n)) l"
    by (metis comp_apply funpow.simps(2))
  then show "\<exists>n. snd (lexer_read_string l) = (lexer_adv ^^ n) l" by blast
qed (auto simp: lexer_read_number_def lexer_read_identifier_def number_loop_eq ident_loop_eq Let_def)

lemma lx_tracks_set [simp]:
  "lx_tracks (set_type t l) = lx_tracks l" "lx_tracks (set_value v l) = lx_tracks l"
  "lx_tracks (l\<lparr>lx_current := x\<rparr>) = lx_tracks l"
  by (simp_all add: lx_tracks_def set_type_def set_value_def)

definition tok_place :: "lexer \<Rightarrow> nat \<times> nat \<times> nat" where
  "tok_place l = (tok_position (lx_current l), tok_line (lx_current l), tok_column (lx_current l))"

lemma tok_place_frame [simp]:
  "tok_place (set_type t l) = tok_place l" "tok_place (set_value v l) = tok_place l"
  "tok_place (lexer_adv l) = tok_place l" "tok_place ((lexer_adv ^^ n) l) = tok_place l"
  by (simp_all add: tok_place_def set_type_def set_value_def)

definition lx_keeps :: "lexer \<Rightarrow> lexer \<Rightarrow> bool" where
  "lx_keeps l m \<longleftrightarrow> lx_input m = lx_input l \<and> tok_place m = tok_place l \<and> (lx_tracks l \<longrightarrow> lx_tracks m)"

lemma lx_keeps_ops:
  "lx_keeps l l" "lx_keeps l m \<Longrightarrow> lx_keeps l (set_type t m)" "lx_keeps l m \<Longrightarrow> lx_keeps l (set_value v m)"
  "lx_keeps l m \<Longrightarrow> lx_keeps l (lexer_adv m)" "lx_keeps l m \<Longrightarrow> lx_keeps l ((lexer_adv ^^ n) m)"
  by (auto simp: lx_keeps_def lx_tracks_adv lx_tracks_adv_n)

lemma lx_keeps_read:
  "lx_keeps l m \<Longrightarrow> lexer_read_string m = (v, m') \<Longrightarrow> lx_keeps l m'"
  "lx_keeps l m \<Longrightarrow> lexer_read_number m = (v, m') \<Longrightarrow> lx_keeps l m'"
  "lx_keeps l m \<Longrightarrow> lexer_read_identifier m = (v, m') \<Longrightarrow> lx_keeps l m'"
  using lexer_read_adv [of m] lx_keeps_ops(5) [of l m] by auto

lemma classify_keeps: "lx_keeps l (lexer_classify l)"
  unfolding lexer_classify_def Let_def word_token [symmetric]
  by (auto intro!: lx_keeps_ops split: prod.split intro: lx_keeps_read [rotated] lx_keeps_ops)

lemma start_token_tracks:
  assumes "lx_tracks l"
  shows "lx_tracks (lexer_start_token l)" "lx_input (lexer_start_token l) = lx_input l"
    "tok_place (lexer_start_token l) = (lx_position (lexer_start_token l),
       lx_line (lexer_start_token l), lx_column (lexer_start_token l))"
  using assms lx_tracks_adv_n [of "l\<lparr>lx_current := lexer_free_token (lx_current l)\<rparr>"]
  by (simp_all add: lexer_start_token_def Let_def skip_whitespace_eq tok_place_def)

lemma next_token_tracks:
  assumes "lx_tracks l"
  shows "lx_tracks (lexer_next_token l)" "lx_input (lexer_next_token l) = lx_input l"
    "\<exists>i \<le> length (lx_input l). tok_place (lexer_next_token l) =
       (i, text_line (lx_input l) i, text_column (lx_input l) i)"
proof -
  let ?m = "lexer_start_token l"
  note m = start_token_tracks [OF assms]
  show "lx_tracks (lexer_next_token l)" "lx_input (lexer_next_token l) = lx_input l"
    using classify_keeps [of ?m] m by (simp_all add: lexer_next_token_def lx_keeps_def)
  have "tok_place (lexer_next_token l) = tok_place ?m"
    using classify_keeps [of ?m] by (simp add: lexer_next_token_def lx_keeps_def)
  then show "\<exists>i \<le> length (lx_input l). tok_place (lexer_next_token l) =
       (i, text_line (lx_input l) i, text_column (lx_input l) i)"
    using m by (auto simp: lx_tracks_def)
qed

section \<open>Token sequences\<close>

lemma dropWhile_shorter: "P c \<Longrightarrow> length (dropWhile P (c # r)) \<le> length r"
  by (simp add: length_dropWhile_le)

lemma string_span_shorter: "length (snd (string_span q s)) \<le> length s"
  by (induction q s rule: string_span.induct) (auto simp: Let_def split: prod.splits)

lemma scan_rest: "length (snd (scan s)) \<le> length s"
  and scan_progress: "fst (fst (scan s)) \<notin> {TOKEN_EOF, TOKEN_ERROR} \<Longrightarrow> length (snd (scan s)) < length s"
  and scan_value: "fst (fst (scan s)) \<in> {TOKEN_FIELD, TOKEN_STRING, TOKEN_NUMBER} \<Longrightarrow> snd (fst (scan s)) \<noteq> None"
proof -
  have "length (snd (scan s)) \<le> length s \<and>
    (fst (fst (scan s)) \<notin> {TOKEN_EOF, TOKEN_ERROR} \<longrightarrow> length (snd (scan s)) < length s) \<and>
    (fst (fst (scan s)) \<in> {TOKEN_FIELD, TOKEN_STRING, TOKEN_NUMBER} \<longrightarrow> snd (fst (scan s)) \<noteq> None)"
  proof (cases "dropWhile isspace s")
    case Nil
    show ?thesis unfolding scan_def Let_def Nil by simp
  next
    case (Cons c r)
    have len: "length (c # r) \<le> length s" using length_dropWhile_le [of isspace s] Cons by simp
    show ?thesis
    proof (cases "find (\<lambda>(w, _). take (length w) (c # r) = w) operator_table")
      case None
      then have "scan s =
          (if c = CHR 0x22 \<or> c = CHR 0x27 then
             (case string_span c r of (n, r') \<Rightarrow> ((TOKEN_STRING, Some (take n r)), drop 1 r'))
           else if isdigit c then ((TOKEN_NUMBER, Some (takeWhile isdigit (c # r))), dropWhile isdigit (c # r))
           else if isalpha c \<or> c = CHR ''_'' then
             ((word_type (takeWhile is_ident_char (c # r)), Some (takeWhile is_ident_char (c # r))),
              dropWhile is_ident_char (c # r))
           else ((TOKEN_ERROR, None), c # r))"
        unfolding scan_def Let_def Cons list.case by simp
      moreover have "is_ident_char c" if "isalpha c \<or> c = CHR ''_''"
        using that by (auto simp: is_ident_char_def isalnum_def)
      moreover have "word_type w \<notin> {TOKEN_EOF, TOKEN_ERROR}" for w by (simp add: word_type_def)
      ultimately consider "scan s = (case string_span c r of (n, r') \<Rightarrow> ((TOKEN_STRING, Some (take n r)), drop 1 r'))"
        | v where "isdigit c" "scan s = ((TOKEN_NUMBER, Some v), dropWhile isdigit (c # r))"
        | t v where "is_ident_char c" "t \<notin> {TOKEN_EOF, TOKEN_ERROR}" "scan s = ((t, Some v), dropWhile is_ident_char (c # r))"
        | "scan s = ((TOKEN_ERROR, None), c # r)"
        by metis
      then show ?thesis
      proof cases
        case 1
        then show ?thesis using len string_span_shorter [of c r] by (auto split: prod.splits)
      next
        case (2 v)
        then show ?thesis using len dropWhile_shorter [of isdigit c r] by (simp del: dropWhile.simps)
      next
        case (3 t v)
        then show ?thesis using len dropWhile_shorter [of is_ident_char c r] by (simp del: dropWhile.simps)
      next
        case 4
        then show ?thesis using len by simp
      qed
    next
      case (Some x)
      then have "x \<in> set operator_table" by (metis find_Some_iff nth_mem)
      moreover have "scan s = ((snd x, None), drop (length (fst x)) (c # r))"
        using Some unfolding scan_def Let_def Cons list.case by (simp split: prod.split)
      ultimately show ?thesis using len by (auto simp: operator_table_def)
    qed
  qed
  then show "length (snd (scan s)) \<le> length s"
    "fst (fst (scan s)) \<notin> {TOKEN_EOF, TOKEN_ERROR} \<Longrightarrow> length (snd (scan s)) < length s"
    "fst (fst (scan s)) \<in> {TOKEN_FIELD, TOKEN_STRING, TOKEN_NUMBER} \<Longrightarrow> snd (fst (scan s)) \<noteq> None"
    by blast+
qed

text \<open>All the tokens of a text, up to and including the end or the first bad character.\<close>

function tokens :: "string \<Rightarrow> lexeme list" where
  "tokens s = (case scan s of (lx, r) \<Rightarrow>
     if fst lx \<in> {TOKEN_EOF, TOKEN_ERROR} then [lx] else lx # tokens r)"
  by pat_completeness auto
termination
  using scan_progress by (relation "measure length") (simp, metis fst_conv in_measure snd_conv)

declare tokens.simps [simp del]

text \<open>The tokens the parser has still to see, the current one included.\<close>

definition pending :: "lexer \<Rightarrow> lexeme list" where
  "pending l =
     (if fst (lx_lexeme l) \<in> {TOKEN_EOF, TOKEN_ERROR} then [lx_lexeme l]
      else lx_lexeme l # tokens (lx_rest l))"

lemma pending_hd: "pending l = lx_lexeme l # tl (pending l)"
  by (simp add: pending_def)

lemma pending_next:
  assumes "NUL \<notin> set (lx_input l)"
  shows "pending (lexer_next_token l) = tokens (lx_rest l)"
  unfolding pending_def tokens.simps [of "lx_rest l"] next_token_scan [OF assms, symmetric] prod.case
  by simp

lemma next_input:
  assumes "NUL \<notin> set (lx_input l)"
  shows "lx_input (lexer_next_token l) = lx_input l"
  using classify_keeps [of "lexer_start_token l"] start_token_rest [OF assms]
  by (simp add: lexer_next_token_def lx_keeps_def)

lemma pending_tl:
  "NUL \<notin> set (lx_input l) \<Longrightarrow> fst (lx_lexeme l) \<notin> {TOKEN_EOF, TOKEN_ERROR} \<Longrightarrow>
     pending (lexer_next_token l) = tl (pending l)"
  using pending_next [of l] by (auto simp: pending_def [of l])

lemma lexer_init_rest [simp]: "lx_rest (lexer_init s) = s" "lx_input (lexer_init s) = s"
  by (simp_all add: lexer_init_def lx_rest_def)

lemma lexer_init_tracks: "lx_tracks (lexer_init s)"
  by (simp add: lexer_init_def lx_tracks_def text_line_def text_column_def)

lemma pending_init: "NUL \<notin> set s \<Longrightarrow> pending (lexer_next_token (lexer_init s)) = tokens s"
  by (simp add: pending_next)

section \<open>Properties\<close>

lemma next_token_position:
  assumes "NUL \<notin> set (lx_input l)"
  shows "drop (tok_position (lx_current (lexer_next_token l))) (lx_input l) = dropWhile isspace (lx_rest l)"
proof -
  let ?m = "lexer_start_token l"
  have "tok_position (lx_current (lexer_next_token l)) = tok_position (lx_current ?m)"
    using classify_keeps [of ?m] by (simp add: lexer_next_token_def lx_keeps_def tok_place_def)
  moreover have "tok_position (lx_current ?m) = lx_position ?m"
    by (simp add: lexer_start_token_def Let_def)
  ultimately show ?thesis using start_token_rest [OF assms] by (simp add: lx_rest_def)
qed

text \<open>
  C16. Tokenising: on a C string the next token and the text after it are those of the reference
  scanner (operators by longest match from a table, words and numbers as longest prefixes,
  keywords in any case), and the recorded position is that of the first character that is not
  white space.
\<close>

theorem lexer_scans:
  assumes "NUL \<notin> set (lx_input l)"
  shows "(lx_lexeme (lexer_next_token l), lx_rest (lexer_next_token l)) = scan (lx_rest l) \<and>
    drop (tok_position (lx_current (lexer_next_token l))) (lx_input l) = dropWhile isspace (lx_rest l)"
  using next_token_scan [OF assms] next_token_position [OF assms] by simp

theorem lexer_scans_witness:
  "(lx_lexeme (lexer_next_token (lexer_init ''  >=1'')),
    lx_rest (lexer_next_token (lexer_init ''  >=1''))) = scan ''  >=1'' \<and>
   scan ''  >=1'' = ((TOKEN_GE, None), ''1'')"
  using lexer_scans [of "lexer_init ''  >=1''"] by (simp, code_simp)

text \<open>
  C22. Positions in messages: whatever the input, every token carries the line and column a reader
  would count for its position, and the position is inside the text.
\<close>

theorem token_location:
  "let t = lx_current ((lexer_next_token ^^ Suc n) (lexer_init s)) in
     tok_position t \<le> length s \<and> tok_line t = text_line s (tok_position t) \<and>
     tok_column t = text_column s (tok_position t)"
proof -
  have "lx_tracks ((lexer_next_token ^^ n) (lexer_init s)) \<and>
      lx_input ((lexer_next_token ^^ n) (lexer_init s)) = s" for n
    by (induction n) (simp_all add: lexer_init_tracks next_token_tracks)
  then show ?thesis
    using next_token_tracks(3) [of "(lexer_next_token ^^ n) (lexer_init s)"]
    by (auto simp: Let_def tok_place_def)
qed

definition plain :: "char \<Rightarrow> string \<Rightarrow> bool" where
  "plain q s \<longleftrightarrow> NUL \<notin> set s \<and> q \<notin> set s \<and> CHR 0x5C \<notin> set s"

lemma span_plain:
  assumes "plain q a" "r \<noteq> []"
  shows "string_span q (a @ r) = (let (n, r') = string_span q r in (length a + n, r'))"
  using assms(1)
proof (induction a)
  case (Cons c a)
  then have "c \<noteq> q" "c \<noteq> CHR 0x5C" "plain q a" by (auto simp: plain_def)
  moreover obtain d s where "a @ r = d # s" using assms(2) by (cases "a @ r") auto
  ultimately show ?case using Cons.IH by (simp add: Let_def split: prod.split)
qed simp

lemma scan_quoted:
  assumes "q \<in> {CHR 0x22, CHR 0x27}"
  shows "scan (q # r) = (case string_span q r of (n, r') \<Rightarrow> ((TOKEN_STRING, Some (take n r)), drop 1 r'))"
proof -
  have ws: "dropWhile isspace (q # r) = q # r" using assms by (auto simp: ctype_defs)
  have "find (\<lambda>(w, _). take (length w) (q # r) = w) operator_table = None"
    using assms by (elim insertE emptyE) (simp_all add: find_operator)
  then show ?thesis
    using assms unfolding scan_def Let_def ws list.case by (simp only: option.case insert_iff empty_iff simp_thms if_True)
qed

text \<open>
  C28. A quoted string without escapes is read back exactly: the value is the text between the
  quotes and scanning continues behind the closing quote.
\<close>

theorem string_token_plain:
  assumes "q \<in> {CHR 0x22, CHR 0x27}" "plain q body" "NUL \<notin> set rest"
  shows "lx_lexeme (lexer_next_token (lexer_init (q # body @ q # rest))) = (TOKEN_STRING, Some body) \<and>
    lx_rest (lexer_next_token (lexer_init (q # body @ q # rest))) = rest"
proof -
  have "NUL \<notin> set (q # body @ q # rest)" using assms by (auto simp: plain_def)
  moreover have "string_span q (q # rest) = (0, q # rest)" by (cases rest) simp_all
  ultimately show ?thesis
    using next_token_scan [of "lexer_init (q # body @ q # rest)"] scan_quoted [OF assms(1)]
      span_plain [OF assms(2), of "q # rest"] by auto
qed

theorem string_token_plain_witness:
  "lx_lexeme (lexer_next_token (lexer_init (CHR 0x22 # ''eth0'' @ CHR 0x22 # ''x''))) =
     (TOKEN_STRING, Some ''eth0'') \<and>
   lx_rest (lexer_next_token (lexer_init (CHR 0x22 # ''eth0'' @ CHR 0x22 # ''x''))) = ''x''"
  using string_token_plain [of "CHR 0x22" "''eth0''" "''x''"] by (simp add: plain_def)

text \<open>
  C32. Escapes are not decoded: for a string with one escaped quote the lexer finds the closing
  quote, but the value keeps the backslash and loses its last character.
\<close>

theorem string_token_escape:
  assumes "q \<in> {CHR 0x22, CHR 0x27}" "plain q a" "plain q b" "NUL \<notin> set rest"
  shows "lx_lexeme (lexer_next_token (lexer_init (q # a @ CHR 0x5C # q # b @ q # rest))) =
           (TOKEN_STRING, Some (butlast (a @ CHR 0x5C # q # b))) \<and>
    lx_rest (lexer_next_token (lexer_init (q # a @ CHR 0x5C # q # b @ q # rest))) = rest"
proof -
  have q: "q \<noteq> CHR 0x5C" using assms(1) by auto
  have nul: "NUL \<notin> set (q # a @ CHR 0x5C # q # b @ q # rest)" using assms by (auto simp: plain_def)
  have "string_span q (q # rest) = (0, q # rest)" by (cases rest) simp_all
  then have "string_span q (CHR 0x5C # q # b @ q # rest) = (Suc (length b), q # rest)"
    using span_plain [OF assms(3), of "q # rest"] q by simp
  then have "string_span q (a @ CHR 0x5C # q # b @ q # rest) = (length a + Suc (length b), q # rest)"
    using span_plain [OF assms(2), of "CHR 0x5C # q # b @ q # rest"] by simp
  moreover have "take (length a + Suc (length b)) (a @ CHR 0x5C # q # b @ q # rest) =
      butlast (a @ CHR 0x5C # q # b)"
    by (simp add: butlast_append butlast_conv_take take_Cons')
  ultimately show ?thesis
    using next_token_scan [of "lexer_init (q # a @ CHR 0x5C # q # b @ q # rest)"] nul
      scan_quoted [OF assms(1), of "a @ CHR 0x5C # q # b @ q # rest"] by simp
qed

theorem string_token_escape_witness:
  "lx_lexeme (lexer_next_token (lexer_init (CHR 0x22 # ''a'' @ CHR 0x5C # CHR 0x22 # ''bc'' @ CHR 0x22 # [])))
   = (TOKEN_STRING, Some (''a'' @ CHR 0x5C # CHR 0x22 # ''b''))"
  using string_token_escape [of "CHR 0x22" "''a''" "''bc''" "[]"] by (simp add: plain_def)

end
