(* ===== verification/Filter_Parser.thy ===== *)
theory Filter_Parser
  imports Filter_Lexer
begin

text \<open>
  The recursive descent parser of \<^verbatim>\<open>src/src/core/filter_parser.c\<close> and its public interface. The
  functions carry fuel because they call each other without a structural argument; the fuel
  given by \<^verbatim>\<open>filter_parse\<close> is shown to be enough for every expression. Allocation of AST nodes is
  taken to succeed, so a NULL node always comes with a recorded error.
\<close>

section \<open>Parser state\<close>

record filter_parse_error =
  pe_message :: string
  pe_position :: nat
  pe_line :: nat
  pe_column :: nat

record parser =
  ps_lexer :: lexer
  ps_error :: filter_parse_error
  ps_has_error :: bool

record filter_expr =
  fe_expression :: string
  fe_ast :: "filter_node option"
  fe_error :: filter_parse_error
  fe_valid :: bool

definition no_parse_error :: filter_parse_error where
  "no_parse_error = \<lparr>pe_message = [], pe_position = 0, pe_line = 0, pe_column = 0\<rparr>"

text \<open>\<open>snprintf\<close> into the 256 bytes of the message.\<close>

definition error_at :: "token \<Rightarrow> string \<Rightarrow> filter_parse_error" where
  "error_at t message =
     \<lparr>pe_message = take 255 message, pe_position = tok_position t, pe_line = tok_line t,
      pe_column = tok_column t\<rparr>"

definition set_error :: "parser \<Rightarrow> string \<Rightarrow> parser" where
  "set_error p message =
     (if ps_has_error p then p
      else p\<lparr>ps_error := error_at (lx_current (ps_lexer p)) message, ps_has_error := True\<rparr>)"

abbreviation cur_type :: "parser \<Rightarrow> token_type" where
  "cur_type p \<equiv> tok_type (lx_current (ps_lexer p))"

text \<open>The text of a token that has one.\<close>

definition cur_value :: "parser \<Rightarrow> string" where
  "cur_value p = (case tok_value (lx_current (ps_lexer p)) of Some v \<Rightarrow> v | None \<Rightarrow> [])"

definition next_token :: "parser \<Rightarrow> parser" where
  "next_token p = p\<lparr>ps_lexer := lexer_next_token (ps_lexer p)\<rparr>"

definition expect_token :: "parser \<Rightarrow> token_type \<Rightarrow> bool \<times> parser" where
  "expect_token p t =
     (if cur_type p \<noteq> t then (False, set_error p ''Unexpected token'') else (True, p))"

section \<open>Descent\<close>

definition cmp_op :: "token_type \<Rightarrow> filter_binary_type option" where
  "cmp_op t = (case t of
     TOKEN_EQ \<Rightarrow> Some FILTER_NODE_EQ | TOKEN_NE \<Rightarrow> Some FILTER_NODE_NE
   | TOKEN_LT \<Rightarrow> Some FILTER_NODE_LT | TOKEN_GT \<Rightarrow> Some FILTER_NODE_GT
   | TOKEN_LE \<Rightarrow> Some FILTER_NODE_LE | TOKEN_GE \<Rightarrow> Some FILTER_NODE_GE
   | TOKEN_MATCH \<Rightarrow> Some FILTER_NODE_MATCH | TOKEN_NMATCH \<Rightarrow> Some FILTER_NODE_NMATCH
   | TOKEN_IN \<Rightarrow> Some FILTER_NODE_IN | _ \<Rightarrow> None)"

text \<open>Outer option: fuel. Inner option: the node, NULL on a parse error.\<close>

type_synonym parse_result = "(filter_node option \<times> parser) option"

function parse_primary :: "nat \<Rightarrow> parser \<Rightarrow> parse_result"
  and parse_items :: "nat \<Rightarrow> filter_node list \<Rightarrow> parser \<Rightarrow> (filter_node list option \<times> parser) option"
  and parse_cmp_expr :: "nat \<Rightarrow> parser \<Rightarrow> parse_result"
  and parse_not_expr :: "nat \<Rightarrow> parser \<Rightarrow> parse_result"
  and parse_and_expr :: "nat \<Rightarrow> parser \<Rightarrow> parse_result"
  and parse_and_loop :: "nat \<Rightarrow> filter_node \<Rightarrow> parser \<Rightarrow> parse_result"
  and parse_or_expr :: "nat \<Rightarrow> parser \<Rightarrow> parse_result"
  and parse_or_loop :: "nat \<Rightarrow> filter_node \<Rightarrow> parser \<Rightarrow> parse_result"
  and parse_expr :: "nat \<Rightarrow> parser \<Rightarrow> parse_result" where
  "parse_primary 0 p = None"
| "parse_primary (Suc k) p =
     (if cur_type p = TOKEN_FIELD then
        Some (Some (FILTER_NODE_FIELD (parse_field_name (cur_value p))), next_token p)
      else if cur_type p = TOKEN_STRING then
        Some (Some (FILTER_NODE_STRING (cur_value p)), next_token p)
      else if cur_type p = TOKEN_NUMBER then
        Some (Some (FILTER_NODE_NUMBER (atoll (cur_value p))), next_token p)
      else if cur_type p = TOKEN_LPAREN then
        Option.bind (parse_expr k (next_token p)) (\<lambda>(node, p).
          case expect_token p TOKEN_RPAREN of
            (False, p) \<Rightarrow> Some (None, p)
          | (True, p) \<Rightarrow> Some (node, next_token p))
      else if cur_type p = TOKEN_LBRACKET then
        Option.bind (parse_items k [] (next_token p)) (\<lambda>(items, p).
          case items of None \<Rightarrow> Some (None, p)
          | Some items \<Rightarrow>
            (case expect_token p TOKEN_RBRACKET of
               (False, p) \<Rightarrow> Some (None, p)
             | (True, p) \<Rightarrow> Some (Some (FILTER_NODE_LIST items), next_token p)))
      else Some (None, set_error p (''Expected field, string, number, or '('' @ [CHR 0x27])))"
| "parse_items 0 items p = None"
| "parse_items (Suc k) items p =
     (if cur_type p \<noteq> TOKEN_RBRACKET \<and> cur_type p \<noteq> TOKEN_EOF then
        Option.bind (parse_primary k p) (\<lambda>(item, p).
          case item of None \<Rightarrow> Some (None, p)
          | Some item \<Rightarrow>
            parse_items k (items @ [item]) (if cur_type p = TOKEN_COMMA then next_token p else p))
      else Some (Some items, p))"
| "parse_cmp_expr 0 p = None"
| "parse_cmp_expr (Suc k) p =
     Option.bind (parse_primary k p) (\<lambda>(left, p).
       case left of None \<Rightarrow> Some (None, p)
       | Some left \<Rightarrow>
         (case cmp_op (cur_type p) of
            None \<Rightarrow> Some (Some left, p)
          | Some op \<Rightarrow>
            Option.bind (parse_primary k (next_token p)) (\<lambda>(right, p).
              case right of None \<Rightarrow> Some (None, p)
              | Some right \<Rightarrow> Some (Some (FILTER_NODE_BINARY op left right), p))))"
| "parse_not_expr 0 p = None"
| "parse_not_expr (Suc k) p =
     (if cur_type p = TOKEN_NOT then
        Option.bind (parse_not_expr k (next_token p)) (\<lambda>(operand, p).
          case operand of None \<Rightarrow> Some (None, p)
          | Some operand \<Rightarrow> Some (Some (FILTER_NODE_NOT operand), p))
      else parse_cmp_expr k p)"
| "parse_and_expr 0 p = None"
| "parse_and_expr (Suc k) p =
     Option.bind (parse_not_expr k p) (\<lambda>(left, p).
       case left of None \<Rightarrow> Some (None, p) | Some left \<Rightarrow> parse_and_loop k left p)"
| "parse_and_loop 0 left p = None"
| "parse_and_loop (Suc k) left p =
     (if cur_type p = TOKEN_AND then
        Option.bind (parse_not_expr k (next_token p)) (\<lambda>(right, p).
          case right of None \<Rightarrow> Some (None, p)
          | Some right \<Rightarrow> parse_and_loop k (FILTER_NODE_BINARY FILTER_NODE_AND left right) p)
      else Some (Some left, p))"
| "parse_or_expr 0 p = None"
| "parse_or_expr (Suc k) p =
     Option.bind (parse_and_expr k p) (\<lambda>(left, p).
       case left of None \<Rightarrow> Some (None, p) | Some left \<Rightarrow> parse_or_loop k left p)"
| "parse_or_loop 0 left p = None"
| "parse_or_loop (Suc k) left p =
     (if cur_type p = TOKEN_OR then
        Option.bind (parse_and_expr k (next_token p)) (\<lambda>(right, p).
          case right of None \<Rightarrow> Some (None, p)
          | Some right \<Rightarrow> parse_or_loop k (FILTER_NODE_BINARY FILTER_NODE_OR left right) p)
      else Some (Some left, p))"
| "parse_expr 0 p = None"
| "parse_expr (Suc k) p = parse_or_expr k p"
  by pat_completeness auto
termination
  by (relation "measure (case_sum (case_sum (case_sum fst fst) (case_sum fst fst))
        (case_sum (case_sum fst fst) (case_sum fst (case_sum fst fst))))") simp_all

lemmas parse_zero = parse_primary.simps(1) parse_items.simps(1) parse_cmp_expr.simps(1)
  parse_not_expr.simps(1) parse_and_expr.simps(1) parse_and_loop.simps(1) parse_or_expr.simps(1)
  parse_or_loop.simps(1) parse_expr.simps(1)

lemmas parse_Suc = parse_primary.simps(2) parse_items.simps(2) parse_cmp_expr.simps(2)
  parse_not_expr.simps(2) parse_and_expr.simps(2) parse_and_loop.simps(2) parse_or_expr.simps(2)
  parse_or_loop.simps(2) parse_expr.simps(2)

declare parse_primary.simps [simp del] parse_items.simps [simp del] parse_cmp_expr.simps [simp del]
  parse_not_expr.simps [simp del] parse_and_expr.simps [simp del] parse_and_loop.simps [simp del]
  parse_or_expr.simps [simp del] parse_or_loop.simps [simp del] parse_expr.simps [simp del]

section \<open>Public interface\<close>

text \<open>Eight calls per token and a few for the end are enough, see below.\<close>

definition parse_fuel :: "string \<Rightarrow> nat" where
  "parse_fuel expression = 8 * length expression + 16"

definition filter_parse :: "string option \<Rightarrow> filter_expr option" where
  "filter_parse expression =
     (case expression of None \<Rightarrow> None
      | Some s \<Rightarrow>
        let p = \<lparr>ps_lexer = lexer_next_token (lexer_init s), ps_error = no_parse_error,
                 ps_has_error = False\<rparr>;
            expr = \<lparr>fe_expression = s, fe_ast = None, fe_error = no_parse_error, fe_valid = False\<rparr>
        in (case parse_expr (parse_fuel s) p of None \<Rightarrow> None
            | Some (ast, p) \<Rightarrow>
              let expr = expr\<lparr>fe_ast := ast\<rparr> in
              Some (if ps_has_error p then expr\<lparr>fe_error := ps_error p, fe_valid := False\<rparr>
                    else if cur_type p \<noteq> TOKEN_EOF then
                      expr\<lparr>fe_error := error_at (lx_current (ps_lexer p))
                             ''Unexpected token at end of expression'', fe_valid := False\<rparr>
                    else expr\<lparr>fe_valid := True\<rparr>)))"

text \<open>The result and what is written to the caller's error structure, if anything.\<close>

definition filter_validate :: "string option \<Rightarrow> bool \<times> filter_parse_error option" where
  "filter_validate expression =
     (case filter_parse expression of None \<Rightarrow> (False, None)
      | Some expr \<Rightarrow> (fe_valid expr, if fe_valid expr then None else Some (fe_error expr)))"

text \<open>The return value of \<open>snprintf\<close> is the full length; the buffer gets what fits.\<close>

definition filter_expr_to_string :: "filter_expr option \<Rightarrow> nat \<Rightarrow> nat \<times> string" where
  "filter_expr_to_string expr sz =
     (case expr of None \<Rightarrow> (0, [])
      | Some e \<Rightarrow> if sz = 0 then (0, [])
                  else (length (fe_expression e), take (sz - 1) (fe_expression e)))"

section \<open>More fuel never changes a result\<close>

definition le_opt :: "'a option \<Rightarrow> 'a option \<Rightarrow> bool" where
  "le_opt a b \<longleftrightarrow> a = None \<or> a = b"

lemma le_opt_simps [simp]: "le_opt None b" "le_opt a a" "le_opt (Some x) b \<longleftrightarrow> b = Some x"
  by (auto simp: le_opt_def)

lemma le_opt_bind: "le_opt a b \<Longrightarrow> (\<And>x. le_opt (f x) (g x)) \<Longrightarrow> le_opt (Option.bind a f) (Option.bind b g)"
  by (cases a) simp_all

lemma le_opt_cases:
  "(\<And>x y. z = (x, y) \<Longrightarrow> le_opt (f x y) (g x y)) \<Longrightarrow> le_opt (case z of (x, y) \<Rightarrow> f x y) (case z of (x, y) \<Rightarrow> g x y)"
  "le_opt u v \<Longrightarrow> (\<And>x. le_opt (h x) (k x)) \<Longrightarrow>
     le_opt (case m of None \<Rightarrow> u | Some x \<Rightarrow> h x) (case m of None \<Rightarrow> v | Some x \<Rightarrow> k x)"
  "le_opt s t \<Longrightarrow> le_opt s' t' \<Longrightarrow> le_opt (if b then s else s') (if b then t else t')"
  by (auto split: prod.splits option.splits)

lemmas le_opt_intros = le_opt_cases le_opt_bind

text \<open>Every function, with fuel \<open>k\<close>, returns nothing or what it returns with fuel \<open>k'\<close>.\<close>

definition fuel_le :: "nat \<Rightarrow> nat \<Rightarrow> bool" where
  "fuel_le k k' \<longleftrightarrow>
     (\<forall>p. le_opt (parse_primary k p) (parse_primary k' p)) \<and>
     (\<forall>i p. le_opt (parse_items k i p) (parse_items k' i p)) \<and>
     (\<forall>p. le_opt (parse_cmp_expr k p) (parse_cmp_expr k' p)) \<and>
     (\<forall>p. le_opt (parse_not_expr k p) (parse_not_expr k' p)) \<and>
     (\<forall>p. le_opt (parse_and_expr k p) (parse_and_expr k' p)) \<and>
     (\<forall>l p. le_opt (parse_and_loop k l p) (parse_and_loop k' l p)) \<and>
     (\<forall>p. le_opt (parse_or_expr k p) (parse_or_expr k' p)) \<and>
     (\<forall>l p. le_opt (parse_or_loop k l p) (parse_or_loop k' l p)) \<and>
     (\<forall>p. le_opt (parse_expr k p) (parse_expr k' p))"

lemma fuel_leD:
  assumes "fuel_le k k'"
  shows "le_opt (parse_primary k p) (parse_primary k' p)"
    "le_opt (parse_items k i p) (parse_items k' i p)"
    "le_opt (parse_cmp_expr k p) (parse_cmp_expr k' p)"
    "le_opt (parse_not_expr k p) (parse_not_expr k' p)"
    "le_opt (parse_and_expr k p) (parse_and_expr k' p)"
    "le_opt (parse_and_loop k l p) (parse_and_loop k' l p)"
    "le_opt (parse_or_expr k p) (parse_or_expr k' p)"
    "le_opt (parse_or_loop k l p) (parse_or_loop k' l p)"
    "le_opt (parse_expr k p) (parse_expr k' p)"
  using assms by (simp_all add: fuel_le_def)

lemma fuel_le_Suc: "fuel_le k k' \<Longrightarrow> fuel_le (Suc k) (Suc k')"
  unfolding fuel_le_def [of "Suc k" "Suc k'"] parse_Suc
  by (intro conjI allI le_opt_intros fuel_leD le_opt_simps(2))

lemma fuel_le_mono: "k \<le> k' \<Longrightarrow> fuel_le k k'"
proof (induction k arbitrary: k')
  case 0
  then show ?case by (simp add: fuel_le_def parse_zero)
next
  case (Suc k)
  then obtain j where "k' = Suc j" by (cases k') auto
  then show ?case using Suc by (simp add: fuel_le_Suc)
qed

lemma more_fuel: "le_opt a b \<Longrightarrow> a = Some x \<Longrightarrow> b = Some x"
  by simp

lemmas parse_more_fuel = more_fuel [OF fuel_leD(1) [OF fuel_le_mono]] more_fuel [OF fuel_leD(2) [OF fuel_le_mono]]
  more_fuel [OF fuel_leD(3) [OF fuel_le_mono]] more_fuel [OF fuel_leD(4) [OF fuel_le_mono]]
  more_fuel [OF fuel_leD(5) [OF fuel_le_mono]] more_fuel [OF fuel_leD(6) [OF fuel_le_mono]]
  more_fuel [OF fuel_leD(7) [OF fuel_le_mono]] more_fuel [OF fuel_leD(8) [OF fuel_le_mono]]
  more_fuel [OF fuel_leD(9) [OF fuel_le_mono]]

section \<open>The grammar\<close>

text \<open>
  The language as a relation: \<open>g_or ts n ts'\<close> says that some prefix of the tokens \<open>ts\<close> is an
  or-expression with tree \<open>n\<close> and \<open>ts'\<close> is what follows. There is no lookahead and no preference
  between the rules; binary operators are left associative.
\<close>

inductive g_prim :: "lexeme list \<Rightarrow> filter_node \<Rightarrow> lexeme list \<Rightarrow> bool"
  and g_items :: "lexeme list \<Rightarrow> filter_node list \<Rightarrow> lexeme list \<Rightarrow> bool"
  and g_cmp :: "lexeme list \<Rightarrow> filter_node \<Rightarrow> lexeme list \<Rightarrow> bool"
  and g_not :: "lexeme list \<Rightarrow> filter_node \<Rightarrow> lexeme list \<Rightarrow> bool"
  and g_and :: "lexeme list \<Rightarrow> filter_node \<Rightarrow> lexeme list \<Rightarrow> bool"
  and g_and_rest :: "filter_node \<Rightarrow> lexeme list \<Rightarrow> filter_node \<Rightarrow> lexeme list \<Rightarrow> bool"
  and g_or :: "lexeme list \<Rightarrow> filter_node \<Rightarrow> lexeme list \<Rightarrow> bool"
  and g_or_rest :: "filter_node \<Rightarrow> lexeme list \<Rightarrow> filter_node \<Rightarrow> lexeme list \<Rightarrow> bool" where
  field: "g_prim ((TOKEN_FIELD, Some w) # ts) (FILTER_NODE_FIELD (parse_field_name w)) ts"
| string: "g_prim ((TOKEN_STRING, Some w) # ts) (FILTER_NODE_STRING w) ts"
| number: "g_prim ((TOKEN_NUMBER, Some w) # ts) (FILTER_NODE_NUMBER (atoll w)) ts"
| paren: "g_or ts n ((TOKEN_RPAREN, v') # ts') \<Longrightarrow> g_prim ((TOKEN_LPAREN, v) # ts) n ts'"
| list: "g_items ts ns ((TOKEN_RBRACKET, v') # ts') \<Longrightarrow>
    g_prim ((TOKEN_LBRACKET, v) # ts) (FILTER_NODE_LIST ns) ts'"
| items_end: "g_items ts [] ts"
| items_next: "g_prim ts n ts1 \<Longrightarrow> g_items ts1 ns ts2 \<Longrightarrow> g_items ts (n # ns) ts2"
| items_comma: "g_prim ts n ((TOKEN_COMMA, v) # ts1) \<Longrightarrow> g_items ts1 ns ts2 \<Longrightarrow> g_items ts (n # ns) ts2"
| alone: "g_prim ts n ts' \<Longrightarrow> g_cmp ts n ts'"
| compare: "g_prim ts a ((t, v) # ts1) \<Longrightarrow> cmp_op t = Some b \<Longrightarrow> g_prim ts1 c ts2 \<Longrightarrow>
    g_cmp ts (FILTER_NODE_BINARY b a c) ts2"
| unnegated: "g_cmp ts n ts' \<Longrightarrow> g_not ts n ts'"
| negated: "g_not ts n ts' \<Longrightarrow> g_not ((TOKEN_NOT, v) # ts) (FILTER_NODE_NOT n) ts'"
| conj: "g_not ts a ts1 \<Longrightarrow> g_and_rest a ts1 n ts2 \<Longrightarrow> g_and ts n ts2"
| conj_end: "g_and_rest a ts a ts"
| conj_more: "g_not ts b ts1 \<Longrightarrow> g_and_rest (FILTER_NODE_BINARY FILTER_NODE_AND a b) ts1 n ts2 \<Longrightarrow>
    g_and_rest a ((TOKEN_AND, v) # ts) n ts2"
| disj: "g_and ts a ts1 \<Longrightarrow> g_or_rest a ts1 n ts2 \<Longrightarrow> g_or ts n ts2"
| disj_end: "g_or_rest a ts a ts"
| disj_more: "g_and ts b ts1 \<Longrightarrow> g_or_rest (FILTER_NODE_BINARY FILTER_NODE_OR a b) ts1 n ts2 \<Longrightarrow>
    g_or_rest a ((TOKEN_OR, v) # ts) n ts2"

section \<open>The parser accepts only the grammar\<close>

text \<open>A parser on a C string, and the tokens in front of it.\<close>

definition on_text :: "parser \<Rightarrow> bool" where
  "on_text p \<longleftrightarrow> NUL \<notin> set (lx_input (ps_lexer p)) \<and>
     (cur_type p \<in> {TOKEN_FIELD, TOKEN_STRING, TOKEN_NUMBER} \<longrightarrow>
        tok_value (lx_current (ps_lexer p)) \<noteq> None)"

definition ahead :: "parser \<Rightarrow> lexeme list" where
  "ahead p = pending (ps_lexer p)"

lemma ahead_hd: "ahead p = (cur_type p, tok_value (lx_current (ps_lexer p))) # tl (ahead p)"
  using pending_hd [of "ps_lexer p"] by (simp add: ahead_def lx_lexeme_def)

lemma on_text_next: assumes "on_text p" shows "on_text (next_token p)"
proof -
  have nul: "NUL \<notin> set (lx_input (ps_lexer p))" using assms by (simp add: on_text_def)
  have "scan (lx_rest (ps_lexer p)) = (lx_lexeme (lexer_next_token (ps_lexer p)),
      lx_rest (lexer_next_token (ps_lexer p)))"
    using next_token_scan [OF nul] by simp
  then show ?thesis
    using scan_value [of "lx_rest (ps_lexer p)"] next_input [OF nul] nul
    by (simp add: on_text_def next_token_def lx_lexeme_def)
qed

lemma ahead_next:
  "on_text p \<Longrightarrow> cur_type p \<notin> {TOKEN_EOF, TOKEN_ERROR} \<Longrightarrow> ahead (next_token p) = tl (ahead p)"
  using pending_tl [of "ps_lexer p"] by (simp add: ahead_def next_token_def on_text_def lx_lexeme_def)

lemma ahead_split:
  "on_text p \<Longrightarrow> cur_type p \<notin> {TOKEN_EOF, TOKEN_ERROR} \<Longrightarrow>
     ahead p = (cur_type p, tok_value (lx_current (ps_lexer p))) # ahead (next_token p)"
  using ahead_hd [of p] ahead_next [of p] by simp

lemma cur_value_Some:
  "on_text p \<Longrightarrow> cur_type p \<in> {TOKEN_FIELD, TOKEN_STRING, TOKEN_NUMBER} \<Longrightarrow>
     tok_value (lx_current (ps_lexer p)) = Some (cur_value p)"
  by (auto simp: on_text_def cur_value_def)

lemma parser_frame [simp]:
  "ps_lexer (set_error p m) = ps_lexer p" "ps_has_error (set_error p m)"
  "ps_has_error (next_token p) = ps_has_error p" "ps_error (next_token p) = ps_error p"
  "ahead (set_error p m) = ahead p" "on_text (set_error p m) = on_text p"
  by (simp_all add: set_error_def next_token_def ahead_def on_text_def)

text \<open>What a call that returned tells: a node is in the grammar, NULL leaves an error.\<close>

definition parsed :: "(lexeme list \<Rightarrow> 'n \<Rightarrow> lexeme list \<Rightarrow> bool) \<Rightarrow> parser \<Rightarrow> ('n option \<times> parser) option \<Rightarrow> bool" where
  "parsed G p r \<longleftrightarrow> (on_text p \<longrightarrow> (case r of None \<Rightarrow> True
     | Some (None, p') \<Rightarrow> on_text p' \<and> ps_has_error p'
     | Some (Some n, p') \<Rightarrow> on_text p' \<and> G (ahead p) n (ahead p') \<and>
         ps_has_error p' = ps_has_error p \<and> ps_error p' = ps_error p))"

lemma parsed_bind:
  assumes "parsed G p r"
    and "\<And>p'. on_text p \<Longrightarrow> on_text p' \<Longrightarrow> ps_has_error p' \<Longrightarrow> parsed H p (f (None, p'))"
    and "\<And>n p'. on_text p \<Longrightarrow> on_text p' \<Longrightarrow> G (ahead p) n (ahead p') \<Longrightarrow> ps_has_error p' = ps_has_error p \<Longrightarrow>
      ps_error p' = ps_error p \<Longrightarrow> parsed H p (f (Some n, p'))"
  shows "parsed H p (Option.bind r f)"
proof (cases "on_text p \<and> r \<noteq> None")
  case True
  then obtain m p' where r: "r = Some (m, p')" by auto
  then show ?thesis using True assms by (cases m) (simp_all add: parsed_def)
next
  case False
  then show ?thesis by (cases r) (auto simp: parsed_def)
qed

lemma parsed_mono:
  assumes "parsed G p' r" "on_text p \<Longrightarrow> on_text p'" "ps_has_error p' = ps_has_error p" "ps_error p' = ps_error p"
    and "\<And>n ts. on_text p \<Longrightarrow> G (ahead p') n ts \<Longrightarrow> H (ahead p) n ts"
  shows "parsed H p r"
  using assms by (auto simp: parsed_def split: option.splits)

lemma parsed_None [simp]: "parsed G p None"
  by (simp add: parsed_def)

lemma parsed_error: "on_text p' \<Longrightarrow> ps_has_error p' \<Longrightarrow> parsed G p (Some (None, p'))"
  by (simp add: parsed_def)

lemma parsed_node:
  "(on_text p \<Longrightarrow> on_text p' \<and> G (ahead p) n (ahead p') \<and> ps_has_error p' = ps_has_error p \<and> ps_error p' = ps_error p)
     \<Longrightarrow> parsed G p (Some (Some n, p'))"
  by (simp add: parsed_def)

definition sound_at :: "nat \<Rightarrow> bool" where
  "sound_at k \<longleftrightarrow>
     (\<forall>p. parsed g_prim p (parse_primary k p)) \<and>
     (\<forall>is p. parsed (\<lambda>ts ns ts'. \<exists>ms. ns = is @ ms \<and> g_items ts ms ts') p (parse_items k is p)) \<and>
     (\<forall>p. parsed g_cmp p (parse_cmp_expr k p)) \<and>
     (\<forall>p. parsed g_not p (parse_not_expr k p)) \<and>
     (\<forall>p. parsed g_and p (parse_and_expr k p)) \<and>
     (\<forall>l p. parsed (g_and_rest l) p (parse_and_loop k l p)) \<and>
     (\<forall>p. parsed g_or p (parse_or_expr k p)) \<and>
     (\<forall>l p. parsed (g_or_rest l) p (parse_or_loop k l p)) \<and>
     (\<forall>p. parsed g_or p (parse_expr k p))"

lemma sound_atD:
  assumes "sound_at k"
  shows "parsed g_prim p (parse_primary k p)"
    "parsed (\<lambda>ts ns ts'. \<exists>ms. ns = is @ ms \<and> g_items ts ms ts') p (parse_items k is p)"
    "parsed g_cmp p (parse_cmp_expr k p)" "parsed g_not p (parse_not_expr k p)"
    "parsed g_and p (parse_and_expr k p)" "parsed (g_and_rest l) p (parse_and_loop k l p)"
    "parsed g_or p (parse_or_expr k p)" "parsed (g_or_rest l) p (parse_or_loop k l p)"
    "parsed g_or p (parse_expr k p)"
  using assms by (simp_all add: sound_at_def)

lemma parsed_next:
  assumes "parsed H (next_token p) r" "cur_type p = t" "t \<notin> {TOKEN_EOF, TOKEN_ERROR}"
    and "\<And>n ts'. H (ahead (next_token p)) n ts' \<Longrightarrow>
      G ((t, tok_value (lx_current (ps_lexer p))) # ahead (next_token p)) n ts'"
  shows "parsed G p r"
proof (rule parsed_mono [OF assms(1)])
  fix n ts assume "on_text p" "H (ahead (next_token p)) n ts"
  then show "G (ahead p) n ts" using assms(2-4) ahead_split [of p] by simp
qed (simp_all add: on_text_next)

lemma sound_loops:
  assumes "sound_at k"
  shows "parsed (g_and_rest l) p (parse_and_loop (Suc k) l p)"
    "parsed (g_or_rest l) p (parse_or_loop (Suc k) l p)"
proof -
  note IH = sound_atD [OF assms]
  show "parsed (g_and_rest l) p (parse_and_loop (Suc k) l p)"
  proof (cases "cur_type p = TOKEN_AND")
    case True
    have "parsed (\<lambda>ts n ts'. g_and_rest l ((TOKEN_AND, v) # ts) n ts') (next_token p)
        (parse_and_loop (Suc k) l p)" for v
      unfolding parse_Suc using True
      by simp (rule parsed_bind [OF IH(4)];
        auto intro: parsed_error parsed_mono [OF IH(6)] conj_more)
    then show ?thesis by (rule parsed_next [OF _ True]) simp_all
  next
    case False
    then show ?thesis by (simp add: parse_Suc parsed_node conj_end)
  qed
  show "parsed (g_or_rest l) p (parse_or_loop (Suc k) l p)"
  proof (cases "cur_type p = TOKEN_OR")
    case True
    have "parsed (\<lambda>ts n ts'. g_or_rest l ((TOKEN_OR, v) # ts) n ts') (next_token p)
        (parse_or_loop (Suc k) l p)" for v
      unfolding parse_Suc using True
      by simp (rule parsed_bind [OF IH(5)];
        auto intro: parsed_error parsed_mono [OF IH(8)] disj_more)
    then show ?thesis by (rule parsed_next [OF _ True]) simp_all
  next
    case False
    then show ?thesis by (simp add: parse_Suc parsed_node disj_end)
  qed
qed

lemma sound_exprs:
  assumes "sound_at k"
  shows "parsed g_and p (parse_and_expr (Suc k) p)" "parsed g_or p (parse_or_expr (Suc k) p)"
    "parsed g_or p (parse_expr (Suc k) p)" "parsed g_not p (parse_not_expr (Suc k) p)"
    "parsed g_cmp p (parse_cmp_expr (Suc k) p)"
proof -
  note IH = sound_atD [OF assms]
  show "parsed g_and p (parse_and_expr (Suc k) p)"
    unfolding parse_Suc
    by (rule parsed_bind [OF IH(4)])
      (auto intro: parsed_error parsed_mono [OF IH(6)] conj)
  show "parsed g_or p (parse_or_expr (Suc k) p)"
    unfolding parse_Suc
    by (rule parsed_bind [OF IH(5)])
      (auto intro: parsed_error parsed_mono [OF IH(8)] disj)
  show "parsed g_or p (parse_expr (Suc k) p)"
    unfolding parse_Suc by (rule IH)
  show "parsed g_not p (parse_not_expr (Suc k) p)"
  proof (cases "cur_type p = TOKEN_NOT")
    case True
    have "parsed (\<lambda>ts n ts'. g_not ((TOKEN_NOT, v) # ts) n ts') (next_token p)
        (parse_not_expr (Suc k) p)" for v
      unfolding parse_Suc using True
      by simp (rule parsed_bind [OF IH(4)]; auto intro: parsed_error parsed_node negated)
    then show ?thesis by (rule parsed_next [OF _ True]) simp_all
  next
    case False
    then show ?thesis
      unfolding parse_Suc by simp (rule parsed_mono [OF IH(3)]; simp add: unnegated)
  qed
  show "parsed g_cmp p (parse_cmp_expr (Suc k) p)"
    unfolding parse_Suc
  proof (rule parsed_bind [OF IH(1)])
    fix l q
    assume q: "on_text p" "on_text q" "g_prim (ahead p) l (ahead q)" "ps_has_error q = ps_has_error p"
      "ps_error q = ps_error p"
    let ?v = "tok_value (lx_current (ps_lexer q))"
    show "parsed g_cmp p ((\<lambda>(left, p).
       case left of None \<Rightarrow> Some (None, p)
       | Some left \<Rightarrow>
         (case cmp_op (cur_type p) of
            None \<Rightarrow> Some (Some left, p)
          | Some op \<Rightarrow>
            Option.bind (parse_primary k (next_token p)) (\<lambda>(right, p).
              case right of None \<Rightarrow> Some (None, p)
              | Some right \<Rightarrow> Some (Some (FILTER_NODE_BINARY op left right), p)))) (Some l, q))"
    proof (cases "cmp_op (cur_type q)")
      case None
      then show ?thesis using q by (simp add: parsed_node alone)
    next
      case (Some b)
      have eof: "cur_type q \<notin> {TOKEN_EOF, TOKEN_ERROR}" using Some by (auto simp: cmp_op_def)
      have "g_prim (ahead p) l ((cur_type q, ?v) # ahead (next_token q))"
        using q ahead_split [OF _ eof] by simp
      then have "g_cmp (ahead p) (FILTER_NODE_BINARY b l r) ts'"
        if "g_prim (ahead (next_token q)) r ts'" for r ts'
        using compare Some that by blast
      moreover have "parsed (\<lambda>ts r ts'. ts = ahead (next_token q) \<and> g_prim ts r ts') (next_token q)
          (parse_primary k (next_token q))"
        by (rule parsed_mono [OF IH(1)]) simp_all
      ultimately have "parsed (\<lambda>ts n ts'. g_cmp (ahead p) n ts') (next_token q)
          (Option.bind (parse_primary k (next_token q)) (\<lambda>(right, p).
              case right of None \<Rightarrow> Some (None, p)
              | Some right \<Rightarrow> Some (Some (FILTER_NODE_BINARY b l right), p)))"
        by (elim parsed_bind) (auto intro: parsed_error parsed_node)
      then show ?thesis using Some q on_text_next [OF q(2)] by (simp, elim parsed_mono) simp_all
    qed
  qed (simp add: parsed_error)
qed

lemma sound_items:
  assumes "sound_at k"
  shows "parsed (\<lambda>ts ns ts'. \<exists>ms. ns = is @ ms \<and> g_items ts ms ts') p (parse_items (Suc k) is p)"
proof (cases "cur_type p \<noteq> TOKEN_RBRACKET \<and> cur_type p \<noteq> TOKEN_EOF")
  case True
  note IH = sound_atD [OF assms]
  let ?skip = "\<lambda>q. if cur_type q = TOKEN_COMMA then next_token q else q"
  let ?G = "\<lambda>ts ns ts'. \<exists>ms. ns = is @ ms \<and> g_items ts ms ts'"
  have "parsed ?G p (parse_items k (is @ [n]) (?skip q))"
    if q: "on_text p" "on_text q" "g_prim (ahead p) n (ahead q)" "ps_has_error q = ps_has_error p"
      "ps_error q = ps_error p" for n q
  proof (rule parsed_mono [OF IH(2)])
    fix ns ts
    assume "\<exists>ms. ns = (is @ [n]) @ ms \<and> g_items (ahead (?skip q)) ms ts"
    then obtain ms where ms: "ns = is @ n # ms" "g_items (ahead (?skip q)) ms ts" by auto
    have "g_items (ahead p) (n # ms) ts"
    proof (cases "cur_type q = TOKEN_COMMA")
      case True
      then show ?thesis using q ms ahead_split [of q] by (auto intro: items_comma)
    next
      case False
      then show ?thesis using q ms by (auto intro: items_next)
    qed
    then show "\<exists>ms. ns = is @ ms \<and> g_items (ahead p) ms ts" using ms by auto
  qed (use q on_text_next in auto)
  then show ?thesis
    unfolding parse_Suc using True
    by simp (rule parsed_bind [OF IH(1)]; simp add: parsed_error)
next
  case False
  then show ?thesis by (auto simp: parse_Suc intro!: parsed_node items_end)
qed

lemma sound_primary:
  assumes "sound_at k"
  shows "parsed g_prim p (parse_primary (Suc k) p)"
proof -
  note IH = sound_atD [OF assms]
  let ?v = "tok_value (lx_current (ps_lexer p))"
  consider (lit) "cur_type p \<in> {TOKEN_FIELD, TOKEN_STRING, TOKEN_NUMBER}"
    | (paren) "cur_type p = TOKEN_LPAREN" | (list) "cur_type p = TOKEN_LBRACKET"
    | (bad) "cur_type p \<notin> {TOKEN_FIELD, TOKEN_STRING, TOKEN_NUMBER, TOKEN_LPAREN, TOKEN_LBRACKET}"
    by auto
  then show ?thesis
  proof cases
    case lit
    then show ?thesis
      using ahead_split [of p] on_text_next [of p] cur_value_Some [of p]
      by (auto simp: parse_Suc intro!: parsed_node intro: field string number)
  next
    case paren
    have "parsed (\<lambda>ts n ts'. g_prim ((TOKEN_LPAREN, v) # ts) n ts') (next_token p)
        (parse_primary (Suc k) p)" for v
      unfolding parse_Suc using paren
      by simp (rule parsed_bind [OF IH(9)];
        auto simp: expect_token_def ahead_split intro!: parsed_error parsed_node on_text_next intro: g_prim_g_items_g_cmp_g_not_g_and_g_and_rest_g_or_g_or_rest.paren)
    then show ?thesis by (rule parsed_next [OF _ paren]) simp_all
  next
    case list
    have "parsed (\<lambda>ts n ts'. g_prim ((TOKEN_LBRACKET, v) # ts) n ts') (next_token p)
        (parse_primary (Suc k) p)" for v
      unfolding parse_Suc using list
      by simp (rule parsed_bind [OF IH(2)];
        auto simp: expect_token_def ahead_split intro!: parsed_error parsed_node on_text_next intro: g_prim_g_items_g_cmp_g_not_g_and_g_and_rest_g_or_g_or_rest.list)
    then show ?thesis by (rule parsed_next [OF _ list]) simp_all
  next
    case bad
    then have "parse_primary (Suc k) p =
        Some (None, set_error p (''Expected field, string, number, or '('' @ [CHR 0x27]))"
      by (simp add: parse_Suc)
    then show ?thesis by (auto simp: parsed_def)
  qed
qed

lemma parser_sound: "sound_at k"
proof (induction k)
  case 0
  then show ?case by (simp add: sound_at_def parse_zero)
next
  case (Suc k)
  then show ?case
    unfolding sound_at_def [of "Suc k"] by (intro conjI allI sound_primary sound_items sound_exprs sound_loops)
qed

section \<open>The fuel is enough\<close>

lemma grammar_shorter:
  "g_prim ts n ts' \<Longrightarrow> length ts' < length ts"
  "g_items ts ns ts' \<Longrightarrow> length ts' \<le> length ts"
  "g_cmp ts n ts' \<Longrightarrow> length ts' < length ts"
  "g_not ts n ts' \<Longrightarrow> length ts' < length ts"
  "g_and ts n ts' \<Longrightarrow> length ts' < length ts"
  "g_and_rest a ts n ts' \<Longrightarrow> length ts' \<le> length ts"
  "g_or ts n ts' \<Longrightarrow> length ts' < length ts"
  "g_or_rest a ts n ts' \<Longrightarrow> length ts' \<le> length ts"
  by (induction rule: g_prim_g_items_g_cmp_g_not_g_and_g_and_rest_g_or_g_or_rest.inducts) auto

lemma parsed_progress:
  assumes "parsed G p (Some (Some n, p'))" "on_text p"
  shows "on_text p'" "G (ahead p) n (ahead p')"
  using assms by (auto simp: parsed_def)

lemma primary_progress:
  "parse_primary k p = Some (Some n, p') \<Longrightarrow> on_text p \<Longrightarrow> on_text p' \<and> length (ahead p') < length (ahead p)"
  using sound_atD(1) [OF parser_sound, of p k] parsed_progress grammar_shorter(1) by metis

lemma not_progress:
  "parse_not_expr k p = Some (Some n, p') \<Longrightarrow> on_text p \<Longrightarrow> on_text p' \<and> length (ahead p') < length (ahead p)"
  using sound_atD(4) [OF parser_sound, of p k] parsed_progress grammar_shorter(4) by metis

lemma and_progress:
  "parse_and_expr k p = Some (Some n, p') \<Longrightarrow> on_text p \<Longrightarrow> on_text p' \<and> length (ahead p') < length (ahead p)"
  using sound_atD(5) [OF parser_sound, of p k] parsed_progress grammar_shorter(5) by metis

lemma next_shorter:
  "on_text p \<Longrightarrow> cur_type p \<notin> {TOKEN_EOF, TOKEN_ERROR} \<Longrightarrow> length (ahead p) = Suc (length (ahead (next_token p)))"
  using ahead_split [of p] by simp

definition fed :: "nat \<Rightarrow> parser \<Rightarrow> bool" where
  "fed k p \<longleftrightarrow>
     (\<forall>j \<ge> k + 1. parse_primary j p \<noteq> None) \<and> (\<forall>j \<ge> k + 2. \<forall>is. parse_items j is p \<noteq> None) \<and>
     (\<forall>j \<ge> k + 2. parse_cmp_expr j p \<noteq> None) \<and> (\<forall>j \<ge> k + 3. parse_not_expr j p \<noteq> None) \<and>
     (\<forall>j \<ge> k + 4. parse_and_expr j p \<noteq> None) \<and> (\<forall>j \<ge> k + 1. \<forall>l. parse_and_loop j l p \<noteq> None) \<and>
     (\<forall>j \<ge> k + 5. parse_or_expr j p \<noteq> None) \<and> (\<forall>j \<ge> k + 1. \<forall>l. parse_or_loop j l p \<noteq> None) \<and>
     (\<forall>j \<ge> k + 6. parse_expr j p \<noteq> None)"

lemma fedD:
  assumes "fed k p"
  shows "k + 1 \<le> j \<Longrightarrow> parse_primary j p \<noteq> None" "k + 2 \<le> j \<Longrightarrow> parse_items j is p \<noteq> None"
    "k + 2 \<le> j \<Longrightarrow> parse_cmp_expr j p \<noteq> None" "k + 3 \<le> j \<Longrightarrow> parse_not_expr j p \<noteq> None"
    "k + 4 \<le> j \<Longrightarrow> parse_and_expr j p \<noteq> None" "k + 1 \<le> j \<Longrightarrow> parse_and_loop j l p \<noteq> None"
    "k + 5 \<le> j \<Longrightarrow> parse_or_expr j p \<noteq> None" "k + 1 \<le> j \<Longrightarrow> parse_or_loop j l p \<noteq> None"
    "k + 6 \<le> j \<Longrightarrow> parse_expr j p \<noteq> None"
  using assms by (simp_all add: fed_def)

text \<open>Every parser with fewer tokens ahead has enough fuel, with the slack one token buys.\<close>

definition fed_below :: "parser \<Rightarrow> bool" where
  "fed_below p \<longleftrightarrow> on_text p \<and>
     (\<forall>q. on_text q \<and> length (ahead q) < length (ahead p) \<longrightarrow> fed (8 * length (ahead p) - 8) q)"

lemma fed_mono: "fed k p \<Longrightarrow> k \<le> k' \<Longrightarrow> fed k' p"
  by (simp add: fed_def)

lemma fed_belowD:
  assumes "fed_below p" "on_text q" "length (ahead q) < length (ahead p)" "8 * length (ahead p) \<le> k"
  shows "parse_primary k q \<noteq> None" "parse_items k is q \<noteq> None" "parse_not_expr k q \<noteq> None"
    "parse_and_expr k q \<noteq> None" "parse_and_loop k l q \<noteq> None" "parse_or_loop k l q \<noteq> None"
    "parse_expr k q \<noteq> None"
proof -
  define m where "m = 8 * length (ahead p) - 8"
  have "fed m q" using assms by (simp add: fed_below_def m_def)
  moreover have "m + 6 \<le> k" using assms(3,4) by (simp add: m_def)
  ultimately show "parse_primary k q \<noteq> None" "parse_items k is q \<noteq> None" "parse_not_expr k q \<noteq> None"
    "parse_and_expr k q \<noteq> None" "parse_and_loop k l q \<noteq> None" "parse_or_loop k l q \<noteq> None"
    "parse_expr k q \<noteq> None"
    by (simp_all add: fed_def)
qed

lemma below_next:
  assumes "on_text q" "cur_type q \<notin> {TOKEN_EOF, TOKEN_ERROR}"
  shows "on_text (next_token q)" "length (ahead (next_token q)) < length (ahead q)"
  using on_text_next [OF assms(1)] next_shorter [OF assms] by auto

lemma bind_defined: "a \<noteq> None \<Longrightarrow> (\<And>x y. a = Some (x, y) \<Longrightarrow> f (x, y) \<noteq> None) \<Longrightarrow> Option.bind a f \<noteq> None"
  by (cases a) auto

lemma fed_primary:
  assumes "fed_below p" "8 * length (ahead p) \<le> k"
  shows "parse_primary (Suc k) p \<noteq> None"
proof -
  have "parse_expr k (next_token p) \<noteq> None \<and> parse_items k [] (next_token p) \<noteq> None"
    if "cur_type p = TOKEN_LPAREN \<or> cur_type p = TOKEN_LBRACKET"
    using fed_belowD [OF assms(1) below_next assms(2)] that assms(1) by (auto simp: fed_below_def)
  then show ?thesis
    unfolding parse_Suc by (auto simp: expect_token_def split: option.splits)
qed

lemma fed_items:
  assumes "fed_below p" "8 * length (ahead p) < k"
  shows "parse_items (Suc k) is p \<noteq> None"
proof -
  obtain j where j: "k = Suc j" "8 * length (ahead p) \<le> j" using assms(2) by (cases k) auto
  have "parse_items k is' (if cur_type q = TOKEN_COMMA then next_token q else q) \<noteq> None"
    if "parse_primary k p = Some (Some n, q)" for n q is'
  proof -
    let ?q = "if cur_type q = TOKEN_COMMA then next_token q else q"
    have "on_text ?q" "length (ahead ?q) < length (ahead p)"
      using primary_progress [OF that] below_next [of q] assms(1) by (auto simp: fed_below_def)
    then show ?thesis using fed_belowD(2) [OF assms(1), of ?q k] assms(2) by auto
  qed
  then show ?thesis
    unfolding parse_Suc using fed_primary [OF assms(1) j(2)] j(1) by (auto split: option.splits)
qed

lemma fed_cmp:
  assumes "fed_below p" "8 * length (ahead p) < k"
  shows "parse_cmp_expr (Suc k) p \<noteq> None"
proof -
  obtain j where j: "k = Suc j" "8 * length (ahead p) \<le> j" using assms(2) by (cases k) auto
  have right: "parse_primary k (next_token q) \<noteq> None"
    if "parse_primary k p = Some (Some n, q)" "cmp_op (cur_type q) = Some b" for n q b
  proof -
    have "cur_type q \<notin> {TOKEN_EOF, TOKEN_ERROR}" using that(2) by (auto simp: cmp_op_def)
    then have "on_text (next_token q)" "length (ahead (next_token q)) < length (ahead p)"
      using primary_progress [OF that(1)] below_next [of q] assms(1) by (auto simp: fed_below_def)
    then show ?thesis using fed_belowD(1) [OF assms(1)] assms(2) by auto
  qed
  show ?thesis
    unfolding parse_Suc
  proof (rule bind_defined)
    show "parse_primary k p \<noteq> None" using fed_primary [OF assms(1) j(2)] j(1) by simp
  next
    fix l q assume "parse_primary k p = Some (l, q)"
    then show "(case (l, q) of (left, p) \<Rightarrow> case left of None \<Rightarrow> Some (None, p)
       | Some left \<Rightarrow> (case cmp_op (cur_type p) of None \<Rightarrow> Some (Some left, p)
          | Some op \<Rightarrow> Option.bind (parse_primary k (next_token p)) (\<lambda>(right, p).
              case right of None \<Rightarrow> Some (None, p)
              | Some right \<Rightarrow> Some (Some (FILTER_NODE_BINARY op left right), p)))) \<noteq> None"
      using right by (cases l; cases "cmp_op (cur_type q)") (fastforce split: option.split)+
  qed
qed

lemma fed_not:
  assumes "fed_below p" "8 * length (ahead p) + 1 < k"
  shows "parse_not_expr (Suc k) p \<noteq> None"
proof -
  obtain j where j: "k = Suc j" "8 * length (ahead p) < j" using assms(2) by (cases k) auto
  have "parse_not_expr k (next_token p) \<noteq> None" if "cur_type p = TOKEN_NOT"
    using fed_belowD(3) [OF assms(1) below_next, of k] that assms by (auto simp: fed_below_def)
  then show ?thesis
    unfolding parse_Suc using fed_cmp [OF assms(1) j(2)] j(1) by (auto split: option.splits)
qed

lemma fed_and_loop:
  assumes "fed_below p" "8 * length (ahead p) \<le> k"
  shows "parse_and_loop (Suc k) l p \<noteq> None"
proof (cases "cur_type p = TOKEN_AND")
  case True
  then have n: "on_text (next_token p)" "length (ahead (next_token p)) < length (ahead p)"
    using below_next [of p] assms(1) by (auto simp: fed_below_def)
  have "parse_and_loop k l' q \<noteq> None" if "parse_not_expr k (next_token p) = Some (Some r, q)" for r q l'
    using fed_belowD(5) [OF assms(1) _ _ assms(2)] not_progress [OF that n(1)] n(2) by fastforce
  then show ?thesis
    unfolding parse_Suc using True fed_belowD(3) [OF assms(1) n assms(2)] by (auto split: option.splits)
qed (simp add: parse_Suc)

lemma fed_or_loop:
  assumes "fed_below p" "8 * length (ahead p) \<le> k"
  shows "parse_or_loop (Suc k) l p \<noteq> None"
proof (cases "cur_type p = TOKEN_OR")
  case True
  then have n: "on_text (next_token p)" "length (ahead (next_token p)) < length (ahead p)"
    using below_next [of p] assms(1) by (auto simp: fed_below_def)
  have "parse_or_loop k l' q \<noteq> None" if "parse_and_expr k (next_token p) = Some (Some r, q)" for r q l'
    using fed_belowD(6) [OF assms(1) _ _ assms(2)] and_progress [OF that n(1)] n(2) by fastforce
  then show ?thesis
    unfolding parse_Suc using True fed_belowD(4) [OF assms(1) n assms(2)] by (auto split: option.splits)
qed (simp add: parse_Suc)

lemma fed_exprs:
  assumes "fed_below p"
  shows "8 * length (ahead p) + 2 < k \<Longrightarrow> parse_and_expr (Suc k) p \<noteq> None"
    and "8 * length (ahead p) + 3 < k \<Longrightarrow> parse_or_expr (Suc k) p \<noteq> None"
    and "8 * length (ahead p) + 4 < k \<Longrightarrow> parse_expr (Suc k) p \<noteq> None"
proof -
  have on: "on_text p" using assms by (simp add: fed_below_def)
  show and_expr: "parse_and_expr (Suc k) p \<noteq> None" if k: "8 * length (ahead p) + 2 < k" for k
  proof -
    obtain j where j: "k = Suc j" "8 * length (ahead p) + 1 < j" using k by (cases k) auto
    have "parse_and_loop k l q \<noteq> None" if "parse_not_expr k p = Some (Some r, q)" for r q l
      using fed_belowD(5) [OF assms, of q k] not_progress [OF that on] j by simp
    then show ?thesis unfolding parse_Suc using fed_not [OF assms j(2)] j(1) by (auto split: option.splits)
  qed
  show or_expr: "parse_or_expr (Suc k) p \<noteq> None" if k: "8 * length (ahead p) + 3 < k" for k
  proof -
    obtain j where j: "k = Suc j" "8 * length (ahead p) + 2 < j" using k by (cases k) auto
    have "parse_or_loop k l q \<noteq> None" if "parse_and_expr k p = Some (Some r, q)" for r q l
      using fed_belowD(6) [OF assms, of q k] and_progress [OF that on] j by simp
    then show ?thesis unfolding parse_Suc using and_expr [OF j(2)] j(1) by (auto split: option.splits)
  qed
  show "parse_expr (Suc k) p \<noteq> None" if k: "8 * length (ahead p) + 4 < k"
  proof -
    obtain j where j: "k = Suc j" "8 * length (ahead p) + 3 < j" using k by (cases k) auto
    then show ?thesis unfolding parse_Suc using or_expr [OF j(2)] by simp
  qed
qed

lemma fed_all: "on_text p \<Longrightarrow> fed (8 * length (ahead p)) p"
proof (induction "length (ahead p)" arbitrary: p rule: less_induct)
  case less
  have "fed (8 * length (ahead p) - 8) q" if "on_text q" "length (ahead q) < length (ahead p)" for q
    using less.hyps [OF that(2,1)] that(2) by (auto elim: fed_mono)
  then have below: "fed_below p" using less.prems by (simp add: fed_below_def)
  let ?m = "8 * length (ahead p)"
  have "parse_primary j p \<noteq> None" if "?m + 1 \<le> j" for j
    using that fed_primary [OF below] by (cases j) auto
  moreover have "parse_items j is p \<noteq> None" if "?m + 2 \<le> j" for j "is"
    using that fed_items [OF below] by (cases j) auto
  moreover have "parse_cmp_expr j p \<noteq> None" if "?m + 2 \<le> j" for j
    using that fed_cmp [OF below] by (cases j) auto
  moreover have "parse_not_expr j p \<noteq> None" if "?m + 3 \<le> j" for j
    using that fed_not [OF below] by (cases j) auto
  moreover have "parse_and_expr j p \<noteq> None" if "?m + 4 \<le> j" for j
    using that fed_exprs(1) [OF below] by (cases j) auto
  moreover have "parse_and_loop j l p \<noteq> None" if "?m + 1 \<le> j" for j l
    using that fed_and_loop [OF below] by (cases j) auto
  moreover have "parse_or_expr j p \<noteq> None" if "?m + 5 \<le> j" for j
    using that fed_exprs(2) [OF below] by (cases j) auto
  moreover have "parse_or_loop j l p \<noteq> None" if "?m + 1 \<le> j" for j l
    using that fed_or_loop [OF below] by (cases j) auto
  moreover have "parse_expr j p \<noteq> None" if "?m + 6 \<le> j" for j
    using that fed_exprs(3) [OF below] by (cases j) auto
  ultimately show ?case unfolding fed_def by (intro conjI allI impI)
qed

section \<open>The parser accepts all of the grammar\<close>

inductive_cases and_rest_cases: "g_and_rest a ts n ts'"
inductive_cases or_rest_cases: "g_or_rest a ts n ts'"
inductive_cases items_cases: "g_items ts ns ts'"
inductive_cases prim_cases: "g_prim ts n ts'"

lemma prim_first: "g_prim ts n ts' \<Longrightarrow>
  fst (hd ts) \<in> {TOKEN_FIELD, TOKEN_STRING, TOKEN_NUMBER, TOKEN_LPAREN, TOKEN_LBRACKET}"
  by (erule prim_cases) simp_all

lemma and_rest_first: "g_and_rest a ts n ts' \<Longrightarrow> ts = ts' \<or> fst (hd ts) = TOKEN_AND"
  by (erule and_rest_cases) simp_all

lemma or_rest_first: "g_or_rest a ts n ts' \<Longrightarrow> ts = ts' \<or> fst (hd ts) = TOKEN_OR"
  by (erule or_rest_cases) simp_all

lemma items_first: "g_items ts ns ts' \<Longrightarrow> ts = ts' \<or>
  fst (hd ts) \<in> {TOKEN_FIELD, TOKEN_STRING, TOKEN_NUMBER, TOKEN_LPAREN, TOKEN_LBRACKET}"
  by (erule items_cases) (auto dest: prim_first)

lemma ahead_type: "fst (hd (ahead p)) = cur_type p"
  by (subst ahead_hd) simp

lemma ahead_Cons:
  assumes "ahead p = (t, v) # ts"
  shows "cur_type p = t" "tok_value (lx_current (ps_lexer p)) = v"
    "on_text p \<Longrightarrow> t \<notin> {TOKEN_EOF, TOKEN_ERROR} \<Longrightarrow> ahead (next_token p) = ts"
proof -
  show t: "cur_type p = t" and "tok_value (lx_current (ps_lexer p)) = v"
    using ahead_hd [of p] assms by auto
  show "ahead (next_token p) = ts" if "on_text p" "t \<notin> {TOKEN_EOF, TOKEN_ERROR}"
    using ahead_next [of p] that t assms by simp
qed

text \<open>\<open>accepts\<close>: with some fuel the function returns this node and stops in front of \<open>ts'\<close>.\<close>

definition accepts :: "(nat \<Rightarrow> parser \<Rightarrow> ('n option \<times> parser) option) \<Rightarrow> lexeme list \<Rightarrow> 'n \<Rightarrow> lexeme list \<Rightarrow> bool" where
  "accepts f ts n ts' \<longleftrightarrow> (\<forall>p. on_text p \<and> ahead p = ts \<longrightarrow>
     (\<exists>k p'. f k p = Some (Some n, p') \<and> on_text p' \<and> ahead p' = ts'))"

definition follow_cmp :: "lexeme list \<Rightarrow> bool" where
  "follow_cmp ts \<longleftrightarrow> cmp_op (fst (hd ts)) = None"

definition follow_and :: "lexeme list \<Rightarrow> bool" where
  "follow_and ts \<longleftrightarrow> follow_cmp ts \<and> fst (hd ts) \<noteq> TOKEN_AND"

definition follow_or :: "lexeme list \<Rightarrow> bool" where
  "follow_or ts \<longleftrightarrow> follow_and ts \<and> fst (hd ts) \<noteq> TOKEN_OR"

lemma acceptsI:
  assumes "\<And>p. on_text p \<Longrightarrow> ahead p = ts \<Longrightarrow> \<exists>k p'. f k p = Some (Some n, p') \<and> on_text p' \<and> ahead p' = ts'"
  shows "accepts f ts n ts'"
  using assms by (auto simp: accepts_def)

lemma acceptsE:
  assumes "accepts f ts n ts'" "on_text p" "ahead p = ts"
  obtains k p' where "f k p = Some (Some n, p')" "on_text p'" "ahead p' = ts'"
  using assms by (auto simp: accepts_def)

lemma accept_literals:
  "accepts parse_primary ((TOKEN_FIELD, Some w) # ts) (FILTER_NODE_FIELD (parse_field_name w)) ts"
  "accepts parse_primary ((TOKEN_STRING, Some w) # ts) (FILTER_NODE_STRING w) ts"
  "accepts parse_primary ((TOKEN_NUMBER, Some w) # ts) (FILTER_NODE_NUMBER (atoll w)) ts"
proof -
  have "parse_primary (Suc 0) p = Some (Some (FILTER_NODE_FIELD (parse_field_name (cur_value p))), next_token p)"
    if "cur_type p = TOKEN_FIELD" for p using that by (simp add: parse_Suc)
  moreover have "parse_primary (Suc 0) p = Some (Some (FILTER_NODE_STRING (cur_value p)), next_token p)"
    if "cur_type p = TOKEN_STRING" for p using that by (simp add: parse_Suc)
  moreover have "parse_primary (Suc 0) p = Some (Some (FILTER_NODE_NUMBER (atoll (cur_value p))), next_token p)"
    if "cur_type p = TOKEN_NUMBER" for p using that by (simp add: parse_Suc)
  ultimately show
    "accepts parse_primary ((TOKEN_FIELD, Some w) # ts) (FILTER_NODE_FIELD (parse_field_name w)) ts"
    "accepts parse_primary ((TOKEN_STRING, Some w) # ts) (FILTER_NODE_STRING w) ts"
    "accepts parse_primary ((TOKEN_NUMBER, Some w) # ts) (FILTER_NODE_NUMBER (atoll w)) ts"
    by (auto intro!: acceptsI simp: cur_value_def dest: ahead_Cons on_text_next
        intro: exI [of _ "Suc 0"] split: option.splits) (metis ahead_Cons on_text_next option.simps(5) insertE singletonD token_type.distinct)+
qed

lemma accept_paren:
  assumes "accepts parse_expr ts n ((TOKEN_RPAREN, v') # ts')"
  shows "accepts parse_primary ((TOKEN_LPAREN, v) # ts) n ts'"
proof (rule acceptsI)
  fix p assume p: "on_text p" "ahead p = (TOKEN_LPAREN, v) # ts"
  then have q: "on_text (next_token p)" "ahead (next_token p) = ts"
    using on_text_next ahead_Cons(3) [OF p(2)] by auto
  obtain k r where r: "parse_expr k (next_token p) = Some (Some n, r)" "on_text r"
    "ahead r = (TOKEN_RPAREN, v') # ts'"
    using acceptsE [OF assms q] by blast
  have "parse_primary (Suc k) p = Some (Some n, next_token r)"
    using ahead_Cons(1) [OF p(2)] ahead_Cons(1) [OF r(3)] r(1) by (simp add: parse_Suc expect_token_def)
  then show "\<exists>k p'. parse_primary k p = Some (Some n, p') \<and> on_text p' \<and> ahead p' = ts'"
    using on_text_next [OF r(2)] ahead_Cons(3) [OF r(3) r(2)] by auto
qed

lemma accept_list:
  assumes "accepts (\<lambda>k. parse_items k []) ts ns ((TOKEN_RBRACKET, v') # ts')"
  shows "accepts parse_primary ((TOKEN_LBRACKET, v) # ts) (FILTER_NODE_LIST ns) ts'"
proof (rule acceptsI)
  fix p assume p: "on_text p" "ahead p = (TOKEN_LBRACKET, v) # ts"
  then have q: "on_text (next_token p)" "ahead (next_token p) = ts"
    using on_text_next ahead_Cons(3) [OF p(2)] by auto
  obtain k r where r: "parse_items k [] (next_token p) = Some (Some ns, r)" "on_text r"
    "ahead r = (TOKEN_RBRACKET, v') # ts'"
    using acceptsE [OF assms q] by blast
  have "parse_primary (Suc k) p = Some (Some (FILTER_NODE_LIST ns), next_token r)"
    using ahead_Cons(1) [OF p(2)] ahead_Cons(1) [OF r(3)] r(1) by (simp add: parse_Suc expect_token_def)
  then show "\<exists>k p'. parse_primary k p = Some (Some (FILTER_NODE_LIST ns), p') \<and> on_text p' \<and> ahead p' = ts'"
    using on_text_next [OF r(2)] ahead_Cons(3) [OF r(3) r(2)] by auto
qed

lemma accept_items_end:
  assumes "fst (hd ts) = TOKEN_RBRACKET"
  shows "accepts (\<lambda>k. parse_items k is) ts is ts"
proof (rule acceptsI)
  fix p assume p: "on_text p" "ahead p = ts"
  then have "parse_items (Suc 0) is p = Some (Some is, p)"
    using ahead_type [of p] assms by (simp add: parse_Suc)
  then show "\<exists>k p'. parse_items k is p = Some (Some is, p') \<and> on_text p' \<and> ahead p' = ts" using p by blast
qed

lemma accept_items_step:
  assumes prim: "accepts parse_primary ts n ts1" and first: "g_prim ts n ts1"
    and ts2: "ts2 = (if fst (hd ts1) = TOKEN_COMMA then tl ts1 else ts1)"
    and more: "accepts (\<lambda>k. parse_items k (is @ [n])) ts2 ns ts3"
  shows "accepts (\<lambda>k. parse_items k is) ts ns ts3"
proof (rule acceptsI)
  fix p assume p: "on_text p" "ahead p = ts"
  obtain k q where q: "parse_primary k p = Some (Some n, q)" "on_text q" "ahead q = ts1"
    using acceptsE [OF prim p] by blast
  let ?q = "if cur_type q = TOKEN_COMMA then next_token q else q"
  have "on_text ?q" "ahead ?q = ts2"
    using q(2) on_text_next [OF q(2)] ahead_type [of q] ahead_next [OF q(2)] q(3) ts2 by auto
  then obtain j r where r: "parse_items j (is @ [n]) ?q = Some (Some ns, r)" "on_text r" "ahead r = ts3"
    using acceptsE [OF more] by blast
  have "cur_type p \<noteq> TOKEN_RBRACKET \<and> cur_type p \<noteq> TOKEN_EOF"
    using prim_first [OF first] ahead_type [of p] p(2) by auto
  then have "parse_items (Suc (max k j)) is p = Some (Some ns, r)"
    using parse_more_fuel(1) [OF _ q(1), of "max k j"] parse_more_fuel(2) [OF _ r(1), of "max k j"]
    by (simp add: parse_Suc)
  then show "\<exists>k p'. parse_items k is p = Some (Some ns, p') \<and> on_text p' \<and> ahead p' = ts3"
    using r by blast
qed

lemma accept_alone:
  assumes "accepts parse_primary ts n ts'" "follow_cmp ts'"
  shows "accepts parse_cmp_expr ts n ts'"
proof (rule acceptsI)
  fix p assume p: "on_text p" "ahead p = ts"
  obtain k q where q: "parse_primary k p = Some (Some n, q)" "on_text q" "ahead q = ts'"
    using acceptsE [OF assms(1) p] by blast
  have "parse_cmp_expr (Suc k) p = Some (Some n, q)"
    using q assms(2) ahead_type [of q] by (simp add: parse_Suc follow_cmp_def)
  then show "\<exists>k p'. parse_cmp_expr k p = Some (Some n, p') \<and> on_text p' \<and> ahead p' = ts'" using q by blast
qed

lemma accept_compare:
  assumes "accepts parse_primary ts a ((t, v) # ts1)" "cmp_op t = Some b" "accepts parse_primary ts1 c ts2"
  shows "accepts parse_cmp_expr ts (FILTER_NODE_BINARY b a c) ts2"
proof (rule acceptsI)
  fix p assume p: "on_text p" "ahead p = ts"
  obtain k q where q: "parse_primary k p = Some (Some a, q)" "on_text q" "ahead q = (t, v) # ts1"
    using acceptsE [OF assms(1) p] by blast
  have t: "cur_type q = t" "t \<notin> {TOKEN_EOF, TOKEN_ERROR}"
    using ahead_Cons(1) [OF q(3)] assms(2) by (auto simp: cmp_op_def)
  obtain j r where r: "parse_primary j (next_token q) = Some (Some c, r)" "on_text r" "ahead r = ts2"
    using acceptsE [OF assms(3) on_text_next [OF q(2)] ahead_Cons(3) [OF q(3,2) t(2)]] by blast
  have "parse_cmp_expr (Suc (max k j)) p = Some (Some (FILTER_NODE_BINARY b a c), r)"
    using parse_more_fuel(1) [OF _ q(1), of "max k j"] parse_more_fuel(1) [OF _ r(1), of "max k j"] t assms(2)
    by (simp add: parse_Suc)
  then show "\<exists>k p'. parse_cmp_expr k p = Some (Some (FILTER_NODE_BINARY b a c), p') \<and> on_text p' \<and> ahead p' = ts2"
    using r by blast
qed

lemma accept_unnegated:
  assumes "accepts parse_cmp_expr ts n ts'" "fst (hd ts) \<noteq> TOKEN_NOT"
  shows "accepts parse_not_expr ts n ts'"
proof (rule acceptsI)
  fix p assume p: "on_text p" "ahead p = ts"
  obtain k q where q: "parse_cmp_expr k p = Some (Some n, q)" "on_text q" "ahead q = ts'"
    using acceptsE [OF assms(1) p] by blast
  have "parse_not_expr (Suc k) p = Some (Some n, q)"
    using q assms(2) ahead_type [of p] p(2) by (simp add: parse_Suc)
  then show "\<exists>k p'. parse_not_expr k p = Some (Some n, p') \<and> on_text p' \<and> ahead p' = ts'" using q by blast
qed

lemma accept_negated:
  assumes "accepts parse_not_expr ts n ts'"
  shows "accepts parse_not_expr ((TOKEN_NOT, v) # ts) (FILTER_NODE_NOT n) ts'"
proof (rule acceptsI)
  fix p assume p: "on_text p" "ahead p = (TOKEN_NOT, v) # ts"
  obtain k q where q: "parse_not_expr k (next_token p) = Some (Some n, q)" "on_text q" "ahead q = ts'"
    using acceptsE [OF assms on_text_next [OF p(1)] ahead_Cons(3) [OF p(2,1)]] by auto
  have "parse_not_expr (Suc k) p = Some (Some (FILTER_NODE_NOT n), q)"
    using q ahead_Cons(1) [OF p(2)] by (simp add: parse_Suc)
  then show "\<exists>k p'. parse_not_expr k p = Some (Some (FILTER_NODE_NOT n), p') \<and> on_text p' \<and> ahead p' = ts'"
    using q by blast
qed

text \<open>The two levels of binary operators have the same shape: an operand, then a loop.\<close>

lemma accept_operand:
  assumes step: "\<And>k p. e (Suc k) p = Option.bind (f k p) (\<lambda>(left, p).
      case left of None \<Rightarrow> Some (None, p) | Some left \<Rightarrow> loop k left p)"
    and f_more: "\<And>k k' p x. k \<le> k' \<Longrightarrow> f k p = Some x \<Longrightarrow> f k' p = Some x"
    and loop_more: "\<And>k k' l p x. k \<le> k' \<Longrightarrow> loop k l p = Some x \<Longrightarrow> loop k' l p = Some x"
    and a: "accepts f ts a ts1" and rest: "accepts (\<lambda>k. loop k a) ts1 n ts2"
  shows "accepts e ts n ts2"
proof (rule acceptsI)
  fix p assume p: "on_text p" "ahead p = ts"
  obtain k q where q: "f k p = Some (Some a, q)" "on_text q" "ahead q = ts1"
    using acceptsE [OF a p] by blast
  obtain j r where r: "loop j a q = Some (Some n, r)" "on_text r" "ahead r = ts2"
    using acceptsE [OF rest q(2,3)] by blast
  have "e (Suc (max k j)) p = Some (Some n, r)"
    unfolding step using f_more [OF _ q(1), of "max k j"] loop_more [OF _ r(1), of "max k j"] by simp
  then show "\<exists>k p'. e k p = Some (Some n, p') \<and> on_text p' \<and> ahead p' = ts2" using r by blast
qed

lemma accept_loop_more:
  assumes step: "\<And>k l p. loop (Suc k) l p = (if cur_type p = t then
        Option.bind (f k (next_token p)) (\<lambda>(right, p).
          case right of None \<Rightarrow> Some (None, p) | Some right \<Rightarrow> loop k (FILTER_NODE_BINARY b l right) p)
      else Some (Some l, p))"
    and t: "t \<notin> {TOKEN_EOF, TOKEN_ERROR}"
    and f_more: "\<And>k k' p x. k \<le> k' \<Longrightarrow> f k p = Some x \<Longrightarrow> f k' p = Some x"
    and loop_more: "\<And>k k' l p x. k \<le> k' \<Longrightarrow> loop k l p = Some x \<Longrightarrow> loop k' l p = Some x"
    and c: "accepts f ts c ts1" and rest: "accepts (\<lambda>k. loop k (FILTER_NODE_BINARY b a c)) ts1 n ts2"
  shows "accepts (\<lambda>k. loop k a) ((t, v) # ts) n ts2"
proof (rule acceptsI)
  fix p assume p: "on_text p" "ahead p = (t, v) # ts"
  obtain k q where q: "f k (next_token p) = Some (Some c, q)" "on_text q" "ahead q = ts1"
    using acceptsE [OF c on_text_next [OF p(1)] ahead_Cons(3) [OF p(2,1) t]] by blast
  obtain j r where r: "loop j (FILTER_NODE_BINARY b a c) q = Some (Some n, r)" "on_text r" "ahead r = ts2"
    using acceptsE [OF rest q(2,3)] by blast
  have "loop (Suc (max k j)) a p = Some (Some n, r)"
    unfolding step using f_more [OF _ q(1), of "max k j"] loop_more [OF _ r(1), of "max k j"]
      ahead_Cons(1) [OF p(2)] by simp
  then show "\<exists>k p'. loop k a p = Some (Some n, p') \<and> on_text p' \<and> ahead p' = ts2" using r by blast
qed

lemma accept_loop_end:
  assumes step: "\<And>p. cur_type p \<noteq> t \<Longrightarrow> loop (Suc 0) l p = Some (Some l, p)" and "fst (hd ts) \<noteq> t"
  shows "accepts (\<lambda>k. loop k l) ts l ts"
proof (rule acceptsI)
  fix p assume p: "on_text p" "ahead p = ts"
  then have "loop (Suc 0) l p = Some (Some l, p)" using step ahead_type [of p] assms(2) by auto
  then show "\<exists>k p'. loop k l p = Some (Some l, p') \<and> on_text p' \<and> ahead p' = ts" using p by blast
qed

lemma accept_and:
  "accepts parse_not_expr ts a ts1 \<Longrightarrow> accepts (\<lambda>k. parse_and_loop k a) ts1 n ts2 \<Longrightarrow> accepts parse_and_expr ts n ts2"
  by (rule accept_operand [of parse_and_expr parse_not_expr parse_and_loop])
    (auto simp: parse_Suc elim: parse_more_fuel)

lemma accept_or:
  "accepts parse_and_expr ts a ts1 \<Longrightarrow> accepts (\<lambda>k. parse_or_loop k a) ts1 n ts2 \<Longrightarrow> accepts parse_or_expr ts n ts2"
  by (rule accept_operand [of parse_or_expr parse_and_expr parse_or_loop])
    (auto simp: parse_Suc elim: parse_more_fuel)

lemma accept_and_more:
  "accepts parse_not_expr ts c ts1 \<Longrightarrow>
   accepts (\<lambda>k. parse_and_loop k (FILTER_NODE_BINARY FILTER_NODE_AND a c)) ts1 n ts2 \<Longrightarrow>
   accepts (\<lambda>k. parse_and_loop k a) ((TOKEN_AND, v) # ts) n ts2"
  by (rule accept_loop_more [where f = parse_not_expr and b = FILTER_NODE_AND])
    (auto simp: parse_Suc elim: parse_more_fuel)

lemma accept_or_more:
  "accepts parse_and_expr ts c ts1 \<Longrightarrow>
   accepts (\<lambda>k. parse_or_loop k (FILTER_NODE_BINARY FILTER_NODE_OR a c)) ts1 n ts2 \<Longrightarrow>
   accepts (\<lambda>k. parse_or_loop k a) ((TOKEN_OR, v) # ts) n ts2"
  by (rule accept_loop_more [where f = parse_and_expr and b = FILTER_NODE_OR])
    (auto simp: parse_Suc elim: parse_more_fuel)

lemma accept_expr: "accepts parse_or_expr ts n ts' \<Longrightarrow> accepts parse_expr ts n ts'"
  unfolding accepts_def by (metis parse_expr.simps(2))

lemma parser_complete:
  "g_prim ts n ts' \<Longrightarrow> accepts parse_primary ts n ts'"
  "g_items ts ns ts' \<Longrightarrow> fst (hd ts') = TOKEN_RBRACKET \<Longrightarrow> accepts (\<lambda>k. parse_items k is) ts (is @ ns) ts'"
  "g_cmp ts n ts' \<Longrightarrow> fst (hd ts) \<noteq> TOKEN_NOT \<and> (follow_cmp ts' \<longrightarrow> accepts parse_cmp_expr ts n ts')"
  "g_not ts n ts' \<Longrightarrow> follow_cmp ts' \<Longrightarrow> accepts parse_not_expr ts n ts'"
  "g_and ts n ts' \<Longrightarrow> follow_and ts' \<Longrightarrow> accepts parse_and_expr ts n ts'"
  "g_and_rest a ts n ts' \<Longrightarrow> follow_and ts' \<Longrightarrow> accepts (\<lambda>k. parse_and_loop k a) ts n ts'"
  "g_or ts n ts' \<Longrightarrow> follow_or ts' \<Longrightarrow> accepts parse_or_expr ts n ts'"
  "g_or_rest a ts n ts' \<Longrightarrow> follow_or ts' \<Longrightarrow> accepts (\<lambda>k. parse_or_loop k a) ts n ts'"
proof (induction arbitrary: and "is" and and and and and and
    rule: g_prim_g_items_g_cmp_g_not_g_and_g_and_rest_g_or_g_or_rest.inducts)
  case (paren ts n v' ts' v)
  then show ?case
    by (intro accept_paren accept_expr) (simp add: follow_or_def follow_and_def follow_cmp_def cmp_op_def)
next
  case (list ts ns v' ts' v)
  then show ?case using accept_list by fastforce
next
  case (items_end ts)
  then show ?case using accept_items_end by fastforce
next
  case (items_next ts n ts1 ns ts2)
  have "fst (hd ts1) \<noteq> TOKEN_COMMA" using items_first [OF items_next(2)] items_next.prems by auto
  then show ?case using accept_items_step [OF items_next(3,1) refl] items_next(4) [of "is @ [n]"] items_next.prems by simp
next
  case (items_comma ts n v ts1 ns ts2)
  then show ?case using accept_items_step [OF items_comma(3,1) refl] items_comma(4) [of "is @ [n]"] by simp
next
  case (alone ts n ts')
  then show ?case using accept_alone prim_first by fastforce
next
  case (compare ts a t v ts1 b c ts2)
  then show ?case using accept_compare prim_first by fastforce
next
  case (unnegated ts n ts')
  then show ?case using accept_unnegated by blast
next
  case (negated ts n ts' v)
  then show ?case using accept_negated by blast
next
  case (conj ts a ts1 n ts2)
  have "follow_cmp ts1" using and_rest_first [OF conj(2)] conj.prems
    by (auto simp: follow_and_def follow_cmp_def cmp_op_def)
  then show ?case
    using accept_and conj by blast
next
  case (conj_end a ts)
  then show ?case
    by (intro accept_loop_end [where t = TOKEN_AND]) (simp_all add: parse_Suc follow_and_def)
next
  case (conj_more ts b ts1 a n ts2 v)
  have "follow_cmp ts1" using and_rest_first [OF conj_more(2)] conj_more.prems
    by (auto simp: follow_and_def follow_cmp_def cmp_op_def)
  then show ?case
    using accept_and_more conj_more by blast
next
  case (disj ts a ts1 n ts2)
  have "follow_and ts1" using or_rest_first [OF disj(2)] disj.prems
    by (auto simp: follow_or_def follow_and_def follow_cmp_def cmp_op_def)
  then show ?case
    using accept_or disj by blast
next
  case (disj_end a ts)
  then show ?case
    by (intro accept_loop_end [where t = TOKEN_OR]) (simp_all add: parse_Suc follow_or_def)
next
  case (disj_more ts b ts1 a n ts2 v)
  have "follow_and ts1" using or_rest_first [OF disj_more(2)] disj_more.prems
    by (auto simp: follow_or_def follow_and_def follow_cmp_def cmp_op_def)
  then show ?case
    using accept_or_more disj_more by blast
qed (rule accept_literals)+

section \<open>What every parse keeps\<close>

text \<open>A property of parser states kept by reading a token and by reporting an error is kept by the parser.\<close>

definition keeps :: "(parser \<Rightarrow> bool) \<Rightarrow> ('n \<times> parser) option \<Rightarrow> bool" where
  "keeps I r \<longleftrightarrow> (case r of None \<Rightarrow> True | Some (_, p) \<Rightarrow> I p)"

lemma keeps_simps [simp]: "keeps I None" "keeps I (Some (x, p)) \<longleftrightarrow> I p"
  by (simp_all add: keeps_def)

lemma keeps_bind: "keeps I r \<Longrightarrow> (\<And>x p. I p \<Longrightarrow> keeps I (f (x, p))) \<Longrightarrow> keeps I (Option.bind r f)"
  by (cases r) (auto simp: keeps_def)

definition keeps_at :: "(parser \<Rightarrow> bool) \<Rightarrow> nat \<Rightarrow> bool" where
  "keeps_at I k \<longleftrightarrow> (\<forall>p. I p \<longrightarrow>
     keeps I (parse_primary k p) \<and> (\<forall>is. keeps I (parse_items k is p)) \<and> keeps I (parse_cmp_expr k p) \<and>
     keeps I (parse_not_expr k p) \<and> keeps I (parse_and_expr k p) \<and> (\<forall>l. keeps I (parse_and_loop k l p)) \<and>
     keeps I (parse_or_expr k p) \<and> (\<forall>l. keeps I (parse_or_loop k l p)) \<and> keeps I (parse_expr k p))"

lemma keeps_atD:
  assumes "keeps_at I k" "I p"
  shows "keeps I (parse_primary k p)" "keeps I (parse_items k is p)" "keeps I (parse_cmp_expr k p)"
    "keeps I (parse_not_expr k p)" "keeps I (parse_and_expr k p)" "keeps I (parse_and_loop k l p)"
    "keeps I (parse_or_expr k p)" "keeps I (parse_or_loop k l p)" "keeps I (parse_expr k p)"
  using assms by (simp_all add: keeps_at_def)

lemma parser_keeps:
  assumes nx: "\<And>p. I p \<Longrightarrow> I (next_token p)" and err: "\<And>p m. I p \<Longrightarrow> I (set_error p m)"
  shows "keeps_at I k"
proof (induction k)
  case 0
  then show ?case by (simp add: keeps_at_def parse_zero)
next
  case (Suc k)
  note IH = keeps_atD [OF Suc]
  have ex: "I (snd (expect_token p t))" if "I p" for p t
    using that err by (simp add: expect_token_def)
  have "keeps I (parse_primary (Suc k) p)" if "I p" for p
    unfolding parse_Suc using that nx err IH ex
    by (auto intro!: keeps_bind split: option.split prod.split bool.split) (metis ex nx snd_conv)+
  moreover have "keeps I (parse_items (Suc k) is p)" if "I p" for "is" p
    unfolding parse_Suc using that nx IH by (auto intro!: keeps_bind split: option.split)
  moreover have "keeps I (parse_cmp_expr (Suc k) p)" if "I p" for p
    unfolding parse_Suc using that nx IH by (auto intro!: keeps_bind split: option.split)
  moreover have "keeps I (parse_not_expr (Suc k) p)" if "I p" for p
    unfolding parse_Suc using that nx IH by (auto intro!: keeps_bind split: option.split)
  moreover have "keeps I (parse_and_loop (Suc k) l p)" "keeps I (parse_or_loop (Suc k) l p)" if "I p" for l p
    unfolding parse_Suc using that nx IH by (auto intro!: keeps_bind split: option.split)
  moreover have "keeps I (parse_and_expr (Suc k) p)" "keeps I (parse_or_expr (Suc k) p)"
    "keeps I (parse_expr (Suc k) p)" if "I p" for p
    unfolding parse_Suc using that nx IH by (auto intro!: keeps_bind split: option.split)
  ultimately show ?case by (simp add: keeps_at_def)
qed

section \<open>Properties of the interface\<close>

lemma length_tokens: "length (tokens s) \<le> Suc (length s)"
proof (induction s rule: tokens.induct)
  case (1 s)
  obtain lx r where s: "scan s = (lx, r)" by fastforce
  show ?case
  proof (cases "fst lx \<in> {TOKEN_EOF, TOKEN_ERROR}")
    case True
    then show ?thesis using s by (simp add: tokens.simps [of s])
  next
    case False
    then have "length r < length s" using scan_progress [of s] s by simp
    then show ?thesis using 1 [OF s [symmetric] False] False s by (simp add: tokens.simps [of s])
  qed
qed

definition start_parser :: "string \<Rightarrow> parser" where
  "start_parser s = \<lparr>ps_lexer = lexer_next_token (lexer_init s), ps_error = no_parse_error, ps_has_error = False\<rparr>"

lemma start_parser:
  assumes "NUL \<notin> set s"
  shows "on_text (start_parser s)" "ahead (start_parser s) = tokens s" "\<not> ps_has_error (start_parser s)"
proof -
  let ?p = "\<lparr>ps_lexer = lexer_init s, ps_error = no_parse_error, ps_has_error = False\<rparr>"
  have "on_text ?p" using assms by (simp add: on_text_def lexer_init_def)
  then show "on_text (start_parser s)" using on_text_next [of ?p] by (simp add: next_token_def start_parser_def)
  show "ahead (start_parser s) = tokens s" using pending_init [OF assms] by (simp add: ahead_def start_parser_def)
  show "\<not> ps_has_error (start_parser s)" by (simp add: start_parser_def)
qed

definition finish_parse :: "string \<Rightarrow> filter_node option \<Rightarrow> parser \<Rightarrow> filter_expr" where
  "finish_parse s ast p =
     (let expr = \<lparr>fe_expression = s, fe_ast = ast, fe_error = no_parse_error, fe_valid = False\<rparr>
      in if ps_has_error p then expr\<lparr>fe_error := ps_error p\<rparr>
         else if cur_type p \<noteq> TOKEN_EOF then
           expr\<lparr>fe_error := error_at (lx_current (ps_lexer p)) ''Unexpected token at end of expression''\<rparr>
         else expr\<lparr>fe_valid := True\<rparr>)"

lemma filter_parse_eq:
  assumes "NUL \<notin> set s"
  obtains ast p where "parse_expr (parse_fuel s) (start_parser s) = Some (ast, p)"
    "filter_parse (Some s) = Some (finish_parse s ast p)"
proof -
  have "fed (8 * length (tokens s)) (start_parser s)"
    using fed_all [OF start_parser(1) [OF assms]] start_parser(2) [OF assms] by simp
  moreover have "8 * length (tokens s) + 6 \<le> parse_fuel s" using length_tokens [of s] by (simp add: parse_fuel_def)
  ultimately have "parse_expr (parse_fuel s) (start_parser s) \<noteq> None" by (rule fedD(9))
  then obtain ast p where p: "parse_expr (parse_fuel s) (start_parser s) = Some (ast, p)" by auto
  then have "filter_parse (Some s) = Some (finish_parse s ast p)"
    by (simp add: filter_parse_def start_parser_def finish_parse_def Let_def)
  then show thesis using p that by blast
qed

lemma filter_parse_accepts:
  assumes "NUL \<notin> set s"
  shows "\<exists>e. filter_parse (Some s) = Some e \<and> fe_expression e = s \<and>
    (\<forall>n. fe_valid e \<and> fe_ast e = Some n \<longleftrightarrow> (\<exists>v. g_or (tokens s) n [(TOKEN_EOF, v)])) \<and>
    (fe_valid e \<longrightarrow> fe_ast e \<noteq> None)"
proof -
  note p0 = start_parser [OF assms]
  obtain ast p where r: "parse_expr (parse_fuel s) (start_parser s) = Some (ast, p)"
    and e: "filter_parse (Some s) = Some (finish_parse s ast p)"
    using filter_parse_eq [OF assms] .
  have valid: "fe_valid (finish_parse s ast p) \<longleftrightarrow> \<not> ps_has_error p \<and> cur_type p = TOKEN_EOF"
    by (simp add: finish_parse_def Let_def)
  have ast: "fe_ast (finish_parse s ast p) = ast" "fe_expression (finish_parse s ast p) = s"
    by (simp_all add: finish_parse_def Let_def)
  have sound: "parsed g_or (start_parser s) (Some (ast, p))"
    using sound_atD(9) [OF parser_sound, of "start_parser s" "parse_fuel s"] r by simp
  have node: "ast \<noteq> None" if "\<not> ps_has_error p"
    using sound p0(1) that by (cases ast) (auto simp: parsed_def)
  have there: "\<exists>v. g_or (tokens s) n [(TOKEN_EOF, v)]"
    if "\<not> ps_has_error p" "cur_type p = TOKEN_EOF" "ast = Some n" for n
  proof -
    have "ahead p = [(TOKEN_EOF, tok_value (lx_current (ps_lexer p)))]"
      using that(2) by (simp add: ahead_def pending_def lx_lexeme_def)
    moreover have "g_or (tokens s) n (ahead p)" using sound p0(1,2) that(3) by (simp add: parsed_def)
    ultimately show ?thesis by auto
  qed
  have only: "\<not> ps_has_error p \<and> cur_type p = TOKEN_EOF \<and> ast = Some n"
    if g: "g_or (tokens s) n [(TOKEN_EOF, v)]" for n v
  proof -
    have "accepts parse_expr (tokens s) n [(TOKEN_EOF, v)]"
      using parser_complete(7) [OF g] by (intro accept_expr) (simp add: follow_or_def follow_and_def follow_cmp_def cmp_op_def)
    then obtain k q where q: "parse_expr k (start_parser s) = Some (Some n, q)" "ahead q = [(TOKEN_EOF, v)]"
      by (rule acceptsE [OF _ p0(1,2)]) blast
    have eq: "(ast, p) = (Some n, q)"
      using parse_more_fuel(9) [OF _ r, of "max k (parse_fuel s)"] parse_more_fuel(9) [OF _ q(1), of "max k (parse_fuel s)"]
      by simp
    have "\<not> ps_has_error p" using sound p0(1,3) eq by (simp add: parsed_def)
    then show ?thesis using eq ahead_Cons(1) [OF q(2)] by simp
  qed
  have "fe_valid (finish_parse s ast p) \<and> fe_ast (finish_parse s ast p) = Some n \<longleftrightarrow>
      (\<exists>v. g_or (tokens s) n [(TOKEN_EOF, v)])" for n
    using there only valid ast(1) by metis
  then show ?thesis using e ast node valid by (intro exI [of _ "finish_parse s ast p"]) simp
qed

text \<open>
  C2. The parser accepts exactly the language of the grammar and builds the tree the grammar
  assigns: for every C string, \<open>filter_parse\<close> returns, its result is valid with tree \<open>n\<close> if and
  only if the whole token sequence is an or-expression with tree \<open>n\<close>, and a valid result always
  has a tree.
\<close>

theorem filter_parse_grammar:
  assumes "NUL \<notin> set s"
  shows "\<exists>e. filter_parse (Some s) = Some e \<and> fe_expression e = s \<and>
    (\<forall>n. fe_valid e \<and> fe_ast e = Some n \<longleftrightarrow> (\<exists>v. g_or (tokens s) n [(TOKEN_EOF, v)])) \<and>
    (fe_valid e \<longrightarrow> fe_ast e \<noteq> None)"
  using assms by (rule filter_parse_accepts)

theorem filter_parse_grammar_witness:
  "\<exists>e. filter_parse (Some ''mtu > 1'') = Some e \<and> fe_valid e"
proof -
  have "tokens ''mtu > 1'' = [(TOKEN_FIELD, Some ''mtu''), (TOKEN_GT, None), (TOKEN_NUMBER, Some ''1''), (TOKEN_EOF, None)]"
    by code_simp
  then have "g_or (tokens ''mtu > 1'') (FILTER_NODE_BINARY FILTER_NODE_GT (FILTER_NODE_FIELD (parse_field_name ''mtu''))
      (FILTER_NODE_NUMBER (atoll ''1''))) [(TOKEN_EOF, None)]"
    by (auto intro!: disj conj conj_end disj_end unnegated compare field number simp: cmp_op_def)
  then show ?thesis using filter_parse_grammar [of "''mtu > 1''"] by auto
qed

text \<open>Where the parser stands and, once it has failed, where it failed, as a reader counts.\<close>

definition located :: "string \<Rightarrow> nat \<Rightarrow> nat \<Rightarrow> nat \<Rightarrow> bool" where
  "located s i line col \<longleftrightarrow> i \<le> length s \<and> line = text_line s i \<and> col = text_column s i"

definition parser_located :: "string \<Rightarrow> parser \<Rightarrow> bool" where
  "parser_located s p \<longleftrightarrow> lx_tracks (ps_lexer p) \<and> lx_input (ps_lexer p) = s \<and>
     (case tok_place (ps_lexer p) of (i, l, c) \<Rightarrow> located s i l c) \<and>
     (ps_has_error p \<longrightarrow> located s (pe_position (ps_error p)) (pe_line (ps_error p)) (pe_column (ps_error p)))"

lemma next_token_located:
  assumes "lx_tracks l" "lx_input l = s"
  shows "case tok_place (lexer_next_token l) of (i, l, c) \<Rightarrow> located s i l c"
  using next_token_tracks(3) [OF assms(1)] assms(2) by (auto simp: located_def)

lemma parser_located_next: "parser_located s p \<Longrightarrow> parser_located s (next_token p)"
  using next_token_located [of "ps_lexer p" s] next_token_tracks(1,2) [of "ps_lexer p"]
  by (auto simp: parser_located_def next_token_def)

lemma parser_located_error: "parser_located s p \<Longrightarrow> parser_located s (set_error p m)"
  by (auto simp: parser_located_def set_error_def error_at_def tok_place_def)

lemma start_located: "parser_located s (start_parser s)"
  using next_token_located [OF lexer_init_tracks, of s s] next_token_tracks(1,2) [OF lexer_init_tracks, of s]
  by (simp add: parser_located_def start_parser_def)

text \<open>
  C17. Error reports: when \<open>filter_parse\<close> rejects a C string, the reported position lies inside the
  text and the reported line and column are those a reader counts for it; \<open>filter_validate\<close> hands
  the same report to its caller.
\<close>

theorem parse_error_location:
  assumes "NUL \<notin> set s" and "filter_parse (Some s) = Some e" and "\<not> fe_valid e"
  shows "located s (pe_position (fe_error e)) (pe_line (fe_error e)) (pe_column (fe_error e)) \<and>
    filter_validate (Some s) = (False, Some (fe_error e))"
proof -
  obtain ast p where r: "parse_expr (parse_fuel s) (start_parser s) = Some (ast, p)"
    and e: "e = finish_parse s ast p"
    using filter_parse_eq [OF assms(1)] assms(2) by auto
  have "keeps_at (parser_located s) (parse_fuel s)"
    by (rule parser_keeps) (simp_all add: parser_located_next parser_located_error)
  then have "keeps (parser_located s) (parse_expr (parse_fuel s) (start_parser s))"
    using start_located by (rule keeps_atD(9))
  then have "parser_located s p" using r by simp
  then have "located s (pe_position (fe_error e)) (pe_line (fe_error e)) (pe_column (fe_error e))"
    using assms(3) by (auto simp: e finish_parse_def parser_located_def Let_def error_at_def tok_place_def split: if_splits)
  then show ?thesis using assms(2,3) by (simp add: filter_validate_def)
qed

theorem parse_error_location_witness:
  "let e = the (filter_parse (Some ''\<newline>)'')) in
     \<not> fe_valid e \<and> pe_position (fe_error e) = 1 \<and> pe_line (fe_error e) = 2 \<and> pe_column (fe_error e) = 1 \<and>
     located ''\<newline>)'' 1 2 1"
proof -
  have "filter_parse (Some ''\<newline>)'') = Some \<lparr>fe_expression = ''\<newline>)'', fe_ast = None,
      fe_error = \<lparr>pe_message = ''Expected field, string, number, or '('' @ [CHR 0x27], pe_position = 1,
        pe_line = 2, pe_column = 1\<rparr>, fe_valid = False\<rparr>"
    by code_simp
  then show ?thesis using parse_error_location [of "''\<newline>)''"] by simp
qed

end
