(* ===== verification/Filter_Compiler.thy ===== *)
theory Filter_Compiler
  imports Filter_Parser
begin

text \<open>
  The bytecode compiler of \<^verbatim>\<open>src/src/core/filter_compiler.c\<close>. The growing arrays are lists with their
  capacity beside them; \<^typ>\<open>alloc\<close> decides which allocations succeed. A compile function returns
  its C result and the bytecode as it left it, also when it failed.
\<close>

section \<open>Bytecode\<close>

datatype filter_instruction =
    OP_PUSH_FIELD u8 | OP_PUSH_STRING u32 | OP_PUSH_NUMBER i64 | OP_POP
  | OP_EQ | OP_NE | OP_LT | OP_GT | OP_LE | OP_GE | OP_MATCH | OP_NMATCH | OP_IN u32
  | OP_AND | OP_OR | OP_NOT
  | OP_JUMP i32 | OP_JUMP_IF_FALSE i32 | OP_JUMP_IF_TRUE i32
  | OP_RETURN | OP_NOP

record filter_bytecode =
  bc_instructions :: "filter_instruction list"
  bc_instruction_capacity :: nat
  bc_strings :: "string list"
  bc_string_capacity :: nat
  bc_original_instruction_count :: nat
  bc_optimizations_applied :: nat

abbreviation instruction_count :: "filter_bytecode \<Rightarrow> nat" where
  "instruction_count bc \<equiv> length (bc_instructions bc)"

text \<open>Bytes of an instruction and of a pointer.\<close>

definition instr_size :: nat where
  "instr_size = 16"

definition ptr_size :: nat where
  "ptr_size = 8"

definition bytecode_create :: "alloc \<Rightarrow> filter_bytecode option" where
  "bytecode_create mem =
     (if \<not> mem 64 then None
      else if \<not> mem (64 * instr_size) then None
      else if \<not> mem (16 * ptr_size) then None
      else Some \<lparr>bc_instructions = [], bc_instruction_capacity = 64, bc_strings = [],
             bc_string_capacity = 16, bc_original_instruction_count = 0,
             bc_optimizations_applied = 0\<rparr>)"

definition bytecode_emit :: "alloc \<Rightarrow> filter_bytecode \<Rightarrow> filter_instruction \<Rightarrow> bool \<times> filter_bytecode" where
  "bytecode_emit mem bc instr =
     (let grow = instruction_count bc \<ge> bc_instruction_capacity bc;
          new_capacity = bc_instruction_capacity bc * 2
      in if grow \<and> \<not> mem (new_capacity * instr_size) then (False, bc)
         else let bc = (if grow then bc\<lparr>bc_instruction_capacity := new_capacity\<rparr> else bc)
              in (True, bc\<lparr>bc_instructions := bc_instructions bc @ [instr]\<rparr>))"

text \<open>The position of the first entry equal to \<open>str\<close>, if there is one.\<close>

fun string_position :: "string list \<Rightarrow> string \<Rightarrow> nat option" where
  "string_position [] str = None"
| "string_position (s # ss) str =
     (if strcmp s str = 0 then Some 0 else map_option Suc (string_position ss str))"

text \<open>When memory runs out the index 0 is returned, as if the string were the first one.\<close>

definition bytecode_add_string :: "alloc \<Rightarrow> filter_bytecode \<Rightarrow> string \<Rightarrow> u32 \<times> filter_bytecode" where
  "bytecode_add_string mem bc str =
     (case string_position (bc_strings bc) str of
        Some i \<Rightarrow> (of_nat i, bc)
      | None \<Rightarrow>
        let grow = length (bc_strings bc) \<ge> bc_string_capacity bc;
            new_capacity = bc_string_capacity bc * 2
        in if grow \<and> \<not> mem (new_capacity * ptr_size) then (0, bc)
           else let bc = (if grow then bc\<lparr>bc_string_capacity := new_capacity\<rparr> else bc)
                in if \<not> mem (length str + 1) then (0, bc)
                   else (of_nat (length (bc_strings bc)), bc\<lparr>bc_strings := bc_strings bc @ [str]\<rparr>))"

section \<open>Compilation\<close>

text \<open>\<open>e1 && e2\<close> on calls that return a truth value and change the bytecode.\<close>

definition and_then ::
  "bool \<times> filter_bytecode \<Rightarrow> (filter_bytecode \<Rightarrow> bool \<times> filter_bytecode) \<Rightarrow> bool \<times> filter_bytecode" where
  "and_then r f = (case r of (ok, bc) \<Rightarrow> if ok then f bc else (False, bc))"

lemma and_then_cong [fundef_cong]:
  "r = r' \<Longrightarrow> (\<And>bc. r' = (True, bc) \<Longrightarrow> f bc = f' bc) \<Longrightarrow> and_then r f = and_then r' f'"
  by (auto simp: and_then_def split: prod.split)

definition patch_jump :: "nat \<Rightarrow> (i32 \<Rightarrow> filter_instruction) \<Rightarrow> filter_bytecode \<Rightarrow> filter_bytecode" where
  "patch_jump jump_pos jump bc =
     bc\<lparr>bc_instructions := (bc_instructions bc)
          [jump_pos := jump (of_nat (instruction_count bc - jump_pos - 1))]\<rparr>"

definition binary_opcode :: "filter_binary_type \<Rightarrow> filter_instruction option" where
  "binary_opcode t = (case t of
     FILTER_NODE_EQ \<Rightarrow> Some OP_EQ | FILTER_NODE_NE \<Rightarrow> Some OP_NE | FILTER_NODE_LT \<Rightarrow> Some OP_LT
   | FILTER_NODE_GT \<Rightarrow> Some OP_GT | FILTER_NODE_LE \<Rightarrow> Some OP_LE | FILTER_NODE_GE \<Rightarrow> Some OP_GE
   | FILTER_NODE_MATCH \<Rightarrow> Some OP_MATCH | FILTER_NODE_NMATCH \<Rightarrow> Some OP_NMATCH | _ \<Rightarrow> None)"

function compile_node_recursive :: "alloc \<Rightarrow> filter_node \<Rightarrow> filter_bytecode \<Rightarrow> bool \<times> filter_bytecode"
  and compile_items :: "alloc \<Rightarrow> filter_node list \<Rightarrow> filter_bytecode \<Rightarrow> bool \<times> filter_bytecode" where
  "compile_node_recursive mem (FILTER_NODE_FIELD field) bc =
     bytecode_emit mem bc (OP_PUSH_FIELD (field_code field))"
| "compile_node_recursive mem (FILTER_NODE_STRING value) bc =
     (case bytecode_add_string mem bc value of (i, bc) \<Rightarrow> bytecode_emit mem bc (OP_PUSH_STRING i))"
| "compile_node_recursive mem (FILTER_NODE_NUMBER value) bc =
     bytecode_emit mem bc (OP_PUSH_NUMBER value)"
| "compile_node_recursive mem (FILTER_NODE_BINARY t left right) bc =
     (if t = FILTER_NODE_IN then
        and_then (compile_node_recursive mem left bc) (\<lambda>bc.
          case right of
            FILTER_NODE_LIST items \<Rightarrow>
              and_then (compile_items mem items bc) (\<lambda>bc.
                bytecode_emit mem bc (OP_IN (of_nat (length items))))
          | _ \<Rightarrow> (False, bc))
      else if t = FILTER_NODE_AND then
        and_then (compile_node_recursive mem left bc) (\<lambda>bc.
          let jump_pos = instruction_count bc in
          and_then (bytecode_emit mem bc (OP_JUMP_IF_FALSE 0)) (\<lambda>bc.
          and_then (bytecode_emit mem bc OP_POP) (\<lambda>bc.
          and_then (compile_node_recursive mem right bc) (\<lambda>bc.
            (True, patch_jump jump_pos OP_JUMP_IF_FALSE bc)))))
      else if t = FILTER_NODE_OR then
        and_then (compile_node_recursive mem left bc) (\<lambda>bc.
          let jump_pos = instruction_count bc in
          and_then (bytecode_emit mem bc (OP_JUMP_IF_TRUE 0)) (\<lambda>bc.
          and_then (bytecode_emit mem bc OP_POP) (\<lambda>bc.
          and_then (compile_node_recursive mem right bc) (\<lambda>bc.
            (True, patch_jump jump_pos OP_JUMP_IF_TRUE bc)))))
      else
        and_then (compile_node_recursive mem left bc) (\<lambda>bc.
        and_then (compile_node_recursive mem right bc) (\<lambda>bc.
          case binary_opcode t of Some opcode \<Rightarrow> bytecode_emit mem bc opcode | None \<Rightarrow> (False, bc))))"
| "compile_node_recursive mem (FILTER_NODE_NOT operand) bc =
     and_then (compile_node_recursive mem operand bc) (\<lambda>bc. bytecode_emit mem bc OP_NOT)"
| "compile_node_recursive mem (FILTER_NODE_LIST items) bc = (False, bc)"
| "compile_items mem [] bc = (True, bc)"
| "compile_items mem (item # items) bc =
     and_then (compile_node_recursive mem item bc) (\<lambda>bc. compile_items mem items bc)"
  by pat_completeness auto
termination
  by (relation "measure (case_sum (\<lambda>(_, n, _). size n) (\<lambda>(_, ns, _). size_list size ns))") auto

declare compile_node_recursive.simps [simp del] compile_items.simps [simp del]

section \<open>Optimisation passes\<close>

text \<open>
  The loop bound \<open>instruction_count - 1\<close> is unsigned: with no instructions at all it wraps and the
  loop reads far outside the array.
\<close>

definition peephole_instr :: "filter_instruction \<Rightarrow> filter_instruction" where
  "peephole_instr i = (if i = OP_JUMP 0 then OP_NOP else i)"

definition optimize_peephole :: "filter_bytecode \<Rightarrow> (nat \<times> filter_bytecode) outcome" where
  "optimize_peephole bc =
     (let is = bc_instructions bc in
      if is = [] then UB
      else Ok (length (filter (\<lambda>i. i = OP_JUMP 0) (butlast is)),
               bc\<lparr>bc_instructions := map peephole_instr (butlast is) @ [last is]\<rparr>))"

definition optimize_dead_code :: "filter_bytecode \<Rightarrow> (nat \<times> filter_bytecode) outcome" where
  "optimize_dead_code bc = (if bc_instructions bc = [] then UB else Ok (0, bc))"

definition optimize_constant_folding :: "filter_bytecode \<Rightarrow> (nat \<times> filter_bytecode) outcome" where
  "optimize_constant_folding bc = Ok (0, bc)"

section \<open>Public interface\<close>

definition filter_compile :: "alloc \<Rightarrow> filter_expr option \<Rightarrow> filter_bytecode option" where
  "filter_compile mem expr =
     (case expr of None \<Rightarrow> None
      | Some e \<Rightarrow>
        if \<not> fe_valid e then None
        else case fe_ast e of None \<Rightarrow> None
        | Some ast \<Rightarrow>
          (case bytecode_create mem of None \<Rightarrow> None
           | Some bc \<Rightarrow>
             (case and_then (compile_node_recursive mem ast bc) (\<lambda>bc. bytecode_emit mem bc OP_RETURN) of
                (False, _) \<Rightarrow> None
              | (True, bc) \<Rightarrow> Some (bc\<lparr>bc_original_instruction_count := instruction_count bc\<rparr>))))"

definition filter_compile_node :: "alloc \<Rightarrow> filter_node option \<Rightarrow> filter_bytecode \<Rightarrow> bool \<times> filter_bytecode" where
  "filter_compile_node mem node bc =
     (case node of None \<Rightarrow> (False, bc) | Some n \<Rightarrow> compile_node_recursive mem n bc)"

definition filter_bytecode_optimize :: "filter_bytecode \<Rightarrow> (nat \<times> filter_bytecode) outcome" where
  "filter_bytecode_optimize bc =
     bind_outcome (optimize_peephole bc) (\<lambda>(n1, bc).
     bind_outcome (optimize_dead_code bc) (\<lambda>(n2, bc).
     bind_outcome (optimize_constant_folding bc) (\<lambda>(n3, bc).
       Ok (n1 + n2 + n3, bc\<lparr>bc_optimizations_applied := n1 + n2 + n3\<rparr>))))"

definition filter_bytecode_stats :: "filter_bytecode \<Rightarrow> nat \<times> nat \<times> nat" where
  "filter_bytecode_stats bc = (instruction_count bc, length (bc_strings bc), bc_optimizations_applied bc)"

section \<open>What compiled code looks like\<close>

text \<open>\<open>code_for S n c\<close>: with the string table \<open>S\<close>, the instructions \<open>c\<close> compute the tree \<open>n\<close>.\<close>

inductive code_for :: "string list \<Rightarrow> filter_node \<Rightarrow> filter_instruction list \<Rightarrow> bool"
  and code_items :: "string list \<Rightarrow> filter_node list \<Rightarrow> filter_instruction list \<Rightarrow> bool" where
  code_field: "code_for S (FILTER_NODE_FIELD f) [OP_PUSH_FIELD (field_code f)]"
| code_string: "i < length S \<Longrightarrow> S ! i = s \<Longrightarrow> code_for S (FILTER_NODE_STRING s) [OP_PUSH_STRING (of_nat i)]"
| code_number: "code_for S (FILTER_NODE_NUMBER v) [OP_PUSH_NUMBER v]"
| code_binary: "code_for S l cl \<Longrightarrow> code_for S r cr \<Longrightarrow> binary_opcode t = Some opcode \<Longrightarrow>
    code_for S (FILTER_NODE_BINARY t l r) (cl @ cr @ [opcode])"
| code_in: "code_for S l cl \<Longrightarrow> code_items S items ci \<Longrightarrow>
    code_for S (FILTER_NODE_BINARY FILTER_NODE_IN l (FILTER_NODE_LIST items))
      (cl @ ci @ [OP_IN (of_nat (length items))])"
| code_and: "code_for S l cl \<Longrightarrow> code_for S r cr \<Longrightarrow>
    code_for S (FILTER_NODE_BINARY FILTER_NODE_AND l r)
      (cl @ OP_JUMP_IF_FALSE (1 + of_nat (length cr)) # OP_POP # cr)"
| code_or: "code_for S l cl \<Longrightarrow> code_for S r cr \<Longrightarrow>
    code_for S (FILTER_NODE_BINARY FILTER_NODE_OR l r)
      (cl @ OP_JUMP_IF_TRUE (1 + of_nat (length cr)) # OP_POP # cr)"
| code_not: "code_for S n c \<Longrightarrow> code_for S (FILTER_NODE_NOT n) (c @ [OP_NOT])"
| code_nil: "code_items S [] []"
| code_cons: "code_for S n c \<Longrightarrow> code_items S ns cs \<Longrightarrow> code_items S (n # ns) (c @ cs)"

text \<open>Trees the compiler accepts: lists only as the right operand of \<open>IN\<close>.\<close>

function compilable :: "filter_node \<Rightarrow> bool" where
  "compilable (FILTER_NODE_FIELD f) = True"
| "compilable (FILTER_NODE_STRING s) = True"
| "compilable (FILTER_NODE_NUMBER v) = True"
| "compilable (FILTER_NODE_NOT n) = compilable n"
| "compilable (FILTER_NODE_LIST ns) = False"
| "compilable (FILTER_NODE_BINARY t l r) =
     (compilable l \<and>
      (if t = FILTER_NODE_IN then (case r of FILTER_NODE_LIST items \<Rightarrow> list_all compilable items | _ \<Rightarrow> False)
       else compilable r))"
  by pat_completeness auto
termination
  by (relation "measure size") (auto simp: less_Suc_eq_le dest!: size_list_estimation' [OF _ order_refl, of _ _ size] intro: le_imp_less_Suc trans_le_add2)

text \<open>The strings only grow and never outnumber the instructions.\<close>

definition extends :: "filter_bytecode \<Rightarrow> filter_bytecode \<Rightarrow> filter_instruction list \<Rightarrow> bool" where
  "extends bc bc' c \<longleftrightarrow> bc_instructions bc' = bc_instructions bc @ c \<and>
     (\<exists>new. bc_strings bc' = bc_strings bc @ new \<and> length new \<le> length c)"

lemma extends_trans: "extends a b c \<Longrightarrow> extends b d e \<Longrightarrow> extends a d (c @ e)"
  by (auto simp: extends_def)

lemma code_more_strings:
  "code_for S n c \<Longrightarrow> code_for (S @ T) n c"
  "code_items S ns c \<Longrightarrow> code_items (S @ T) ns c"
  by (induction rule: code_for_code_items.inducts) (auto intro: code_for_code_items.intros simp: nth_append)

lemma code_extends:
  assumes "extends bc bc' c'"
  shows "code_for (bc_strings bc) n c \<Longrightarrow> code_for (bc_strings bc') n c"
    "code_items (bc_strings bc) ns c \<Longrightarrow> code_items (bc_strings bc') ns c"
  using assms code_more_strings by (auto simp: extends_def)

lemma emit_extends:
  assumes "mem_ok mem"
  obtains bc' where "bytecode_emit mem bc i = (True, bc')" "extends bc bc' [i]" "bc_strings bc' = bc_strings bc"
  using assms by (auto simp: bytecode_emit_def extends_def Let_def)

lemma string_position_Some: "string_position ss s = Some i \<Longrightarrow> i < length ss \<and> ss ! i = s"
  by (induction ss arbitrary: i) (auto split: if_splits)

lemma add_string_extends:
  assumes "mem_ok mem" "bytecode_add_string mem bc s = (i, bc')"
  shows "bc_instructions bc' = bc_instructions bc"
    "\<exists>new. bc_strings bc' = bc_strings bc @ new \<and> length new \<le> 1"
    "\<exists>k < length (bc_strings bc'). i = of_nat k \<and> bc_strings bc' ! k = s"
proof (atomize (full), cases "string_position (bc_strings bc) s")
  case None
  then show "bc_instructions bc' = bc_instructions bc \<and>
    (\<exists>new. bc_strings bc' = bc_strings bc @ new \<and> length new \<le> 1) \<and>
    (\<exists>k < length (bc_strings bc'). i = of_nat k \<and> bc_strings bc' ! k = s)"
    using assms by (auto simp: bytecode_add_string_def Let_def split: if_splits intro!: exI [of _ "length (bc_strings bc)"])
next
  case (Some k)
  then show "bc_instructions bc' = bc_instructions bc \<and>
    (\<exists>new. bc_strings bc' = bc_strings bc @ new \<and> length new \<le> 1) \<and>
    (\<exists>k < length (bc_strings bc'). i = of_nat k \<and> bc_strings bc' ! k = s)"
    using assms string_position_Some [OF Some] by (auto simp: bytecode_add_string_def)
qed

text \<open>\<open>emits n r\<close>: the call that returned \<open>r\<close> succeeded and appended code for \<open>n\<close>.\<close>

definition emits :: "filter_bytecode \<Rightarrow> filter_node \<Rightarrow> bool \<times> filter_bytecode \<Rightarrow> bool" where
  "emits bc n r \<longleftrightarrow> (\<exists>bc' c. r = (True, bc') \<and> extends bc bc' c \<and> code_for (bc_strings bc') n c)"

definition emits_items :: "filter_bytecode \<Rightarrow> filter_node list \<Rightarrow> bool \<times> filter_bytecode \<Rightarrow> bool" where
  "emits_items bc ns r \<longleftrightarrow> (\<exists>bc' c. r = (True, bc') \<and> extends bc bc' c \<and> code_items (bc_strings bc') ns c)"

lemma emitsE:
  assumes "emits bc n r"
  obtains bc' c where "r = (True, bc')" "extends bc bc' c" "code_for (bc_strings bc') n c"
  using assms by (auto simp: emits_def)

lemma and_then_simps [simp]: "and_then (True, bc) f = f bc" "and_then (False, bc) f = (False, bc)"
  by (simp_all add: and_then_def)

lemma emits_literals:
  assumes "mem_ok mem"
  shows "emits bc (FILTER_NODE_FIELD f) (compile_node_recursive mem (FILTER_NODE_FIELD f) bc)"
    "emits bc (FILTER_NODE_NUMBER v) (compile_node_recursive mem (FILTER_NODE_NUMBER v) bc)"
    "emits bc (FILTER_NODE_STRING s) (compile_node_recursive mem (FILTER_NODE_STRING s) bc)"
proof -
  show "emits bc (FILTER_NODE_FIELD f) (compile_node_recursive mem (FILTER_NODE_FIELD f) bc)"
    using emit_extends [OF assms] unfolding emits_def compile_node_recursive.simps
    by (metis code_field)
  show "emits bc (FILTER_NODE_NUMBER v) (compile_node_recursive mem (FILTER_NODE_NUMBER v) bc)"
    using emit_extends [OF assms] unfolding emits_def compile_node_recursive.simps
    by (metis code_number)
  obtain i b where b: "bytecode_add_string mem bc s = (i, b)" by fastforce
  obtain k where k: "k < length (bc_strings b)" "i = of_nat k" "bc_strings b ! k = s"
    using add_string_extends(3) [OF assms b] by blast
  obtain b' where b': "bytecode_emit mem b (OP_PUSH_STRING i) = (True, b')" "extends b b' [OP_PUSH_STRING i]"
    "bc_strings b' = bc_strings b"
    using emit_extends [OF assms] .
  have "extends bc b' [OP_PUSH_STRING i]"
    using b'(2,3) add_string_extends(1,2) [OF assms b] by (auto simp: extends_def)
  moreover have "code_for (bc_strings b') (FILTER_NODE_STRING s) [OP_PUSH_STRING i]"
    using code_string k b'(3) by simp
  ultimately show "emits bc (FILTER_NODE_STRING s) (compile_node_recursive mem (FILTER_NODE_STRING s) bc)"
    using b b'(1) by (auto simp: emits_def compile_node_recursive.simps)
qed

lemma emits_binary:
  assumes mem: "mem_ok mem" and l: "emits bc l (compile_node_recursive mem l bc)"
    and r: "\<And>bc. emits bc r (compile_node_recursive mem r bc)" and t: "binary_opcode t = Some opcode"
  shows "emits bc (FILTER_NODE_BINARY t l r) (compile_node_recursive mem (FILTER_NODE_BINARY t l r) bc)"
proof -
  obtain b1 cl where b1: "compile_node_recursive mem l bc = (True, b1)" "extends bc b1 cl" "code_for (bc_strings b1) l cl"
    using emitsE [OF l] .
  obtain b2 cr where b2: "compile_node_recursive mem r b1 = (True, b2)" "extends b1 b2 cr" "code_for (bc_strings b2) r cr"
    using emitsE [OF r] .
  obtain b3 where b3: "bytecode_emit mem b2 opcode = (True, b3)" "extends b2 b3 [opcode]" "bc_strings b3 = bc_strings b2"
    using emit_extends [OF mem] .
  have "t \<notin> {FILTER_NODE_IN, FILTER_NODE_AND, FILTER_NODE_OR}" using t by (auto simp: binary_opcode_def)
  then have "compile_node_recursive mem (FILTER_NODE_BINARY t l r) bc = (True, b3)"
    using b1 b2 b3 t by (simp add: compile_node_recursive.simps)
  moreover have "extends bc b3 (cl @ cr @ [opcode])"
    using extends_trans [OF b1(2) extends_trans [OF b2(2) b3(2)]] .
  moreover have "code_for (bc_strings b3) (FILTER_NODE_BINARY t l r) (cl @ cr @ [opcode])"
    using code_binary [OF _ _ t] code_extends(1) [OF b2(2) b1(3)] b2(3) b3(3) by simp
  ultimately show ?thesis by (auto simp: emits_def)
qed

lemma emits_in:
  assumes mem: "mem_ok mem" and l: "emits bc l (compile_node_recursive mem l bc)"
    and items: "\<And>bc. emits_items bc items (compile_items mem items bc)"
  shows "emits bc (FILTER_NODE_BINARY FILTER_NODE_IN l (FILTER_NODE_LIST items))
    (compile_node_recursive mem (FILTER_NODE_BINARY FILTER_NODE_IN l (FILTER_NODE_LIST items)) bc)"
proof -
  let ?i = "OP_IN (of_nat (length items))"
  obtain b1 cl where b1: "compile_node_recursive mem l bc = (True, b1)" "extends bc b1 cl" "code_for (bc_strings b1) l cl"
    using emitsE [OF l] .
  obtain b2 ci where b2: "compile_items mem items b1 = (True, b2)" "extends b1 b2 ci" "code_items (bc_strings b2) items ci"
    using items unfolding emits_items_def by blast
  obtain b3 where b3: "bytecode_emit mem b2 ?i = (True, b3)" "extends b2 b3 [?i]" "bc_strings b3 = bc_strings b2"
    using emit_extends [OF mem] .
  have "extends bc b3 (cl @ ci @ [?i])"
    using extends_trans [OF b1(2) extends_trans [OF b2(2) b3(2)]] .
  moreover have "code_for (bc_strings b3) (FILTER_NODE_BINARY FILTER_NODE_IN l (FILTER_NODE_LIST items)) (cl @ ci @ [?i])"
    using code_in code_extends(1) [OF b2(2) b1(3)] b2(3) b3(3) by simp
  ultimately show ?thesis using b1 b2 b3 by (auto simp: emits_def compile_node_recursive.simps)
qed

lemma emits_jump:
  assumes mem: "mem_ok mem" and l: "emits bc l (compile_node_recursive mem l bc)"
    and r: "\<And>bc. emits bc r (compile_node_recursive mem r bc)"
  shows "\<exists>bc' cl cr. and_then (compile_node_recursive mem l bc) (\<lambda>bc.
          let jump_pos = instruction_count bc in
          and_then (bytecode_emit mem bc (jump 0)) (\<lambda>bc.
          and_then (bytecode_emit mem bc OP_POP) (\<lambda>bc.
          and_then (compile_node_recursive mem r bc) (\<lambda>bc.
            (True, patch_jump jump_pos jump bc))))) = (True, bc') \<and>
    extends bc bc' (cl @ jump (1 + of_nat (length cr)) # OP_POP # cr) \<and>
    code_for (bc_strings bc') l cl \<and> code_for (bc_strings bc') r cr"
proof -
  obtain b1 cl where b1: "compile_node_recursive mem l bc = (True, b1)" "extends bc b1 cl" "code_for (bc_strings b1) l cl"
    using emitsE [OF l] .
  obtain b2 where b2: "bytecode_emit mem b1 (jump 0) = (True, b2)" "extends b1 b2 [jump 0]" "bc_strings b2 = bc_strings b1"
    using emit_extends [OF mem] .
  obtain b3 where b3: "bytecode_emit mem b2 OP_POP = (True, b3)" "extends b2 b3 [OP_POP]" "bc_strings b3 = bc_strings b2"
    using emit_extends [OF mem] .
  obtain b4 cr where b4: "compile_node_recursive mem r b3 = (True, b4)" "extends b3 b4 cr" "code_for (bc_strings b4) r cr"
    using emitsE [OF r] .
  let ?b5 = "patch_jump (instruction_count b1) jump b4"
  have "bc_instructions b4 = bc_instructions b1 @ jump 0 # OP_POP # cr"
    using b2(2) b3(2) b4(2) by (simp add: extends_def)
  then have "bc_instructions ?b5 = bc_instructions b1 @ jump (1 + of_nat (length cr)) # OP_POP # cr"
    by (simp add: patch_jump_def add.commute)
  moreover have "bc_strings ?b5 = bc_strings b4" by (simp add: patch_jump_def)
  ultimately have "extends bc ?b5 (cl @ jump (1 + of_nat (length cr)) # OP_POP # cr)"
    using b1(2) b2(2) b3(2) b4(2) by (auto simp: extends_def)
  moreover have "code_for (bc_strings ?b5) l cl"
    using code_extends(1) [OF b4(2)] b1(3) b2(3) b3(3) \<open>bc_strings ?b5 = bc_strings b4\<close> by simp
  ultimately show ?thesis
    using b1(1) b2(1) b3(1) b4(1,3) \<open>bc_strings ?b5 = bc_strings b4\<close> by (auto simp: Let_def)
qed

lemma emits_items_all:
  assumes "\<And>n bc. n \<in> set ns \<Longrightarrow> emits bc n (compile_node_recursive mem n bc)"
  shows "emits_items bc ns (compile_items mem ns bc)"
  using assms
proof (induction ns arbitrary: bc)
  case Nil
  then show ?case by (auto simp: emits_items_def compile_items.simps extends_def intro: code_nil)
next
  case (Cons n ns)
  obtain b1 c1 where b1: "compile_node_recursive mem n bc = (True, b1)" "extends bc b1 c1" "code_for (bc_strings b1) n c1"
    using emitsE [of bc n] Cons.prems by (metis list.set_intros(1))
  have "emits_items b1 ns (compile_items mem ns b1)" using Cons by simp
  then obtain b2 c2 where b2: "compile_items mem ns b1 = (True, b2)" "extends b1 b2 c2" "code_items (bc_strings b2) ns c2"
    unfolding emits_items_def by blast
  show ?case
    using b1 b2 extends_trans [OF b1(2) b2(2)] code_cons [OF code_extends(1) [OF b2(2) b1(3)] b2(3)]
    by (auto simp: emits_items_def compile_items.simps)
qed

lemma binary_opcode_None: "binary_opcode t = None \<longleftrightarrow> t \<in> {FILTER_NODE_IN, FILTER_NODE_AND, FILTER_NODE_OR}"
  by (cases t) (simp_all add: binary_opcode_def)

lemma compile_emits_aux:
  assumes mem: "mem_ok mem"
  shows "(compilable n \<longrightarrow> (\<forall>bc. emits bc n (compile_node_recursive mem n bc))) \<and>
    (\<forall>items. n = FILTER_NODE_LIST items \<longrightarrow> list_all compilable items \<longrightarrow>
      (\<forall>bc. emits_items bc items (compile_items mem items bc)))"
proof (induction n)
  case (FILTER_NODE_BINARY t l r)
  have "emits bc (FILTER_NODE_BINARY t l r) (compile_node_recursive mem (FILTER_NODE_BINARY t l r) bc)"
    if c: "compilable (FILTER_NODE_BINARY t l r)" for bc
  proof -
    have l: "\<And>bc. emits bc l (compile_node_recursive mem l bc)" using FILTER_NODE_BINARY c by simp
    consider (plain) opcode where "binary_opcode t = Some opcode" | (In) "t = FILTER_NODE_IN"
      | (And) "t = FILTER_NODE_AND" | (Or) "t = FILTER_NODE_OR"
      using binary_opcode_None [of t] by (cases "binary_opcode t") auto
    then show ?thesis
    proof cases
      case plain
      then have "t \<noteq> FILTER_NODE_IN" by (auto simp: binary_opcode_def)
      then have "\<And>bc. emits bc r (compile_node_recursive mem r bc)" using c FILTER_NODE_BINARY by simp
      then show ?thesis using emits_binary [OF mem l _ plain] by blast
    next
      case In
      then obtain items where r: "r = FILTER_NODE_LIST items" "list_all compilable items"
        using c by (cases r) auto
      then show ?thesis using emits_in [OF mem l] FILTER_NODE_BINARY(2) In by blast
    next
      case And
      then have r: "\<And>bc. emits bc r (compile_node_recursive mem r bc)" using c FILTER_NODE_BINARY by simp
      obtain bc' cl cr where "compile_node_recursive mem (FILTER_NODE_BINARY t l r) bc = (True, bc')"
        "extends bc bc' (cl @ OP_JUMP_IF_FALSE (1 + of_nat (length cr)) # OP_POP # cr)"
        "code_for (bc_strings bc') l cl" "code_for (bc_strings bc') r cr"
        using emits_jump [OF mem l r, of bc OP_JUMP_IF_FALSE] by (auto simp: compile_node_recursive.simps And)
      then show ?thesis unfolding emits_def And using code_and by blast
    next
      case Or
      then have r: "\<And>bc. emits bc r (compile_node_recursive mem r bc)" using c FILTER_NODE_BINARY by simp
      obtain bc' cl cr where "compile_node_recursive mem (FILTER_NODE_BINARY t l r) bc = (True, bc')"
        "extends bc bc' (cl @ OP_JUMP_IF_TRUE (1 + of_nat (length cr)) # OP_POP # cr)"
        "code_for (bc_strings bc') l cl" "code_for (bc_strings bc') r cr"
        using emits_jump [OF mem l r, of bc OP_JUMP_IF_TRUE] by (auto simp: compile_node_recursive.simps Or)
      then show ?thesis unfolding emits_def Or using code_or by blast
    qed
  qed
  then show ?case by simp
next
  case (FILTER_NODE_NOT n)
  have "emits bc (FILTER_NODE_NOT n) (compile_node_recursive mem (FILTER_NODE_NOT n) bc)" if c: "compilable n" for bc
  proof -
    obtain b1 c where b1: "compile_node_recursive mem n bc = (True, b1)" "extends bc b1 c" "code_for (bc_strings b1) n c"
      using FILTER_NODE_NOT c unfolding emits_def by blast
    obtain b2 where b2: "bytecode_emit mem b1 OP_NOT = (True, b2)" "extends b1 b2 [OP_NOT]" "bc_strings b2 = bc_strings b1"
      using emit_extends [OF mem] .
    show ?thesis
      using b1 b2 extends_trans [OF b1(2) b2(2)] code_not by (auto simp: emits_def compile_node_recursive.simps)
  qed
  then show ?case by simp
next
  case (FILTER_NODE_LIST ns)
  then show ?case using emits_items_all [of ns mem] by (simp add: list_all_iff)
qed (simp_all add: emits_literals [OF mem])

lemma compile_emits:
  "mem_ok mem \<Longrightarrow> compilable n \<Longrightarrow> emits bc n (compile_node_recursive mem n bc)"
  using compile_emits_aux by blast

lemma and_then_fst: "fst (and_then r f) \<longleftrightarrow> fst r \<and> fst (f (snd r))"
  by (simp add: and_then_def split: prod.split)

lemma items_accepts:
  "(\<And>n bc. n \<in> set ns \<Longrightarrow> fst (compile_node_recursive mem n bc) \<Longrightarrow> compilable n) \<Longrightarrow>
     fst (compile_items mem ns bc) \<Longrightarrow> list_all compilable ns"
  by (induction ns arbitrary: bc) (auto simp: compile_items.simps and_then_fst)

lemma compile_accepts_aux:
  "(\<forall>bc. fst (compile_node_recursive mem n bc) \<longrightarrow> compilable n) \<and>
   (\<forall>items. n = FILTER_NODE_LIST items \<longrightarrow> (\<forall>bc. fst (compile_items mem items bc) \<longrightarrow> list_all compilable items))"
proof (induction n)
  case (FILTER_NODE_BINARY t l r)
  have "compilable (FILTER_NODE_BINARY t l r)"
    if c: "fst (compile_node_recursive mem (FILTER_NODE_BINARY t l r) bc)" for bc
  proof -
    have l: "compilable l"
      using FILTER_NODE_BINARY c by (auto simp: compile_node_recursive.simps and_then_fst Let_def split: if_splits)
    show ?thesis
    proof (cases "t = FILTER_NODE_IN")
      case True
      then show ?thesis
        using l c FILTER_NODE_BINARY(2) by (cases r) (auto simp: compile_node_recursive.simps and_then_fst)
    next
      case False
      then show ?thesis
        using l c FILTER_NODE_BINARY(2)
        by (auto simp: compile_node_recursive.simps and_then_fst Let_def split: if_splits)
    qed
  qed
  then show ?case by (auto simp del: compilable.simps)
next
  case (FILTER_NODE_LIST ns)
  then show ?case using items_accepts [of ns mem] by (auto simp: compile_node_recursive.simps)
qed (auto simp: compile_node_recursive.simps and_then_fst)

lemma compile_accepts: "fst (compile_node_recursive mem n bc) \<Longrightarrow> compilable n"
  using compile_accepts_aux by blast

lemma compile_iff:
  assumes "mem_ok mem"
  shows "fst (compile_node_recursive mem n bc) \<longleftrightarrow> compilable n"
  using compile_accepts compile_emits [OF assms] emitsE by (metis fst_conv)

lemma filter_compile_code:
  assumes mem: "mem_ok mem" and e: "fe_valid e" "fe_ast e = Some n" and n: "compilable n"
  obtains bc c where "filter_compile mem (Some e) = Some bc" "bc_instructions bc = c @ [OP_RETURN]"
    "code_for (bc_strings bc) n c" "length (bc_strings bc) \<le> length c"
    "bc_original_instruction_count bc = instruction_count bc"
proof -
  let ?b0 = "\<lparr>bc_instructions = [], bc_instruction_capacity = 64, bc_strings = [],
             bc_string_capacity = 16, bc_original_instruction_count = 0, bc_optimizations_applied = 0\<rparr>"
  obtain b1 c where b1: "compile_node_recursive mem n ?b0 = (True, b1)" "extends ?b0 b1 c" "code_for (bc_strings b1) n c"
    using emitsE [OF compile_emits [OF mem n]] .
  obtain b2 where b2: "bytecode_emit mem b1 OP_RETURN = (True, b2)" "extends b1 b2 [OP_RETURN]" "bc_strings b2 = bc_strings b1"
    using emit_extends [OF mem] .
  let ?b = "b2\<lparr>bc_original_instruction_count := instruction_count b2\<rparr>"
  have "filter_compile mem (Some e) = Some ?b"
    using mem e b1 b2 by (simp add: filter_compile_def bytecode_create_def)
  moreover have "bc_instructions ?b = c @ [OP_RETURN]" "length (bc_strings ?b) \<le> length c"
    using b1(2) b2(2,3) by (auto simp: extends_def)
  ultimately show thesis using that b1(3) b2(3) by simp
qed

lemma filter_compile_None:
  assumes "\<not> compilable n" "fe_ast e = Some n"
  shows "filter_compile mem (Some e) = None"
  using assms compile_accepts [of mem n]
  by (auto simp: filter_compile_def and_then_def split: option.split prod.split bool.split) (metis fst_conv)

end
