(* ===== verification/Nl_Event.thy ===== *)
theory Nl_Event
  imports C_Lib
begin

text \<open>
  The event that travels through the monitor (\<^verbatim>\<open>struct nlmon_event\<close> of \<^verbatim>\<open>event_processor.h\<close>) with the
  decoded netlink payloads of \<^verbatim>\<open>nlmon_nl_route.h\<close>, \<^verbatim>\<open>nlmon_nl_genl.h\<close>, \<^verbatim>\<open>nlmon_nl_diag.h\<close> and
  \<^verbatim>\<open>nlmon_nl_netfilter.h\<close>. Character arrays are the C string they hold; a C \<^verbatim>\<open>int\<close> is a 32-bit word.
\<close>

record nlmon_link_info =
  link_ifname :: string
  link_ifindex :: i32
  link_flags :: u32
  link_mtu :: u32
  link_addr :: "u8 list"
  link_qdisc :: string
  link_operstate :: i32

record nlmon_addr_info =
  addr_family :: i32
  addr_ifindex :: i32
  addr_prefixlen :: u8
  addr_scope :: u8
  addr_addr :: string
  addr_label :: string

record nlmon_route_info =
  route_family :: i32
  route_dst_len :: u8
  route_src_len :: u8
  route_tos :: u8
  route_protocol :: u8
  route_scope :: u8
  route_type :: u8
  route_dst :: string
  route_src :: string
  route_gateway :: string
  route_oif :: i32
  route_priority :: u32

record nlmon_neigh_info =
  neigh_family :: i32
  neigh_ifindex :: i32
  neigh_state :: u16
  neigh_flags :: u8
  neigh_dst :: string
  neigh_lladdr :: "u8 list"

record nlmon_diag_info =
  diag_family :: u8
  diag_state :: u8
  diag_protocol :: u8
  diag_src_port :: u16
  diag_dst_port :: u16
  diag_src_addr :: string
  diag_dst_addr :: string
  diag_inode :: u32
  diag_uid :: u32
  diag_rqueue :: u32
  diag_wqueue :: u32
  diag_timer :: u8
  diag_retrans :: u8

record nlmon_ct_info =
  ct_protocol :: u8
  ct_tcp_state :: u8
  ct_src_addr :: string
  ct_dst_addr :: string
  ct_src_port :: u16
  ct_dst_port :: u16
  ct_mark :: u32
  ct_packets_orig :: u64
  ct_packets_reply :: u64
  ct_bytes_orig :: u64
  ct_bytes_reply :: u64

record nlmon_nl80211_info =
  nl80211_cmd :: u8
  nl80211_wiphy :: i32
  nl80211_ifindex :: i32
  nl80211_ifname :: string
  nl80211_iftype :: u32
  nl80211_mac :: "u8 list"
  nl80211_freq :: u32
  nl80211_channel_type :: u32

record nlmon_qca_vendor_info =
  qca_subcmd :: u32
  qca_subcmd_name :: string
  qca_vendor_id :: u32

text \<open>
  The union of payload pointers. C does not record which member was stored; the constructor here
  is the structure the pointer really points to, so that reading it as another structure shows.
\<close>

datatype nl_data =
    NL_DATA_NULL
  | NL_DATA_LINK nlmon_link_info
  | NL_DATA_ADDR nlmon_addr_info
  | NL_DATA_ROUTE nlmon_route_info
  | NL_DATA_NEIGH nlmon_neigh_info
  | NL_DATA_DIAG nlmon_diag_info
  | NL_DATA_CONNTRACK nlmon_ct_info
  | NL_DATA_NL80211 nlmon_nl80211_info
  | NL_DATA_QCA_VENDOR nlmon_qca_vendor_info
  | NL_DATA_GENERIC

record nlmon_netlink =
  nl_protocol :: i32
  nl_msg_type :: u16
  nl_msg_flags :: u16
  nl_seq :: u32
  nl_pid :: u32
  nl_genl_cmd :: u8
  nl_genl_version :: u8
  nl_genl_family_id :: u16
  nl_genl_family_name :: string
  nl_data :: nl_data

text \<open>The payload \<open>data\<close> is the bytes behind the pointer, absent when it is NULL.\<close>

record nlmon_event =
  ev_timestamp :: u64
  ev_sequence :: u64
  ev_event_type :: u32
  ev_message_type :: u16
  ev_interface :: string
  ev_data :: "u8 list option"
  ev_data_size :: size_t
  ev_netlink :: nlmon_netlink

text \<open>An event cleared by \<open>memset\<close> or \<open>calloc\<close>.\<close>

definition zero_netlink :: nlmon_netlink where
  "zero_netlink =
     \<lparr>nl_protocol = 0, nl_msg_type = 0, nl_msg_flags = 0, nl_seq = 0, nl_pid = 0, nl_genl_cmd = 0,
      nl_genl_version = 0, nl_genl_family_id = 0, nl_genl_family_name = [], nl_data = NL_DATA_NULL\<rparr>"

definition zero_event :: nlmon_event where
  "zero_event =
     \<lparr>ev_timestamp = 0, ev_sequence = 0, ev_event_type = 0, ev_message_type = 0, ev_interface = [],
      ev_data = None, ev_data_size = 0, ev_netlink = zero_netlink\<rparr>"

end
