(* ===== verification/Filter_Eval.thy ===== *)
theory Filter_Eval
  imports Filter_Compiler Nl_Event
begin

text \<open>
  The bytecode interpreter of \<^verbatim>\<open>src/src/core/filter_eval.c\<close>. POSIX \<open>regcomp\<close> and \<open>regexec\<close> are
  parameters: \<open>regcomp\<close> gives the compiled form of a pattern or nothing, \<open>regexec\<close> runs it on a text.
  The stack is a list with its top first. Reading the payload union as a structure that is not
  the one stored there, and indexing outside the string table, are undefined behaviour.
\<close>

section \<open>Values and context\<close>

datatype filter_value = FILTER_VALUE_BOOL bool | FILTER_VALUE_NUMBER i64 | FILTER_VALUE_STRING string

text \<open>
  A slot of the regex cache by its flag \<^verbatim>\<open>valid\<close>. When copying the pattern fails the flag is not written: in the slots of
  the first, zeroed array it is false, in the slots added by \<^verbatim>\<open>realloc\<close> it is indeterminate, and testing it later is
  undefined.
\<close>

datatype 'r regex_slot = Slot_Valid string 'r | Slot_Invalid | Slot_Indeterminate

record 'r filter_eval_context =
  ec_stack :: "filter_value list"
  ec_stack_capacity :: nat
  ec_regex_cache :: "'r regex_slot list"
  ec_regex_cache_capacity :: nat
  ec_eval_count :: u64
  ec_total_time_ns :: u64
  ec_min_time_ns :: u64
  ec_max_time_ns :: u64
  ec_opcode_counts :: "u64 list"
  ec_opcode_times :: "u64 list"

definition value_size :: nat where
  "value_size = 16"

definition regex_slot_size :: nat where
  "regex_slot_size = 80"

section \<open>Stack\<close>

definition stack_push :: "alloc \<Rightarrow> 'r filter_eval_context \<Rightarrow> filter_value \<Rightarrow> bool \<times> 'r filter_eval_context" where
  "stack_push mem ctx v =
     (let grow = length (ec_stack ctx) \<ge> ec_stack_capacity ctx;
          new_capacity = ec_stack_capacity ctx * 2
      in if grow \<and> \<not> mem (new_capacity * value_size) then (False, ctx)
         else let ctx = (if grow then ctx\<lparr>ec_stack_capacity := new_capacity\<rparr> else ctx)
              in (True, ctx\<lparr>ec_stack := v # ec_stack ctx\<rparr>))"

definition stack_pop :: "'r filter_eval_context \<Rightarrow> (filter_value \<times> 'r filter_eval_context) option" where
  "stack_pop ctx =
     (case ec_stack ctx of [] \<Rightarrow> None | v # vs \<Rightarrow> Some (v, ctx\<lparr>ec_stack := vs\<rparr>))"

definition stack_peek :: "'r filter_eval_context \<Rightarrow> filter_value option" where
  "stack_peek ctx = (case ec_stack ctx of [] \<Rightarrow> None | v # vs \<Rightarrow> Some v)"

section \<open>Regular expressions\<close>

fun cached_regex :: "'r regex_slot list \<Rightarrow> string \<Rightarrow> 'r option outcome" where
  "cached_regex [] pattern = Ok None"
| "cached_regex (Slot_Invalid # slots) pattern = cached_regex slots pattern"
| "cached_regex (Slot_Indeterminate # slots) pattern = UB"
| "cached_regex (Slot_Valid p r # slots) pattern =
     (if strcmp p pattern = 0 then Ok (Some r) else cached_regex slots pattern)"

definition INITIAL_REGEX_CACHE_CAPACITY :: nat where
  "INITIAL_REGEX_CACHE_CAPACITY = 8"

definition add_compiled_regex ::
  "alloc \<Rightarrow> (string \<Rightarrow> 'r option) \<Rightarrow> 'r filter_eval_context \<Rightarrow> string \<Rightarrow> 'r option \<times> 'r filter_eval_context" where
  "add_compiled_regex mem regcomp ctx pattern =
     (let idx = length (ec_regex_cache ctx);
          grow = idx \<ge> ec_regex_cache_capacity ctx;
          new_capacity = ec_regex_cache_capacity ctx * 2
      in if grow \<and> \<not> mem (new_capacity * regex_slot_size) then (None, ctx)
         else let ctx = (if grow then ctx\<lparr>ec_regex_cache_capacity := new_capacity\<rparr> else ctx)
              in if \<not> mem (length pattern + 1)
                 then (None, ctx\<lparr>ec_regex_cache := ec_regex_cache ctx @
                        [if idx < INITIAL_REGEX_CACHE_CAPACITY then Slot_Invalid else Slot_Indeterminate]\<rparr>)
                 else case regcomp pattern of
                   None \<Rightarrow> (None, ctx)
                 | Some r \<Rightarrow> (Some r, ctx\<lparr>ec_regex_cache := ec_regex_cache ctx @ [Slot_Valid pattern r]\<rparr>))"

definition get_compiled_regex ::
  "alloc \<Rightarrow> (string \<Rightarrow> 'r option) \<Rightarrow> 'r filter_eval_context \<Rightarrow> string \<Rightarrow> ('r option \<times> 'r filter_eval_context) outcome" where
  "get_compiled_regex mem regcomp ctx pattern =
     bind_outcome (cached_regex (ec_regex_cache ctx) pattern) (\<lambda>cached.
       Ok (case cached of Some r \<Rightarrow> (Some r, ctx) | None \<Rightarrow> add_compiled_regex mem regcomp ctx pattern))"

definition match_regex ::
  "alloc \<Rightarrow> (string \<Rightarrow> 'r option) \<Rightarrow> ('r \<Rightarrow> string \<Rightarrow> bool) \<Rightarrow> 'r filter_eval_context \<Rightarrow> string \<Rightarrow> string
     \<Rightarrow> (bool \<times> 'r filter_eval_context) outcome" where
  "match_regex mem regcomp regexec ctx txt pattern =
     bind_outcome (get_compiled_regex mem regcomp ctx pattern) (\<lambda>(regex, ctx).
       Ok (case regex of None \<Rightarrow> False | Some r \<Rightarrow> regexec r txt, ctx))"

section \<open>Field extraction\<close>

definition strdup_value :: "alloc \<Rightarrow> string \<Rightarrow> filter_value outcome" where
  "strdup_value mem s = (if mem (length s + 1) then Ok (FILTER_VALUE_STRING s) else Fail)"

text \<open>Assignments to the signed 64-bit \<open>number_val\<close>, from unsigned and from signed types.\<close>

definition num_u :: "'a::len word \<Rightarrow> filter_value outcome" where
  "num_u w = Ok (FILTER_VALUE_NUMBER (ucast w))"

definition num_s :: "'a::len word \<Rightarrow> filter_value outcome" where
  "num_s w = Ok (FILTER_VALUE_NUMBER (scast w))"

definition extract_basic :: "alloc \<Rightarrow> nlmon_event \<Rightarrow> basic_field \<Rightarrow> filter_value outcome" where
  "extract_basic mem ev f = (case f of
     INTERFACE \<Rightarrow> strdup_value mem (ev_interface ev)
   | MESSAGE_TYPE \<Rightarrow> num_u (ev_message_type ev)
   | EVENT_TYPE \<Rightarrow> num_u (ev_event_type ev)
   | TIMESTAMP \<Rightarrow> num_u (ev_timestamp ev)
   | SEQUENCE \<Rightarrow> num_u (ev_sequence ev)
   | NAMESPACE \<Rightarrow> strdup_value mem [])"

definition extract_nl :: "alloc \<Rightarrow> nlmon_netlink \<Rightarrow> nl_field \<Rightarrow> filter_value outcome" where
  "extract_nl mem nl f = (case f of
     NL_PROTOCOL \<Rightarrow> num_s (nl_protocol nl)
   | NL_MSG_TYPE \<Rightarrow> num_u (nl_msg_type nl)
   | NL_MSG_FLAGS \<Rightarrow> num_u (nl_msg_flags nl)
   | NL_SEQ \<Rightarrow> num_u (nl_seq nl)
   | NL_PID \<Rightarrow> num_u (nl_pid nl)
   | NL_GENL_CMD \<Rightarrow> num_u (nl_genl_cmd nl)
   | NL_GENL_VERSION \<Rightarrow> num_u (nl_genl_version nl)
   | NL_GENL_FAMILY_ID \<Rightarrow> num_u (nl_genl_family_id nl)
   | NL_GENL_FAMILY_NAME \<Rightarrow> strdup_value mem (nl_genl_family_name nl))"

definition extract_link :: "alloc \<Rightarrow> nl_data \<Rightarrow> link_field \<Rightarrow> filter_value outcome" where
  "extract_link mem d f = (case d of NL_DATA_NULL \<Rightarrow> Fail
   | NL_DATA_LINK i \<Rightarrow> (case f of
       LINK_IFNAME \<Rightarrow> strdup_value mem (link_ifname i)
     | LINK_IFINDEX \<Rightarrow> num_s (link_ifindex i)
     | LINK_FLAGS \<Rightarrow> num_u (link_flags i)
     | LINK_MTU \<Rightarrow> num_u (link_mtu i)
     | LINK_OPERSTATE \<Rightarrow> num_s (link_operstate i)
     | LINK_QDISC \<Rightarrow> strdup_value mem (link_qdisc i))
   | _ \<Rightarrow> UB)"

definition extract_addr :: "alloc \<Rightarrow> nl_data \<Rightarrow> addr_field \<Rightarrow> filter_value outcome" where
  "extract_addr mem d f = (case d of NL_DATA_NULL \<Rightarrow> Fail
   | NL_DATA_ADDR i \<Rightarrow> (case f of
       ADDR_FAMILY \<Rightarrow> num_s (addr_family i)
     | ADDR_IFINDEX \<Rightarrow> num_s (addr_ifindex i)
     | ADDR_PREFIXLEN \<Rightarrow> num_u (addr_prefixlen i)
     | ADDR_SCOPE \<Rightarrow> num_u (addr_scope i)
     | ADDR_ADDR \<Rightarrow> strdup_value mem (addr_addr i)
     | ADDR_LABEL \<Rightarrow> strdup_value mem (addr_label i))
   | _ \<Rightarrow> UB)"

definition extract_route :: "alloc \<Rightarrow> nl_data \<Rightarrow> route_field \<Rightarrow> filter_value outcome" where
  "extract_route mem d f = (case d of NL_DATA_NULL \<Rightarrow> Fail
   | NL_DATA_ROUTE i \<Rightarrow> (case f of
       ROUTE_FAMILY \<Rightarrow> num_s (route_family i)
     | ROUTE_DST \<Rightarrow> strdup_value mem (route_dst i)
     | ROUTE_SRC \<Rightarrow> strdup_value mem (route_src i)
     | ROUTE_GATEWAY \<Rightarrow> strdup_value mem (route_gateway i)
     | ROUTE_OIF \<Rightarrow> num_s (route_oif i)
     | ROUTE_PROTOCOL \<Rightarrow> num_u (route_protocol i)
     | ROUTE_SCOPE \<Rightarrow> num_u (route_scope i)
     | ROUTE_TYPE \<Rightarrow> num_u (route_type i)
     | ROUTE_PRIORITY \<Rightarrow> num_u (route_priority i))
   | _ \<Rightarrow> UB)"

definition extract_neigh :: "alloc \<Rightarrow> nl_data \<Rightarrow> neigh_field \<Rightarrow> filter_value outcome" where
  "extract_neigh mem d f = (case d of NL_DATA_NULL \<Rightarrow> Fail
   | NL_DATA_NEIGH i \<Rightarrow> (case f of
       NEIGH_FAMILY \<Rightarrow> num_s (neigh_family i)
     | NEIGH_IFINDEX \<Rightarrow> num_s (neigh_ifindex i)
     | NEIGH_STATE \<Rightarrow> num_u (neigh_state i)
     | NEIGH_DST \<Rightarrow> strdup_value mem (neigh_dst i))
   | _ \<Rightarrow> UB)"

definition extract_diag :: "alloc \<Rightarrow> nl_data \<Rightarrow> diag_field \<Rightarrow> filter_value outcome" where
  "extract_diag mem d f = (case d of NL_DATA_NULL \<Rightarrow> Fail
   | NL_DATA_DIAG i \<Rightarrow> (case f of
       DIAG_FAMILY \<Rightarrow> num_u (diag_family i)
     | DIAG_STATE \<Rightarrow> num_u (diag_state i)
     | DIAG_PROTOCOL \<Rightarrow> num_u (diag_protocol i)
     | DIAG_SRC_PORT \<Rightarrow> num_u (diag_src_port i)
     | DIAG_DST_PORT \<Rightarrow> num_u (diag_dst_port i)
     | DIAG_SRC_ADDR \<Rightarrow> strdup_value mem (diag_src_addr i)
     | DIAG_DST_ADDR \<Rightarrow> strdup_value mem (diag_dst_addr i)
     | DIAG_UID \<Rightarrow> num_u (diag_uid i)
     | DIAG_INODE \<Rightarrow> num_u (diag_inode i))
   | _ \<Rightarrow> UB)"

definition extract_ct :: "alloc \<Rightarrow> nl_data \<Rightarrow> ct_field \<Rightarrow> filter_value outcome" where
  "extract_ct mem d f = (case d of NL_DATA_NULL \<Rightarrow> Fail
   | NL_DATA_CONNTRACK i \<Rightarrow> (case f of
       CT_PROTOCOL \<Rightarrow> num_u (ct_protocol i)
     | CT_TCP_STATE \<Rightarrow> num_u (ct_tcp_state i)
     | CT_SRC_ADDR \<Rightarrow> strdup_value mem (ct_src_addr i)
     | CT_DST_ADDR \<Rightarrow> strdup_value mem (ct_dst_addr i)
     | CT_SRC_PORT \<Rightarrow> num_u (ct_src_port i)
     | CT_DST_PORT \<Rightarrow> num_u (ct_dst_port i)
     | CT_MARK \<Rightarrow> num_u (ct_mark i))
   | _ \<Rightarrow> UB)"

definition extract_nl80211 :: "alloc \<Rightarrow> nl_data \<Rightarrow> nl80211_field \<Rightarrow> filter_value outcome" where
  "extract_nl80211 mem d f = (case d of NL_DATA_NULL \<Rightarrow> Fail
   | NL_DATA_NL80211 i \<Rightarrow> (case f of
       NL80211_CMD \<Rightarrow> num_u (nl80211_cmd i)
     | NL80211_WIPHY \<Rightarrow> num_s (nl80211_wiphy i)
     | NL80211_IFINDEX \<Rightarrow> num_s (nl80211_ifindex i)
     | NL80211_IFNAME \<Rightarrow> strdup_value mem (nl80211_ifname i)
     | NL80211_IFTYPE \<Rightarrow> num_u (nl80211_iftype i)
     | NL80211_FREQ \<Rightarrow> num_u (nl80211_freq i))
   | _ \<Rightarrow> UB)"

definition extract_qca :: "alloc \<Rightarrow> nl_data \<Rightarrow> qca_field \<Rightarrow> filter_value outcome" where
  "extract_qca mem d f = (case d of NL_DATA_NULL \<Rightarrow> Fail
   | NL_DATA_QCA_VENDOR i \<Rightarrow> (case f of
       QCA_SUBCMD \<Rightarrow> num_u (qca_subcmd i)
     | QCA_SUBCMD_NAME \<Rightarrow> strdup_value mem (qca_subcmd_name i)
     | QCA_VENDOR_ID \<Rightarrow> num_u (qca_vendor_id i))
   | _ \<Rightarrow> UB)"

definition extract_field :: "alloc \<Rightarrow> nlmon_event \<Rightarrow> u8 \<Rightarrow> filter_value outcome" where
  "extract_field mem ev field_type =
     (let nl = ev_netlink ev; d = nl_data nl in
      case field_of_code field_type of None \<Rightarrow> Fail
      | Some f \<Rightarrow> (case f of
          FILTER_FIELD b \<Rightarrow> extract_basic mem ev b
        | FILTER_FIELD_NL b \<Rightarrow> extract_nl mem nl b
        | FILTER_FIELD_NL_LINK b \<Rightarrow> extract_link mem d b
        | FILTER_FIELD_NL_ADDR b \<Rightarrow> extract_addr mem d b
        | FILTER_FIELD_NL_ROUTE b \<Rightarrow> extract_route mem d b
        | FILTER_FIELD_NL_NEIGH b \<Rightarrow> extract_neigh mem d b
        | FILTER_FIELD_NL_DIAG b \<Rightarrow> extract_diag mem d b
        | FILTER_FIELD_NL_CT b \<Rightarrow> extract_ct mem d b
        | FILTER_FIELD_NL_NL80211 b \<Rightarrow> extract_nl80211 mem d b
        | FILTER_FIELD_NL_QCA b \<Rightarrow> extract_qca mem d b))"

section \<open>Instructions\<close>

definition compare_values :: "filter_value \<Rightarrow> filter_value \<Rightarrow> filter_instruction \<Rightarrow> bool" where
  "compare_values left right op = (case (left, right) of
     (FILTER_VALUE_STRING a, FILTER_VALUE_STRING b) \<Rightarrow>
       (let cmp = strcmp a b in case op of
          OP_EQ \<Rightarrow> cmp = 0 | OP_NE \<Rightarrow> cmp \<noteq> 0 | OP_LT \<Rightarrow> cmp < 0 | OP_GT \<Rightarrow> cmp > 0
        | OP_LE \<Rightarrow> cmp \<le> 0 | OP_GE \<Rightarrow> cmp \<ge> 0 | _ \<Rightarrow> False)
   | (FILTER_VALUE_NUMBER l, FILTER_VALUE_NUMBER r) \<Rightarrow> (case op of
          OP_EQ \<Rightarrow> sint l = sint r | OP_NE \<Rightarrow> sint l \<noteq> sint r | OP_LT \<Rightarrow> sint l < sint r
        | OP_GT \<Rightarrow> sint l > sint r | OP_LE \<Rightarrow> sint l \<le> sint r | OP_GE \<Rightarrow> sint l \<ge> sint r | _ \<Rightarrow> False)
   | _ \<Rightarrow> False)"

definition is_true :: "filter_value \<Rightarrow> bool" where
  "is_true v \<longleftrightarrow> v = FILTER_VALUE_BOOL True"

text \<open>One round of the interpreter loop: go on at a new position, return, or undefined behaviour.\<close>

datatype 'r vm_step = Continue size_t "'r filter_eval_context" | Return bool "'r filter_eval_context" | Undefined

definition push_next :: "alloc \<Rightarrow> size_t \<Rightarrow> 'r filter_eval_context \<Rightarrow> filter_value \<Rightarrow> 'r vm_step" where
  "push_next mem pc ctx v =
     (case stack_push mem ctx v of (False, ctx) \<Rightarrow> Return False ctx | (True, ctx) \<Rightarrow> Continue (pc + 1) ctx)"

text \<open>Pop the right operand, then the left one; a missing operand ends the evaluation.\<close>

definition pop_two ::
  "'r filter_eval_context \<Rightarrow> (filter_value \<Rightarrow> filter_value \<Rightarrow> 'r filter_eval_context \<Rightarrow> 'r vm_step) \<Rightarrow> 'r vm_step" where
  "pop_two ctx f =
     (case stack_pop ctx of None \<Rightarrow> Return False ctx
      | Some (right, ctx) \<Rightarrow>
        (case stack_pop ctx of None \<Rightarrow> Return False ctx
         | Some (left, ctx) \<Rightarrow> f left right ctx))"

definition eval_match ::
  "alloc \<Rightarrow> (string \<Rightarrow> 'r option) \<Rightarrow> ('r \<Rightarrow> string \<Rightarrow> bool) \<Rightarrow> bool \<Rightarrow> size_t \<Rightarrow> 'r filter_eval_context \<Rightarrow> 'r vm_step" where
  "eval_match mem regcomp regexec positive pc ctx =
     pop_two ctx (\<lambda>left right ctx.
       case (left, right) of
         (FILTER_VALUE_STRING l, FILTER_VALUE_STRING r) \<Rightarrow>
           (case match_regex mem regcomp regexec ctx l r of
              Ok (matches, ctx) \<Rightarrow> push_next mem pc ctx (FILTER_VALUE_BOOL (if positive then matches else \<not> matches))
            | _ \<Rightarrow> Undefined)
       | _ \<Rightarrow> push_next mem pc ctx (FILTER_VALUE_BOOL False))"

definition eval_in :: "alloc \<Rightarrow> u32 \<Rightarrow> size_t \<Rightarrow> 'r filter_eval_context \<Rightarrow> 'r vm_step" where
  "eval_in mem count pc ctx =
     (let n = unat count; vs = ec_stack ctx in
      if \<not> mem (n * value_size) then Return False ctx
      else if length vs \<le> n then Return False (ctx\<lparr>ec_stack := []\<rparr>)
      else let list_items = rev (take n vs); left = vs ! n;
               found = list_ex (\<lambda>item. compare_values left item OP_EQ) list_items
           in push_next mem pc (ctx\<lparr>ec_stack := drop (n + 1) vs\<rparr>) (FILTER_VALUE_BOOL found))"

definition eval_instr ::
  "alloc \<Rightarrow> (string \<Rightarrow> 'r option) \<Rightarrow> ('r \<Rightarrow> string \<Rightarrow> bool) \<Rightarrow> string list \<Rightarrow> nlmon_event \<Rightarrow>
     filter_instruction \<Rightarrow> size_t \<Rightarrow> 'r filter_eval_context \<Rightarrow> 'r vm_step" where
  "eval_instr mem regcomp regexec strings ev instr pc ctx =
     (let compare = pop_two ctx (\<lambda>left right ctx.
            push_next mem pc ctx (FILTER_VALUE_BOOL (compare_values left right instr)))
      in case instr of
        OP_PUSH_FIELD f \<Rightarrow>
          (case extract_field mem ev f of
             Ok v \<Rightarrow> push_next mem pc ctx v | Fail \<Rightarrow> Return False ctx | UB \<Rightarrow> Undefined)
      | OP_PUSH_STRING i \<Rightarrow>
          (if unat i < length strings
           then if mem (length (strings ! unat i) + 1)
                then push_next mem pc ctx (FILTER_VALUE_STRING (strings ! unat i))
                else Return False ctx
           else Undefined)
      | OP_PUSH_NUMBER v \<Rightarrow> push_next mem pc ctx (FILTER_VALUE_NUMBER v)
      | OP_POP \<Rightarrow>
          (case stack_pop ctx of None \<Rightarrow> Return False ctx | Some (_, ctx) \<Rightarrow> Continue (pc + 1) ctx)
      | OP_EQ \<Rightarrow> compare | OP_NE \<Rightarrow> compare | OP_LT \<Rightarrow> compare
      | OP_GT \<Rightarrow> compare | OP_LE \<Rightarrow> compare | OP_GE \<Rightarrow> compare
      | OP_MATCH \<Rightarrow> eval_match mem regcomp regexec True pc ctx
      | OP_NMATCH \<Rightarrow> eval_match mem regcomp regexec False pc ctx
      | OP_IN count \<Rightarrow> eval_in mem count pc ctx
      | OP_AND \<Rightarrow> pop_two ctx (\<lambda>left right ctx.
          push_next mem pc ctx (FILTER_VALUE_BOOL (is_true left \<and> is_true right)))
      | OP_OR \<Rightarrow> pop_two ctx (\<lambda>left right ctx.
          push_next mem pc ctx (FILTER_VALUE_BOOL (is_true left \<or> is_true right)))
      | OP_NOT \<Rightarrow>
          (case stack_pop ctx of None \<Rightarrow> Return False ctx
           | Some (left, ctx) \<Rightarrow> push_next mem pc ctx (FILTER_VALUE_BOOL (\<not> is_true left)))
      | OP_JUMP off \<Rightarrow> Continue (pc + scast off) ctx
      | OP_JUMP_IF_FALSE off \<Rightarrow>
          (case stack_peek ctx of None \<Rightarrow> Return False ctx
           | Some v \<Rightarrow> Continue (if v = FILTER_VALUE_BOOL False then pc + scast off + 1 else pc + 1) ctx)
      | OP_JUMP_IF_TRUE off \<Rightarrow>
          (case stack_peek ctx of None \<Rightarrow> Return False ctx
           | Some v \<Rightarrow> Continue (if v = FILTER_VALUE_BOOL True then pc + scast off + 1 else pc + 1) ctx)
      | OP_RETURN \<Rightarrow>
          (case stack_pop ctx of None \<Rightarrow> Return False ctx
           | Some (result, ctx) \<Rightarrow> Return (is_true result) ctx)
      | OP_NOP \<Rightarrow> Continue (pc + 1) ctx)"

section \<open>Interpreter\<close>

text \<open>\<open>None\<close>: still running when the fuel ended. Arbitrary bytecode can jump backwards for ever.\<close>

fun eval_bytecode ::
  "nat \<Rightarrow> alloc \<Rightarrow> (string \<Rightarrow> 'r option) \<Rightarrow> ('r \<Rightarrow> string \<Rightarrow> bool) \<Rightarrow> filter_bytecode \<Rightarrow> nlmon_event \<Rightarrow>
     size_t \<Rightarrow> 'r filter_eval_context \<Rightarrow> (bool \<times> 'r filter_eval_context) outcome option" where
  "eval_bytecode 0 mem regcomp regexec bc ev pc ctx = None"
| "eval_bytecode (Suc k) mem regcomp regexec bc ev pc ctx =
     (if unat pc < instruction_count bc then
        (case eval_instr mem regcomp regexec (bc_strings bc) ev (bc_instructions bc ! unat pc) pc ctx of
           Continue pc ctx \<Rightarrow> eval_bytecode k mem regcomp regexec bc ev pc ctx
         | Return b ctx \<Rightarrow> Some (Ok (b, ctx))
         | Undefined \<Rightarrow> Some UB)
      else (case stack_pop ctx of
              None \<Rightarrow> Some (Ok (False, ctx))
            | Some (result, ctx) \<Rightarrow> Some (Ok (is_true result, ctx))))"

declare eval_bytecode.simps [simp del]

section \<open>Public interface\<close>

definition filter_eval_context_create :: "alloc \<Rightarrow> 'r filter_eval_context option" where
  "filter_eval_context_create mem =
     (if \<not> mem 96 then None
      else if \<not> mem (32 * value_size) then None
      else if \<not> mem (INITIAL_REGEX_CACHE_CAPACITY * regex_slot_size) then None
      else if \<not> mem (32 * 8) then None
      else Some \<lparr>ec_stack = [], ec_stack_capacity = 32, ec_regex_cache = [],
             ec_regex_cache_capacity = INITIAL_REGEX_CACHE_CAPACITY, ec_eval_count = 0, ec_total_time_ns = 0,
             ec_min_time_ns = - 1, ec_max_time_ns = 0, ec_opcode_counts = replicate 32 0,
             ec_opcode_times = replicate 32 0\<rparr>)"

text \<open>With no context a temporary one is created; the caller's context comes back updated.\<close>

definition filter_eval ::
  "nat \<Rightarrow> alloc \<Rightarrow> (string \<Rightarrow> 'r option) \<Rightarrow> ('r \<Rightarrow> string \<Rightarrow> bool) \<Rightarrow> filter_bytecode option \<Rightarrow>
     nlmon_event option \<Rightarrow> 'r filter_eval_context option \<Rightarrow>
     (bool \<times> 'r filter_eval_context option) outcome option" where
  "filter_eval fuel mem regcomp regexec bytecode event ctx =
     (case (bytecode, event) of
        (Some bc, Some ev) \<Rightarrow>
          (case (case ctx of None \<Rightarrow> filter_eval_context_create mem | Some c \<Rightarrow> Some c) of
             None \<Rightarrow> Some (Ok (False, ctx))
           | Some local_ctx \<Rightarrow>
             map_option (\<lambda>r. bind_outcome r (\<lambda>(result, local_ctx).
                 Ok (result, case ctx of None \<Rightarrow> None | Some _ \<Rightarrow> Some local_ctx)))
               (eval_bytecode fuel mem regcomp regexec bc ev 0 (local_ctx\<lparr>ec_stack := []\<rparr>)))
      | _ \<Rightarrow> Some (Ok (False, ctx)))"

text \<open>Elapsed time from two readings of the monotonic clock, seconds and nanoseconds.\<close>

definition elapsed_time :: "i64 \<times> i64 \<Rightarrow> i64 \<times> i64 \<Rightarrow> u64" where
  "elapsed_time start end =
     (fst end - fst start) * 1000000000 + (snd end - snd start)"

definition update_eval_stats :: "u64 \<Rightarrow> 'r filter_eval_context \<Rightarrow> 'r filter_eval_context" where
  "update_eval_stats elapsed ctx =
     ctx\<lparr>ec_eval_count := ec_eval_count ctx + 1,
         ec_total_time_ns := ec_total_time_ns ctx + elapsed,
         ec_min_time_ns := (if elapsed < ec_min_time_ns ctx then elapsed else ec_min_time_ns ctx),
         ec_max_time_ns := (if elapsed > ec_max_time_ns ctx then elapsed else ec_max_time_ns ctx)\<rparr>"

definition filter_eval_with_profiling ::
  "nat \<Rightarrow> alloc \<Rightarrow> (string \<Rightarrow> 'r option) \<Rightarrow> ('r \<Rightarrow> string \<Rightarrow> bool) \<Rightarrow> i64 \<times> i64 \<Rightarrow> i64 \<times> i64 \<Rightarrow>
     filter_bytecode option \<Rightarrow> nlmon_event option \<Rightarrow> 'r filter_eval_context option \<Rightarrow>
     (bool \<times> u64 option \<times> 'r filter_eval_context option) outcome option" where
  "filter_eval_with_profiling fuel mem regcomp regexec start end bytecode event ctx =
     (if Option.is_none bytecode \<or> Option.is_none event \<or> Option.is_none ctx
      then Some (Ok (False, None, ctx))
      else let elapsed = elapsed_time start end in
        map_option (\<lambda>r. bind_outcome r (\<lambda>(result, ctx).
            Ok (result, Some elapsed, map_option (update_eval_stats elapsed) ctx)))
          (filter_eval fuel mem regcomp regexec bytecode event ctx))"

definition filter_eval_stats :: "'r filter_eval_context \<Rightarrow> u64 \<times> u64 \<times> u64 \<times> u64" where
  "filter_eval_stats ctx =
     (ec_eval_count ctx,
      if ec_eval_count ctx > 0 then ec_total_time_ns ctx div ec_eval_count ctx else 0,
      ec_min_time_ns ctx, ec_max_time_ns ctx)"

definition filter_eval_reset_stats :: "'r filter_eval_context \<Rightarrow> 'r filter_eval_context" where
  "filter_eval_reset_stats ctx =
     ctx\<lparr>ec_eval_count := 0, ec_total_time_ns := 0, ec_min_time_ns := - 1, ec_max_time_ns := 0,
         ec_opcode_counts := replicate 32 0, ec_opcode_times := replicate 32 0\<rparr>"

definition filter_eval_opcode_stats :: "'r filter_eval_context \<Rightarrow> int \<Rightarrow> (u64 \<times> u64) option" where
  "filter_eval_opcode_stats ctx opcode =
     (if opcode < 0 \<or> opcode \<ge> 32 then None
      else Some (ec_opcode_counts ctx ! nat opcode, ec_opcode_times ctx ! nat opcode))"

section \<open>Profiling statistics\<close>

text \<open>The fields that the profiled evaluation keeps; evaluating alone does not change them.\<close>

definition ec_stats :: "'r filter_eval_context \<Rightarrow> u64 \<times> u64 \<times> u64 \<times> u64" where
  "ec_stats ctx = (ec_eval_count ctx, ec_total_time_ns ctx, ec_min_time_ns ctx, ec_max_time_ns ctx)"

fun step_stats :: "(u64 \<times> u64 \<times> u64 \<times> u64 \<Rightarrow> bool) \<Rightarrow> 'r vm_step \<Rightarrow> bool" where
  "step_stats P (Continue pc ctx) = P (ec_stats ctx)"
| "step_stats P (Return b ctx) = P (ec_stats ctx)"
| "step_stats P Undefined = True"

lemma push_next_stats: "P (ec_stats ctx) \<Longrightarrow> step_stats P (push_next mem pc ctx v)"
  by (auto simp: push_next_def stack_push_def ec_stats_def Let_def split: prod.splits if_splits bool.splits)

lemma stack_pop_stats: "stack_pop ctx = Some (v, ctx') \<Longrightarrow> ec_stats ctx' = ec_stats ctx"
  by (auto simp: stack_pop_def ec_stats_def split: list.splits)

lemma match_regex_stats: "match_regex mem rc re ctx txt p = Ok (b, ctx') \<Longrightarrow> ec_stats ctx' = ec_stats ctx"
  by (auto simp: match_regex_def get_compiled_regex_def add_compiled_regex_def bind_outcome_Ok_iff ec_stats_def Let_def
    split: option.splits if_splits)

lemma pop_two_stats:
  "P (ec_stats ctx) \<Longrightarrow> (\<And>l r c. P (ec_stats c) \<Longrightarrow> step_stats P (f l r c)) \<Longrightarrow> step_stats P (pop_two ctx f)"
  by (auto simp: pop_two_def dest!: stack_pop_stats split: option.splits)

lemma eval_match_stats: "P (ec_stats ctx) \<Longrightarrow> step_stats P (eval_match mem rc re positive pc ctx)"
  unfolding eval_match_def
  by (rule pop_two_stats)
    (auto intro!: push_next_stats dest!: match_regex_stats split: filter_value.splits outcome.splits)

lemma eval_in_stats: "P (ec_stats ctx) \<Longrightarrow> step_stats P (eval_in mem count pc ctx)"
  by (auto simp: eval_in_def Let_def ec_stats_def intro!: push_next_stats)

lemma eval_instr_stats: "P (ec_stats ctx) \<Longrightarrow> step_stats P (eval_instr mem rc re strings ev instr pc ctx)"
  by (cases instr)
    (auto simp: eval_instr_def Let_def dest!: stack_pop_stats
      intro!: push_next_stats pop_two_stats eval_match_stats eval_in_stats split: outcome.splits option.splits)

lemma eval_bytecode_stats:
  "eval_bytecode fuel mem rc re bc ev pc ctx = Some (Ok (b, ctx')) \<Longrightarrow> ec_stats ctx' = ec_stats ctx"
proof (induction fuel arbitrary: pc ctx)
  case (Suc k)
  have "step_stats (\<lambda>s. s = ec_stats ctx) (eval_instr mem rc re (bc_strings bc) ev (bc_instructions bc ! unat pc) pc ctx)"
    by (rule eval_instr_stats) simp
  then show ?case
    using Suc by (auto simp: eval_bytecode.simps dest!: stack_pop_stats split: if_splits vm_step.splits option.splits)
qed (simp add: eval_bytecode.simps)

lemma filter_eval_stats_same:
  "filter_eval fuel mem rc re (Some bc) (Some ev) (Some ctx) = Some (Ok (b, ctx')) \<Longrightarrow> map_option ec_stats ctx' = Some (ec_stats ctx)"
  by (auto simp: filter_eval_def bind_outcome_Ok_iff ec_stats_def dest!: eval_bytecode_stats)

text \<open>A reading of the monotonic clock in nanoseconds; a difference of readings is what \<open>elapsed_time\<close> computes.\<close>

definition clock_ns :: "i64 \<times> i64 \<Rightarrow> int" where
  "clock_ns t = sint (fst t) * 1000000000 + sint (snd t)"

lemma elapsed_time_ns: "elapsed_time start end = of_int (clock_ns end - clock_ns start)"
  by (simp add: elapsed_time_def clock_ns_def algebra_simps)

text \<open>
  Profiled evaluations one after the other in the same context. Each has its own readings of the clock, allocations,
  bytecode and event.
\<close>

record profiled_eval =
  pe_start :: "i64 \<times> i64"
  pe_end :: "i64 \<times> i64"
  pe_mem :: alloc
  pe_bytecode :: filter_bytecode
  pe_event :: nlmon_event

fun profiled_evals ::
  "nat \<Rightarrow> (string \<Rightarrow> 'r option) \<Rightarrow> ('r \<Rightarrow> string \<Rightarrow> bool) \<Rightarrow> profiled_eval list \<Rightarrow> 'r filter_eval_context option \<Rightarrow>
     (bool list \<times> 'r filter_eval_context option) outcome option" where
  "profiled_evals fuel rc re [] ctx = Some (Ok ([], ctx))"
| "profiled_evals fuel rc re (e # es) ctx =
     (case filter_eval_with_profiling fuel (pe_mem e) rc re (pe_start e) (pe_end e) (Some (pe_bytecode e)) (Some (pe_event e)) ctx of
        None \<Rightarrow> None
      | Some (Ok (b, _, ctx)) \<Rightarrow> map_option (\<lambda>r. bind_outcome r (\<lambda>(bs, ctx). Ok (b # bs, ctx))) (profiled_evals fuel rc re es ctx)
      | Some _ \<Rightarrow> Some UB)"

definition pe_time :: "profiled_eval \<Rightarrow> nat" where
  "pe_time e = nat (clock_ns (pe_end e) - clock_ns (pe_start e))"

lemma profiled_evals_stats:
  assumes "profiled_evals fuel rc re es (Some ctx) = Some (Ok (bs, ctx'))" "\<forall>e \<in> set es. clock_ns (pe_start e) \<le> clock_ns (pe_end e)"
  shows "map_option ec_stats ctx' = Some (ec_eval_count ctx + of_nat (length es), ec_total_time_ns ctx + of_nat (sum_list (map pe_time es)),
    fold min (map (of_nat \<circ> pe_time) es) (ec_min_time_ns ctx), fold max (map (of_nat \<circ> pe_time) es) (ec_max_time_ns ctx))"
  using assms
proof (induction es arbitrary: ctx bs)
  case (Cons e es)
  have t: "elapsed_time (pe_start e) (pe_end e) = of_nat (pe_time e)"
    using Cons.prems(2) by (simp add: elapsed_time_ns pe_time_def)
  obtain b ctx1 bs' where e: "filter_eval fuel (pe_mem e) rc re (Some (pe_bytecode e)) (Some (pe_event e)) (Some ctx) = Some (Ok (b, Some ctx1))"
    and es: "profiled_evals fuel rc re es (Some (update_eval_stats (of_nat (pe_time e)) ctx1)) = Some (Ok (bs', ctx'))"
  proof -
    obtain b c where f: "filter_eval fuel (pe_mem e) rc re (Some (pe_bytecode e)) (Some (pe_event e)) (Some ctx) = Some (Ok (b, c))"
      using Cons.prems(1) by (auto simp: filter_eval_with_profiling_def bind_outcome_Ok_iff Let_def split: option.splits outcome.splits)
    then obtain ctx1 where c: "c = Some ctx1" using filter_eval_stats_same by blast
    then obtain bs' where "profiled_evals fuel rc re es (Some (update_eval_stats (of_nat (pe_time e)) ctx1)) = Some (Ok (bs', ctx'))"
      using Cons.prems(1) f by (auto simp: filter_eval_with_profiling_def t bind_outcome_Ok_iff Let_def)
    then show thesis using that f c by blast
  qed
  have "ec_stats ctx1 = ec_stats ctx" using filter_eval_stats_same [OF e] by simp
  then show ?case
    using Cons.IH [OF es] Cons.prems(2)
    by (auto simp: update_eval_stats_def ec_stats_def min_def max_def algebra_simps)
qed (auto simp: ec_stats_def)

lemma fold_min_top: "ts \<noteq> [] \<Longrightarrow> fold min ts (- 1 :: u64) = Min (set ts)"
  using Min.set_eq_fold [of "hd ts" "tl ts"] by (cases ts) (simp_all add: min_def)

lemma fold_max_bot: "ts \<noteq> [] \<Longrightarrow> fold max ts (0 :: u64) = Max (set ts)"
  using Max.set_eq_fold [of "hd ts" "tl ts"] by (cases ts) (simp_all add: max_def)

lemma unat_small: "n < 2 ^ 64 \<Longrightarrow> unat (of_nat n :: u64) = n"
  by (simp add: unsigned_of_nat take_bit_nat_eq_self)

lemma of_nat_Min_Max:
  assumes "ts \<noteq> []" "\<forall>t \<in> set ts. t < 2 ^ 64"
  shows "Min (of_nat ` set ts) = (of_nat (Min (set ts)) :: u64)" "Max (of_nat ` set ts) = (of_nat (Max (set ts)) :: u64)"
proof -
  have mono: "(of_nat a :: u64) \<le> of_nat b" if "a \<le> b" "b \<in> set ts" for a b
  proof -
    have "b < 2 ^ 64" using that(2) assms(2) by blast
    then show ?thesis using that(1) unat_small [of a] unat_small [of b] by (simp add: word_le_nat_alt)
  qed
  show "Min (of_nat ` set ts) = (of_nat (Min (set ts)) :: u64)"
    using assms(1) by (intro Min_eqI) (auto intro!: mono Min_le imageI Min_in)
  show "Max (of_nat ` set ts) = (of_nat (Max (set ts)) :: u64)"
    using assms(1) by (intro Max_eqI) (auto intro!: mono Max_ge imageI Max_in)
qed

text \<open>C25. Profiling tells the truth: after a reset and a non-empty sequence of profiled evaluations in one context that all
  return (of any bytecode and events, with clock readings that do not run backwards; fewer than \<open>2^64\<close>, and together less than
  \<open>2^64\<close> nanoseconds) the reported count, average, minimum and maximum are those of the times between the two
  readings of each evaluation.\<close>

theorem profiling_statistics:
  assumes "profiled_evals fuel rc re es (Some (filter_eval_reset_stats ctx)) = Some (Ok (bs, Some ctx'))"
    and "es \<noteq> []" "length es < 2 ^ 64" "\<forall>e \<in> set es. clock_ns (pe_start e) \<le> clock_ns (pe_end e)"
    and "ts = map (\<lambda>e. nat (clock_ns (pe_end e) - clock_ns (pe_start e))) es" "sum_list ts < 2 ^ 64"
  shows "filter_eval_stats ctx' =
    (of_nat (length ts), of_nat (sum_list ts div length ts), of_nat (Min (set ts)), of_nat (Max (set ts)))"
proof -
  have ts: "ts = map pe_time es" using assms(5) by (simp add: pe_time_def [abs_def])
  have ne: "ts \<noteq> []" "length ts = length es" using assms(2) ts by simp_all
  have small: "\<forall>t \<in> set ts. t < 2 ^ 64" using assms(6) member_le_sum_list [of _ ts] le_less_trans by blast
  have n: "unat (of_nat (length ts) :: u64) = length ts" using assms(3) ne(2) unat_small by simp
  then have "(of_nat (length ts) :: u64) > 0" using ne(1) by (metis length_greater_0_conv unat_0 word_gt_0 less_irrefl)
  moreover have "(of_nat (sum_list ts) :: u64) div of_nat (length ts) = of_nat (sum_list ts div length ts)"
    using n unat_small [OF assms(6)] by (simp add: word_arith_nat_div)
  moreover have "(\<lambda>e. of_nat (pe_time e) :: u64) ` set es = of_nat ` set ts" by (simp add: ts image_image)
  ultimately show ?thesis
    using profiled_evals_stats [OF assms(1,4)] of_nat_Min_Max [OF ne(1) small] assms(2) ne(2)
    by (simp add: filter_eval_stats_def ec_stats_def filter_eval_reset_stats_def fold_min_top fold_max_bot flip: ts)
qed


text \<open>Two evaluations of a program that pushes a number and returns, of 30 and 1000000001 nanoseconds.\<close>

definition sample_eval :: "i64 \<Rightarrow> i64 \<Rightarrow> profiled_eval" where
  "sample_eval a b = \<lparr>pe_start = (1, a), pe_end = (2, b), pe_mem = (\<lambda>_. True),
     pe_bytecode = \<lparr>bc_instructions = [OP_PUSH_NUMBER 1, OP_RETURN], bc_instruction_capacity = 64, bc_strings = [], bc_string_capacity = 16,
       bc_original_instruction_count = 2, bc_optimizations_applied = 0\<rparr>, pe_event = zero_event\<rparr>"

theorem profiling_statistics_witness:
  "\<exists>ctx bs ctx'. filter_eval_context_create (\<lambda>_. True) = Some ctx \<and>
     profiled_evals 2 Some (=) [sample_eval 999999990 20, sample_eval 7 8] (Some (filter_eval_reset_stats ctx)) = Some (Ok (bs, Some ctx')) \<and>
     filter_eval_stats ctx' = (2, 500000015, 30, 1000000001)"
proof -
  let ?es = "[sample_eval 999999990 20, sample_eval 7 8]"
  obtain ctx :: "string filter_eval_context" where ctx: "filter_eval_context_create (\<lambda>_. True) = Some ctx" "ec_stack ctx = []" "ec_stack_capacity ctx = 32"
    by (simp add: filter_eval_context_create_def)
  then obtain bs ctx' where r: "profiled_evals 2 Some (=) ?es (Some (filter_eval_reset_stats ctx)) = Some (Ok (bs, Some ctx'))"
    by (simp add: sample_eval_def filter_eval_with_profiling_def filter_eval_def eval_bytecode.simps numeral_2_eq_2 eval_instr_def push_next_def
        stack_push_def stack_pop_def filter_eval_reset_stats_def update_eval_stats_def Let_def)
  have ns: "clock_ns (pe_start (sample_eval a b)) = 1000000000 + sint a" "clock_ns (pe_end (sample_eval a b)) = 2000000000 + sint b" for a b
    by (simp_all add: clock_ns_def sample_eval_def)
  have "filter_eval_stats ctx' = (2, 500000015, 30, 1000000001)"
    using profiling_statistics [OF r, where ts = "[30, 1000000001]"] ns by (simp flip: numeral_2_eq_2)
  then show ?thesis using ctx(1) r by blast
qed

end
