(* ===== verification/Filter_Semantics.thy ===== *)
theory Filter_Semantics
  imports Filter_Eval
begin

text \<open>
  What a filter means, by recursion on its tree, and the proof that compiled bytecode computes it.
  A tree has a value, or the evaluation gives up (\<^const>\<open>Fail\<close>: a field of an absent payload), or it
  reads a payload of the wrong kind (\<^const>\<open>UB\<close>). The filter matches when the value is true.
\<close>

section \<open>Meaning of a tree\<close>

definition int_relation :: "filter_binary_type \<Rightarrow> int \<Rightarrow> int \<Rightarrow> bool" where
  "int_relation t a b = (case t of
     FILTER_NODE_EQ \<Rightarrow> a = b | FILTER_NODE_NE \<Rightarrow> a \<noteq> b | FILTER_NODE_LT \<Rightarrow> a < b
   | FILTER_NODE_GT \<Rightarrow> a > b | FILTER_NODE_LE \<Rightarrow> a \<le> b | FILTER_NODE_GE \<Rightarrow> a \<ge> b | _ \<Rightarrow> False)"

text \<open>Strings compare with strings and numbers with numbers; a mixed comparison is false, also for \<open>!=\<close>.\<close>

definition value_relation :: "filter_binary_type \<Rightarrow> filter_value \<Rightarrow> filter_value \<Rightarrow> bool" where
  "value_relation t x y = (case (x, y) of
     (FILTER_VALUE_STRING a, FILTER_VALUE_STRING b) \<Rightarrow> int_relation t (strcmp a b) 0
   | (FILTER_VALUE_NUMBER a, FILTER_VALUE_NUMBER b) \<Rightarrow> int_relation t (sint a) (sint b)
   | _ \<Rightarrow> False)"

definition regex_matches :: "(string \<Rightarrow> 'r option) \<Rightarrow> ('r \<Rightarrow> string \<Rightarrow> bool) \<Rightarrow> string \<Rightarrow> string \<Rightarrow> bool" where
  "regex_matches regcomp regexec txt pattern =
     (case regcomp pattern of None \<Rightarrow> False | Some r \<Rightarrow> regexec r txt)"

definition match_relation ::
  "(string \<Rightarrow> 'r option) \<Rightarrow> ('r \<Rightarrow> string \<Rightarrow> bool) \<Rightarrow> bool \<Rightarrow> filter_value \<Rightarrow> filter_value \<Rightarrow> bool" where
  "match_relation regcomp regexec positive x y = (case (x, y) of
     (FILTER_VALUE_STRING a, FILTER_VALUE_STRING b) \<Rightarrow> regex_matches regcomp regexec a b = positive
   | _ \<Rightarrow> False)"

definition binary_value ::
  "(string \<Rightarrow> 'r option) \<Rightarrow> ('r \<Rightarrow> string \<Rightarrow> bool) \<Rightarrow> filter_binary_type \<Rightarrow> filter_value \<Rightarrow> filter_value \<Rightarrow> bool" where
  "binary_value regcomp regexec t x y =
     (if t = FILTER_NODE_MATCH then match_relation regcomp regexec True x y
      else if t = FILTER_NODE_NMATCH then match_relation regcomp regexec False x y
      else value_relation t x y)"

function node_value ::
  "(string \<Rightarrow> 'r option) \<Rightarrow> ('r \<Rightarrow> string \<Rightarrow> bool) \<Rightarrow> nlmon_event \<Rightarrow> filter_node \<Rightarrow> filter_value outcome"
  and item_values ::
  "(string \<Rightarrow> 'r option) \<Rightarrow> ('r \<Rightarrow> string \<Rightarrow> bool) \<Rightarrow> nlmon_event \<Rightarrow> filter_node list \<Rightarrow> filter_value list outcome" where
  "node_value rc re ev (FILTER_NODE_FIELD f) = extract_field (\<lambda>_. True) ev (field_code f)"
| "node_value rc re ev (FILTER_NODE_STRING s) = Ok (FILTER_VALUE_STRING s)"
| "node_value rc re ev (FILTER_NODE_NUMBER v) = Ok (FILTER_VALUE_NUMBER v)"
| "node_value rc re ev (FILTER_NODE_NOT n) =
     bind_outcome (node_value rc re ev n) (\<lambda>x. Ok (FILTER_VALUE_BOOL (x \<noteq> FILTER_VALUE_BOOL True)))"
| "node_value rc re ev (FILTER_NODE_LIST ns) = Fail"
| "node_value rc re ev (FILTER_NODE_BINARY t l r) =
     bind_outcome (node_value rc re ev l) (\<lambda>x.
       if t = FILTER_NODE_AND then
         if x = FILTER_VALUE_BOOL False then Ok x else node_value rc re ev r
       else if t = FILTER_NODE_OR then
         if x = FILTER_VALUE_BOOL True then Ok x else node_value rc re ev r
       else if t = FILTER_NODE_IN then
         (case r of
            FILTER_NODE_LIST items \<Rightarrow>
              bind_outcome (item_values rc re ev items) (\<lambda>ys.
                Ok (FILTER_VALUE_BOOL (\<exists>y \<in> set ys. value_relation FILTER_NODE_EQ x y)))
          | _ \<Rightarrow> Fail)
       else bind_outcome (node_value rc re ev r) (\<lambda>y. Ok (FILTER_VALUE_BOOL (binary_value rc re t x y))))"
| "item_values rc re ev [] = Ok []"
| "item_values rc re ev (n # ns) =
     bind_outcome (node_value rc re ev n) (\<lambda>y.
     bind_outcome (item_values rc re ev ns) (\<lambda>ys. Ok (y # ys)))"
  by pat_completeness auto
termination
  by (relation "measure (case_sum (\<lambda>(_, _, _, n). size n) (\<lambda>(_, _, _, ns). size_list size ns))") auto

declare node_value.simps(6) [simp del]

text \<open>The verdict on an event; giving up means no match.\<close>

definition filter_matches ::
  "(string \<Rightarrow> 'r option) \<Rightarrow> ('r \<Rightarrow> string \<Rightarrow> bool) \<Rightarrow> nlmon_event \<Rightarrow> filter_node \<Rightarrow> bool outcome" where
  "filter_matches rc re ev n = (case node_value rc re ev n of
     Ok v \<Rightarrow> Ok (v = FILTER_VALUE_BOOL True) | Fail \<Rightarrow> Ok False | UB \<Rightarrow> UB)"

section \<open>Running a piece of code\<close>

text \<open>The cache holds only what \<open>regcomp\<close> returns, so a hit and a fresh compilation agree, and every flag in it is determinate.\<close>

definition cache_ok :: "(string \<Rightarrow> 'r option) \<Rightarrow> 'r filter_eval_context \<Rightarrow> bool" where
  "cache_ok rc ctx \<longleftrightarrow>
     list_all (\<lambda>slot. case slot of Slot_Valid p r \<Rightarrow> rc p = Some r | Slot_Invalid \<Rightarrow> True | Slot_Indeterminate \<Rightarrow> False) (ec_regex_cache ctx)"

lemma mem_ok_eq: "mem_ok mem \<longleftrightarrow> mem = (\<lambda>_. True)"
  by (auto simp: mem_ok_def)

abbreviation run where
  "run rc re bc ev k pc ctx \<equiv> eval_bytecode k (\<lambda>_. True) rc re bc ev (of_nat pc) ctx"

text \<open>
  \<open>segment pc pc' n ctx r\<close>: started at \<open>pc\<close>, the interpreter within \<open>n\<close> steps either arrives at \<open>pc'\<close>
  with the stack \<open>r\<close> gives, or ends without a match, or is undefined, as \<open>r\<close> says.
\<close>

definition segment ::
  "(string \<Rightarrow> 'r option) \<Rightarrow> ('r \<Rightarrow> string \<Rightarrow> bool) \<Rightarrow> filter_bytecode \<Rightarrow> nlmon_event \<Rightarrow> nat \<Rightarrow> nat \<Rightarrow> nat \<Rightarrow>
     'r filter_eval_context \<Rightarrow> filter_value list outcome \<Rightarrow> bool" where
  "segment rc re bc ev pc pc' n ctx r \<longleftrightarrow> (case r of
     Ok st \<Rightarrow> \<exists>j \<le> n. \<exists>ctx'. cache_ok rc ctx' \<and> ec_stack ctx' = st \<and>
                (\<forall>k. run rc re bc ev (j + k) pc ctx = run rc re bc ev k pc' ctx')
   | Fail \<Rightarrow> \<exists>j \<le> n. \<exists>ctx'. cache_ok rc ctx' \<and> (\<forall>k. run rc re bc ev (j + k) pc ctx = Some (Ok (False, ctx')))
   | UB \<Rightarrow> \<exists>j \<le> n. \<forall>k. run rc re bc ev (j + k) pc ctx = Some UB)"

lemma segment_more: "segment rc re bc ev pc pc' n ctx r \<Longrightarrow> n \<le> m \<Longrightarrow> segment rc re bc ev pc pc' m ctx r"
  by (auto simp: segment_def split: outcome.splits intro: le_trans)

lemma segment_bind:
  assumes "segment rc re bc ev pc pc1 n1 ctx r"
    and "\<And>ctx1. cache_ok rc ctx1 \<Longrightarrow> r = Ok (ec_stack ctx1) \<Longrightarrow> segment rc re bc ev pc1 pc2 n2 ctx1 (f (ec_stack ctx1))"
  shows "segment rc re bc ev pc pc2 (n1 + n2) ctx (bind_outcome r f)"
proof (cases r)
  case (Ok st)
  obtain j ctx1 where j: "j \<le> n1" "cache_ok rc ctx1" "ec_stack ctx1 = st"
    "\<And>k. run rc re bc ev (j + k) pc ctx = run rc re bc ev k pc1 ctx1"
    using assms(1) Ok by (auto simp: segment_def)
  have s: "segment rc re bc ev pc1 pc2 n2 ctx1 (f st)" using assms(2) [OF j(2)] Ok j(3) by simp
  have step: "run rc re bc ev (j + i + k) pc ctx = run rc re bc ev (i + k) pc1 ctx1" for i k
    using j(4) [of "i + k"] by (simp add: add.assoc)
  have le: "i \<le> n2 \<Longrightarrow> j + i \<le> n1 + n2" for i using j(1) by simp
  show ?thesis
    using s step le unfolding Ok segment_def by (cases "f st") (simp_all, metis+)
next
  case Fail
  then have "segment rc re bc ev pc pc2 n1 ctx Fail" using assms(1) by (simp add: segment_def)
  then show ?thesis using Fail by (simp add: segment_more)
next
  case UB
  then have "segment rc re bc ev pc pc2 n1 ctx UB" using assms(1) by (simp add: segment_def)
  then show ?thesis using UB by (simp add: segment_more)
qed

lemma unat_of_nat_small: "n < 2 ^ 31 \<Longrightarrow> unat (of_nat n :: size_t) = n"
  by (simp add: unsigned_of_nat take_bit_nat_eq_self)

text \<open>One instruction.\<close>

lemma run_step:
  assumes "bc_instructions bc = pre @ i # post" "length pre < 2 ^ 31"
  shows "run rc re bc ev (Suc k) (length pre) ctx =
    (case eval_instr (\<lambda>_. True) rc re (bc_strings bc) ev i (of_nat (length pre)) ctx of
       Continue pc ctx \<Rightarrow> eval_bytecode k (\<lambda>_. True) rc re bc ev pc ctx
     | Return b ctx \<Rightarrow> Some (Ok (b, ctx))
     | Undefined \<Rightarrow> Some UB)"
  using assms unat_of_nat_small [OF assms(2)] by (simp add: eval_bytecode.simps)

lemma segment_continue:
  assumes "bc_instructions bc = pre @ i # post" "length pre < 2 ^ 31" "cache_ok rc ctx'"
    and "eval_instr (\<lambda>_. True) rc re (bc_strings bc) ev i (of_nat (length pre)) ctx = Continue (of_nat pc') ctx'"
  shows "segment rc re bc ev (length pre) pc' 1 ctx (Ok (ec_stack ctx'))"
proof -
  have "run rc re bc ev (1 + k) (length pre) ctx = run rc re bc ev k pc' ctx'" for k
    using run_step [OF assms(1,2), where rc = rc and re = re] assms(4) by simp
  then show ?thesis
    unfolding segment_def outcome.case using assms(3) by (intro exI [of _ 1] exI [of _ ctx'] conjI allI) auto
qed

lemma segment_fail:
  assumes "bc_instructions bc = pre @ i # post" "length pre < 2 ^ 31" "cache_ok rc ctx'"
    and "eval_instr (\<lambda>_. True) rc re (bc_strings bc) ev i (of_nat (length pre)) ctx = Return False ctx'"
  shows "segment rc re bc ev (length pre) pc' 1 ctx Fail"
proof -
  have "run rc re bc ev (1 + k) (length pre) ctx = Some (Ok (False, ctx'))" for k
    using run_step [OF assms(1,2), where rc = rc and re = re] assms(4) by simp
  then show ?thesis
    unfolding segment_def outcome.case using assms(3) by (intro exI [of _ 1] exI [of _ ctx'] conjI allI) auto
qed

lemma segment_undefined:
  assumes "bc_instructions bc = pre @ i # post" "length pre < 2 ^ 31"
    and "eval_instr (\<lambda>_. True) rc re (bc_strings bc) ev i (of_nat (length pre)) ctx = Undefined"
  shows "segment rc re bc ev (length pre) pc' 1 ctx UB"
proof -
  have "run rc re bc ev (1 + k) (length pre) ctx = Some UB" for k
    using run_step [OF assms(1,2), where rc = rc and re = re] assms(3) by simp
  then show ?thesis unfolding segment_def outcome.case by (intro exI [of _ 1] conjI allI) auto
qed

lemma push_next_ok:
  "\<exists>ctx'. push_next (\<lambda>_. True) pc ctx v = Continue (pc + 1) ctx' \<and> ec_stack ctx' = v # ec_stack ctx \<and>
     ec_regex_cache ctx' = ec_regex_cache ctx"
  by (simp add: push_next_def stack_push_def Let_def)

lemma cache_ok_cong: "ec_regex_cache ctx' = ec_regex_cache ctx \<Longrightarrow> cache_ok rc ctx' = cache_ok rc ctx"
  by (simp add: cache_ok_def)

lemma segment_push:
  assumes "bc_instructions bc = pre @ i # post" "length pre < 2 ^ 31" "cache_ok rc ctx0"
    and "eval_instr (\<lambda>_. True) rc re (bc_strings bc) ev i (of_nat (length pre)) ctx =
      push_next (\<lambda>_. True) (of_nat (length pre)) ctx0 v"
  shows "segment rc re bc ev (length pre) (Suc (length pre)) 1 ctx (Ok (v # ec_stack ctx0))"
proof -
  obtain ctx' where c: "push_next (\<lambda>_. True) (of_nat (length pre)) ctx0 v = Continue (of_nat (length pre) + 1) ctx'"
    "ec_stack ctx' = v # ec_stack ctx0" "ec_regex_cache ctx' = ec_regex_cache ctx0"
    using push_next_ok by blast
  have "of_nat (length pre) + 1 = (of_nat (Suc (length pre)) :: size_t)" by simp
  then show ?thesis
    using segment_continue [OF assms(1,2), of rc ctx' re ev ctx "Suc (length pre)"] assms(3,4) c cache_ok_cong
    by metis
qed

section \<open>Each kind of instruction\<close>

lemma cached_regex_ok:
  assumes "cache_ok rc ctx"
  obtains r where "cached_regex (ec_regex_cache ctx) p = Ok r" "r = None \<or> r = rc p"
proof -
  have "\<exists>r. cached_regex slots p = Ok r \<and> (r = None \<or> r = rc p)"
    if "list_all (\<lambda>slot. case slot of Slot_Valid p r \<Rightarrow> rc p = Some r | Slot_Invalid \<Rightarrow> True | Slot_Indeterminate \<Rightarrow> False) slots" for slots
    using that by (induction slots p rule: cached_regex.induct) auto
  then show thesis using that assms by (auto simp: cache_ok_def)
qed

lemma match_regex_ok:
  assumes "cache_ok rc ctx"
  obtains ctx' where "match_regex (\<lambda>_. True) rc re ctx txt p = Ok (regex_matches rc re txt p, ctx')"
    "cache_ok rc ctx'" "ec_stack ctx' = ec_stack ctx"
proof (rule cached_regex_ok [OF assms, of p])
  fix r
  assume c: "cached_regex (ec_regex_cache ctx) p = Ok r" "r = None \<or> r = rc p"
  show thesis
  proof (cases r)
    case None
    then show ?thesis
      using that assms c
      by (cases "rc p")
        (auto simp: match_regex_def get_compiled_regex_def add_compiled_regex_def regex_matches_def cache_ok_def Let_def split: if_splits)
  next
    case (Some r)
    then have "rc p = Some r" using c(2) by simp
    then show ?thesis
      using that assms c Some by (auto simp: match_regex_def get_compiled_regex_def regex_matches_def)
  qed
qed

lemma compare_values_relation:
  assumes "binary_opcode t = Some op" "t \<notin> {FILTER_NODE_MATCH, FILTER_NODE_NMATCH}"
  shows "compare_values x y op = value_relation t x y"
  using assms
  by (cases t) (auto simp: binary_opcode_def compare_values_def value_relation_def int_relation_def Let_def
      split: filter_value.split)

lemma segment_binary:
  assumes i: "bc_instructions bc = pre @ op # post" "length pre < 2 ^ 31" and ok: "cache_ok rc ctx"
    and st: "ec_stack ctx = y # x # st" and t: "binary_opcode t = Some op"
  shows "segment rc re bc ev (length pre) (Suc (length pre)) 1 ctx
    (Ok (FILTER_VALUE_BOOL (binary_value rc re t x y) # st))"
proof (cases "t \<in> {FILTER_NODE_MATCH, FILTER_NODE_NMATCH}")
  case False
  let ?c = "ctx\<lparr>ec_stack := st\<rparr>"
  have "eval_instr (\<lambda>_. True) rc re (bc_strings bc) ev op (of_nat (length pre)) ctx =
      push_next (\<lambda>_. True) (of_nat (length pre)) ?c (FILTER_VALUE_BOOL (compare_values x y op))"
    using t False st by (cases t) (auto simp: binary_opcode_def eval_instr_def pop_two_def stack_pop_def)
  moreover have "compare_values x y op = binary_value rc re t x y"
    using compare_values_relation [OF t] False by (simp add: binary_value_def)
  moreover have "cache_ok rc ?c" using ok by (simp add: cache_ok_def)
  ultimately show ?thesis using segment_push [OF i, of rc ?c] by fastforce
next
  case True
  let ?c = "ctx\<lparr>ec_stack := st\<rparr>" and ?pos = "t = FILTER_NODE_MATCH"
  have c: "cache_ok rc ?c" using ok by (simp add: cache_ok_def)
  obtain c1 where c1: "cache_ok rc c1" "ec_stack c1 = st"
    "eval_match (\<lambda>_. True) rc re ?pos (of_nat (length pre)) ctx =
      push_next (\<lambda>_. True) (of_nat (length pre)) c1 (FILTER_VALUE_BOOL (match_relation rc re ?pos x y))"
  proof (cases "\<exists>a b. x = FILTER_VALUE_STRING a \<and> y = FILTER_VALUE_STRING b")
    case True
    then obtain a b where ab: "x = FILTER_VALUE_STRING a" "y = FILTER_VALUE_STRING b" by blast
    obtain c1 where "match_regex (\<lambda>_. True) rc re ?c a b = Ok (regex_matches rc re a b, c1)" "cache_ok rc c1"
      "ec_stack c1 = st"
      by (rule match_regex_ok [OF c, of re a b]) simp
    then show ?thesis
      using that [of c1] ab st by (auto simp: eval_match_def pop_two_def stack_pop_def match_relation_def)
  next
    case False
    then show ?thesis
      using that [of ?c] c st
      by (cases x; cases y) (auto simp: eval_match_def pop_two_def stack_pop_def match_relation_def)
  qed
  moreover have "eval_instr (\<lambda>_. True) rc re (bc_strings bc) ev op (of_nat (length pre)) ctx =
      eval_match (\<lambda>_. True) rc re ?pos (of_nat (length pre)) ctx"
    using t True by (auto simp: binary_opcode_def eval_instr_def)
  moreover have "match_relation rc re ?pos x y = binary_value rc re t x y"
    using True by (auto simp: binary_value_def)
  ultimately show ?thesis using segment_push [OF i c1(1)] c1 by simp
qed

section \<open>Compiled code computes the meaning\<close>

text \<open>\<open>executes c f\<close>: wherever \<open>c\<close> stands in the program, running it turns the stack \<open>st\<close> into \<open>f st\<close>.\<close>

definition executes ::
  "(string \<Rightarrow> 'r option) \<Rightarrow> ('r \<Rightarrow> string \<Rightarrow> bool) \<Rightarrow> filter_bytecode \<Rightarrow> nlmon_event \<Rightarrow> filter_instruction list \<Rightarrow>
     (filter_value list \<Rightarrow> filter_value list outcome) \<Rightarrow> bool" where
  "executes rc re bc ev c f \<longleftrightarrow> (\<forall>pre post ctx. bc_instructions bc = pre @ c @ post \<longrightarrow> cache_ok rc ctx \<longrightarrow>
     segment rc re bc ev (length pre) (length pre + length c) (length c) ctx (f (ec_stack ctx)))"

lemma executesD:
  assumes "executes rc re bc ev c f" "bc_instructions bc = pre @ c @ post" "cache_ok rc ctx"
  shows "segment rc re bc ev (length pre) (length pre + length c) (length c) ctx (f (ec_stack ctx))"
  using assms by (simp add: executes_def)

lemma executes_append:
  assumes "executes rc re bc ev c1 f1" "executes rc re bc ev c2 f2"
  shows "executes rc re bc ev (c1 @ c2) (\<lambda>st. bind_outcome (f1 st) f2)"
  unfolding executes_def
proof (intro allI impI)
  fix pre post ctx
  assume p: "bc_instructions bc = pre @ (c1 @ c2) @ post" "cache_ok rc ctx"
  have "segment rc re bc ev (length pre) (length pre + length c1) (length c1) ctx (f1 (ec_stack ctx))"
    using executesD [OF assms(1)] p by simp
  moreover have "segment rc re bc ev (length pre + length c1) (length pre + length c1 + length c2) (length c2) ctx1
      (f2 (ec_stack ctx1))" if "cache_ok rc ctx1" for ctx1
    using executesD [OF assms(2), of "pre @ c1" post] p that by simp
  ultimately have "segment rc re bc ev (length pre) (length pre + length c1 + length c2) (length c1 + length c2) ctx
      (bind_outcome (f1 (ec_stack ctx)) f2)"
    by (rule segment_bind)
  then show "segment rc re bc ev (length pre) (length pre + length (c1 @ c2)) (length (c1 @ c2)) ctx
      (bind_outcome (f1 (ec_stack ctx)) f2)"
    by (simp add: add.assoc)
qed

lemma executes_instr:
  assumes "instruction_count bc < 2 ^ 31"
    and "\<And>pre post ctx. bc_instructions bc = pre @ i # post \<Longrightarrow> length pre < 2 ^ 31 \<Longrightarrow> cache_ok rc ctx \<Longrightarrow>
      segment rc re bc ev (length pre) (Suc (length pre)) 1 ctx (f (ec_stack ctx))"
  shows "executes rc re bc ev [i] f"
  unfolding executes_def
proof (intro allI impI)
  fix pre post ctx
  assume p: "bc_instructions bc = pre @ [i] @ post" "cache_ok rc ctx"
  then have "length pre < 2 ^ 31" using assms(1) by simp
  then show "segment rc re bc ev (length pre) (length pre + length [i]) (length [i]) ctx (f (ec_stack ctx))"
    using assms(2) p by simp
qed

lemma executes_push:
  assumes "instruction_count bc < 2 ^ 31"
    and "\<And>pc ctx. eval_instr (\<lambda>_. True) rc re (bc_strings bc) ev i pc ctx = push_next (\<lambda>_. True) pc ctx v"
  shows "executes rc re bc ev [i] (\<lambda>st. Ok (v # st))"
  using assms by (intro executes_instr segment_push)

text \<open>What is left on the stack by a tree, and by a list of items.\<close>

definition tree_effect where
  "tree_effect rc re ev n st = bind_outcome (node_value rc re ev n) (\<lambda>v. Ok (v # st))"

definition items_effect where
  "items_effect rc re ev ns st = bind_outcome (item_values rc re ev ns) (\<lambda>vs. Ok (rev vs @ st))"

definition binary_effect where
  "binary_effect rc re t st =
     (case st of y # x # st \<Rightarrow> Ok (FILTER_VALUE_BOOL (binary_value rc re t x y) # st) | _ \<Rightarrow> Fail)"

definition in_effect :: "nat \<Rightarrow> filter_value list \<Rightarrow> filter_value list outcome" where
  "in_effect n st = (if length st \<le> n then Fail
     else Ok (FILTER_VALUE_BOOL (\<exists>y \<in> set (take n st). value_relation FILTER_NODE_EQ (st ! n) y) # drop (n + 1) st))"

definition not_effect :: "filter_value list \<Rightarrow> filter_value list outcome" where
  "not_effect st = (case st of [] \<Rightarrow> Fail | x # st \<Rightarrow> Ok (FILTER_VALUE_BOOL (x \<noteq> FILTER_VALUE_BOOL True) # st))"

definition jump_effect ::
  "bool \<Rightarrow> (filter_value list \<Rightarrow> filter_value list outcome) \<Rightarrow> filter_value list \<Rightarrow> filter_value list outcome" where
  "jump_effect b f st = (case st of [] \<Rightarrow> Fail | x # st \<Rightarrow> if x = FILTER_VALUE_BOOL b then Ok (x # st) else f st)"

lemma executes_field:
  assumes "instruction_count bc < 2 ^ 31"
  shows "executes rc re bc ev [OP_PUSH_FIELD (field_code f)] (tree_effect rc re ev (FILTER_NODE_FIELD f))"
proof (cases "extract_field (\<lambda>_. True) ev (field_code f)")
  case (Ok v)
  then have "tree_effect rc re ev (FILTER_NODE_FIELD f) = (\<lambda>st. Ok (v # st))" by (simp add: tree_effect_def fun_eq_iff)
  then show ?thesis by (simp only:) (rule executes_push [OF assms], simp add: eval_instr_def Ok)
next
  case Fail
  show ?thesis
  proof (rule executes_instr [OF assms])
    fix pre post ctx
    assume p: "bc_instructions bc = pre @ OP_PUSH_FIELD (field_code f) # post" "length pre < 2 ^ 31" "cache_ok rc ctx"
    have "segment rc re bc ev (length pre) (Suc (length pre)) 1 ctx Fail"
      by (rule segment_fail [OF p]) (simp add: eval_instr_def Fail)
    then show "segment rc re bc ev (length pre) (Suc (length pre)) 1 ctx
        (tree_effect rc re ev (FILTER_NODE_FIELD f) (ec_stack ctx))"
      using Fail by (simp add: tree_effect_def)
  qed
next
  case UB
  show ?thesis
  proof (rule executes_instr [OF assms])
    fix pre post ctx
    assume p: "bc_instructions bc = pre @ OP_PUSH_FIELD (field_code f) # post" "length pre < 2 ^ 31" "cache_ok rc ctx"
    have "segment rc re bc ev (length pre) (Suc (length pre)) 1 ctx UB"
      by (rule segment_undefined [OF p(1,2)]) (simp add: eval_instr_def UB)
    then show "segment rc re bc ev (length pre) (Suc (length pre)) 1 ctx
        (tree_effect rc re ev (FILTER_NODE_FIELD f) (ec_stack ctx))"
      using UB by (simp add: tree_effect_def)
  qed
qed

lemma executes_binary:
  assumes "instruction_count bc < 2 ^ 31" and t: "binary_opcode t = Some op"
  shows "executes rc re bc ev [op] (binary_effect rc re t)"
proof (rule executes_instr [OF assms(1)])
  fix pre post ctx
  assume p: "bc_instructions bc = pre @ op # post" "length pre < 2 ^ 31" "cache_ok rc ctx"
  show "segment rc re bc ev (length pre) (Suc (length pre)) 1 ctx (binary_effect rc re t (ec_stack ctx))"
  proof (cases "\<exists>x y st. ec_stack ctx = y # x # st")
    case True
    then show ?thesis using segment_binary [OF p _ t] by (auto simp: binary_effect_def)
  next
    case False
    then obtain ctx' where "pop_two ctx f = Return False ctx'" "cache_ok rc ctx'" for f
      using p(3) by (cases "ec_stack ctx"; cases "tl (ec_stack ctx)")
        (auto simp: pop_two_def stack_pop_def cache_ok_def)
    then have "eval_instr (\<lambda>_. True) rc re (bc_strings bc) ev op (of_nat (length pre)) ctx = Return False ctx'"
      "cache_ok rc ctx'"
      using t by (cases t; auto simp: binary_opcode_def eval_instr_def eval_match_def)+
    moreover have "binary_effect rc re t (ec_stack ctx) = Fail"
      using False by (auto simp: binary_effect_def split: list.split)
    ultimately show ?thesis using segment_fail [OF p(1,2)] by simp
  qed
qed

lemma executes_not:
  assumes "instruction_count bc < 2 ^ 31"
  shows "executes rc re bc ev [OP_NOT] not_effect"
proof (rule executes_instr [OF assms])
  fix pre post ctx
  assume p: "bc_instructions bc = pre @ OP_NOT # post" "length pre < 2 ^ 31" "cache_ok rc ctx"
  show "segment rc re bc ev (length pre) (Suc (length pre)) 1 ctx (not_effect (ec_stack ctx))"
  proof (cases "ec_stack ctx")
    case Nil
    then show ?thesis
      using segment_fail [OF p, of re ev ctx] by (simp add: not_effect_def eval_instr_def stack_pop_def)
  next
    case (Cons x st)
    let ?c = "ctx\<lparr>ec_stack := st\<rparr>"
    have "cache_ok rc ?c" using p(3) by (simp add: cache_ok_def)
    then have "segment rc re bc ev (length pre) (Suc (length pre)) 1 ctx
        (Ok (FILTER_VALUE_BOOL (\<not> is_true x) # ec_stack ?c))"
      using Cons by (intro segment_push [OF p(1,2)]) (simp_all add: eval_instr_def stack_pop_def)
    then show ?thesis using Cons by (simp add: not_effect_def is_true_def)
  qed
qed

lemma executes_in:
  assumes "instruction_count bc < 2 ^ 31" "n < 2 ^ 32"
  shows "executes rc re bc ev [OP_IN (of_nat n)] (in_effect n)"
proof (rule executes_instr [OF assms(1)])
  fix pre post ctx
  assume p: "bc_instructions bc = pre @ OP_IN (of_nat n) # post" "length pre < 2 ^ 31" "cache_ok rc ctx"
  have n: "unat (of_nat n :: u32) = n" using assms(2) by (simp add: unsigned_of_nat take_bit_nat_eq_self)
  show "segment rc re bc ev (length pre) (Suc (length pre)) 1 ctx (in_effect n (ec_stack ctx))"
  proof (cases "length (ec_stack ctx) \<le> n")
    case True
    have "cache_ok rc (ctx\<lparr>ec_stack := []\<rparr>)" using p(3) by (simp add: cache_ok_def)
    then have "segment rc re bc ev (length pre) (Suc (length pre)) 1 ctx Fail"
      using True n by (intro segment_fail [OF p(1,2)]) (simp_all add: eval_instr_def eval_in_def Let_def)
    then show ?thesis using True by (simp add: in_effect_def)
  next
    case False
    let ?vs = "ec_stack ctx" and ?c = "ctx\<lparr>ec_stack := drop (n + 1) (ec_stack ctx)\<rparr>"
    have eq: "list_ex (\<lambda>item. compare_values (?vs ! n) item OP_EQ) (rev (take n ?vs)) =
        (\<exists>y \<in> set (take n ?vs). value_relation FILTER_NODE_EQ (?vs ! n) y)"
      using compare_values_relation [of FILTER_NODE_EQ OP_EQ]
      by (simp add: list_ex_iff binary_opcode_def)
    have "cache_ok rc ?c" using p(3) by (simp add: cache_ok_def)
    then have "segment rc re bc ev (length pre) (Suc (length pre)) 1 ctx
        (Ok (FILTER_VALUE_BOOL (\<exists>y \<in> set (take n ?vs). value_relation FILTER_NODE_EQ (?vs ! n) y) # ec_stack ?c))"
      using False n eq by (intro segment_push [OF p(1,2)]) (simp_all add: eval_instr_def eval_in_def Let_def)
    then show ?thesis using False by (simp add: in_effect_def)
  qed
qed

lemma jump_target:
  assumes "m + 1 < 2 ^ 31"
  shows "of_nat p + scast (1 + of_nat m :: i32) + 1 = (of_nat (p + (m + 2)) :: size_t)"
proof -
  have "sint (of_nat (m + 1) :: i32) = int (m + 1)" using assms by (intro sint_of_nat_small) simp
  then have "scast (of_nat (m + 1) :: i32) = (of_nat (m + 1) :: size_t)"
    by (simp only: scast_eq of_int_of_nat_eq)
  then show ?thesis by (simp add: add.commute add.left_commute)
qed

lemma executes_jump:
  assumes cnt: "instruction_count bc < 2 ^ 31" and cr: "executes rc re bc ev cr f"
    and j: "jump = (if b then OP_JUMP_IF_TRUE else OP_JUMP_IF_FALSE)"
  shows "executes rc re bc ev (jump (1 + of_nat (length cr)) # OP_POP # cr) (jump_effect b f)"
  unfolding executes_def
proof (intro allI impI)
  fix pre post ctx
  let ?J = "jump (1 + of_nat (length cr))"
  assume p: "bc_instructions bc = pre @ (?J # OP_POP # cr) @ post" "cache_ok rc ctx"
  then have i: "bc_instructions bc = pre @ ?J # OP_POP # cr @ post" and len: "length pre < 2 ^ 31" "length cr + 1 < 2 ^ 31"
    "Suc (length pre) < 2 ^ 31"
    using cnt by simp_all
  let ?ev = "eval_instr (\<lambda>_. True) rc re (bc_strings bc) ev ?J (of_nat (length pre)) ctx"
  let ?fin = "length pre + (length cr + 2)"
  have "segment rc re bc ev (length pre) ?fin (length cr + 2) ctx (jump_effect b f (ec_stack ctx))"
  proof (cases "ec_stack ctx")
    case Nil
    then have "?ev = Return False ctx" using j by (simp add: eval_instr_def stack_peek_def)
    then have "segment rc re bc ev (length pre) ?fin 1 ctx Fail" by (rule segment_fail [OF i len(1) p(2)])
    then show ?thesis using Nil by (simp add: jump_effect_def segment_more)
  next
    case (Cons x st)
    show ?thesis
    proof (cases "x = FILTER_VALUE_BOOL b")
      case True
      then have "?ev = Continue (of_nat ?fin) ctx"
        using j Cons jump_target [OF len(2), of "length pre"] by (simp add: eval_instr_def stack_peek_def)
      then have "segment rc re bc ev (length pre) ?fin 1 ctx (Ok (ec_stack ctx))"
        by (rule segment_continue [OF i len(1) p(2)])
      then show ?thesis using Cons True by (simp add: jump_effect_def segment_more)
    next
      case False
      then have "?ev = Continue (of_nat (Suc (length pre))) ctx"
        using j Cons by (auto simp: eval_instr_def stack_peek_def add.commute)
      then have s1: "segment rc re bc ev (length pre) (Suc (length pre)) 1 ctx (Ok (ec_stack ctx))"
        by (rule segment_continue [OF i len(1) p(2)])
      have s2: "segment rc re bc ev (Suc (length pre)) (Suc (Suc (length pre))) 1 c (Ok st)"
        if "cache_ok rc c" "ec_stack c = x # st" for c
      proof -
        let ?c = "c\<lparr>ec_stack := st\<rparr>"
        have "cache_ok rc ?c" using that(1) by (simp add: cache_ok_def)
        moreover have "of_nat (length (pre @ [?J])) + 1 = (of_nat (Suc (Suc (length pre))) :: size_t)" by simp
        then have "eval_instr (\<lambda>_. True) rc re (bc_strings bc) ev OP_POP (of_nat (length (pre @ [?J]))) c =
            Continue (of_nat (Suc (Suc (length pre)))) ?c"
          using that(2) by (simp only: eval_instr_def filter_instruction.case stack_pop_def Let_def) simp
        ultimately have "segment rc re bc ev (length (pre @ [?J])) (Suc (Suc (length pre))) 1 c (Ok (ec_stack ?c))"
          using i len(3) by (intro segment_continue [of bc "pre @ [?J]" OP_POP "cr @ post"]) simp_all
        then show ?thesis by simp
      qed
      have s3: "segment rc re bc ev (Suc (Suc (length pre))) ?fin (length cr) c (f st)"
        if "cache_ok rc c" "ec_stack c = st" for c
        using executesD [OF cr, of "pre @ [?J, OP_POP]" post c] i that by simp
      have "segment rc re bc ev (length pre) ?fin (1 + (1 + length cr)) ctx
          (bind_outcome (Ok (ec_stack ctx)) (\<lambda>_. bind_outcome (Ok st) (\<lambda>_. f st)))"
        using s1 s2 s3 Cons by (intro segment_bind) auto
      then show ?thesis using Cons False by (simp add: jump_effect_def)
    qed
  qed
  then show "segment rc re bc ev (length pre) (length pre + length (?J # OP_POP # cr))
      (length (?J # OP_POP # cr)) ctx (jump_effect b f (ec_stack ctx))"
    by simp
qed

lemma executes_cong: "executes rc re bc ev c f \<Longrightarrow> (\<And>st. f st = g st) \<Longrightarrow> executes rc re bc ev c g"
  by (simp add: executes_def)

lemma executes_nil: "executes rc re bc ev [] Ok"
  unfolding executes_def segment_def by auto

lemma executes_too_long: "length c > instruction_count bc \<Longrightarrow> executes rc re bc ev c f"
  by (auto simp: executes_def)

lemma code_items_length:
  "code_for S n c \<Longrightarrow> 0 < length c" "code_items S ns c \<Longrightarrow> length ns \<le> length c"
  by (induction rule: code_for_code_items.inducts) (auto simp flip: length_greater_0_conv)

lemma tree_effect_binary:
  "binary_opcode t = Some op \<Longrightarrow>
     bind_outcome (tree_effect rc re ev l st) (\<lambda>st. bind_outcome (tree_effect rc re ev r st) (binary_effect rc re t)) =
     tree_effect rc re ev (FILTER_NODE_BINARY t l r) st"
  by (cases "node_value rc re ev l"; cases "node_value rc re ev r")
    (auto simp: tree_effect_def binary_effect_def node_value.simps(6) binary_opcode_def)

lemma tree_effect_in:
  "bind_outcome (tree_effect rc re ev l st) (\<lambda>st. bind_outcome (items_effect rc re ev items st) (in_effect (length items))) =
     tree_effect rc re ev (FILTER_NODE_BINARY FILTER_NODE_IN l (FILTER_NODE_LIST items)) st"
proof -
  have "length vs = length items" if "item_values rc re ev items = Ok vs" for vs
    using that by (induction items arbitrary: vs) (auto simp: bind_outcome_Ok_iff)
  then show ?thesis
    by (cases "node_value rc re ev l"; cases "item_values rc re ev items")
      (auto simp: tree_effect_def items_effect_def in_effect_def node_value.simps(6) nth_append)
qed

lemma tree_effect_and:
  "bind_outcome (tree_effect rc re ev l st) (jump_effect False (tree_effect rc re ev r)) =
     tree_effect rc re ev (FILTER_NODE_BINARY FILTER_NODE_AND l r) st"
  by (cases "node_value rc re ev l") (auto simp: tree_effect_def jump_effect_def node_value.simps(6))

lemma tree_effect_or:
  "bind_outcome (tree_effect rc re ev l st) (jump_effect True (tree_effect rc re ev r)) =
     tree_effect rc re ev (FILTER_NODE_BINARY FILTER_NODE_OR l r) st"
  by (cases "node_value rc re ev l") (auto simp: tree_effect_def jump_effect_def node_value.simps(6))

lemma tree_effect_not:
  "bind_outcome (tree_effect rc re ev n st) not_effect = tree_effect rc re ev (FILTER_NODE_NOT n) st"
  by (cases "node_value rc re ev n") (auto simp: tree_effect_def not_effect_def)

lemma items_effect_cons:
  "bind_outcome (tree_effect rc re ev n st) (items_effect rc re ev ns) = items_effect rc re ev (n # ns) st"
  by (cases "node_value rc re ev n"; cases "item_values rc re ev ns")
    (auto simp: tree_effect_def items_effect_def)

lemma code_executes:
  assumes cnt: "instruction_count bc < 2 ^ 31" and str: "length (bc_strings bc) < 2 ^ 32"
  shows "code_for S n c \<Longrightarrow> S = bc_strings bc \<Longrightarrow> executes rc re bc ev c (tree_effect rc re ev n)"
    and "code_items S ns c \<Longrightarrow> S = bc_strings bc \<Longrightarrow> executes rc re bc ev c (items_effect rc re ev ns)"
proof (induction rule: code_for_code_items.inducts)
  case (code_field S f)
  then show ?case by (intro executes_field cnt)
next
  case (code_string i S s)
  have "unat (of_nat i :: u32) = i"
    using code_string str by (simp add: unsigned_of_nat take_bit_nat_eq_self)
  then show ?case
    using code_string
    by (intro executes_cong [OF executes_push [OF cnt]]) (simp_all add: eval_instr_def tree_effect_def)
next
  case (code_number S v)
  then show ?case
    by (intro executes_cong [OF executes_push [OF cnt]]) (simp_all add: eval_instr_def tree_effect_def)
next
  case (code_binary S l cl r cr t opcode)
  show ?case
    by (rule executes_cong [OF executes_append [OF code_binary.IH(1) executes_append
          [OF code_binary.IH(2) executes_binary [OF cnt]]] tree_effect_binary]) (use code_binary in simp_all)
next
  case (code_in S l cl items ci)
  show ?case
  proof (cases "length ci \<le> instruction_count bc")
    case True
    then have "length items < 2 ^ 32" using code_items_length(2) [OF code_in(2)] cnt by simp
    then show ?thesis
      by (intro executes_cong [OF executes_append [OF code_in.IH(1) executes_append
            [OF code_in.IH(2) executes_in [OF cnt]]] tree_effect_in]) (use code_in in simp_all)
  next
    case False
    then show ?thesis by (intro executes_too_long) simp
  qed
next
  case (code_and S l cl r cr)
  show ?case
    using executes_cong [OF executes_append [OF code_and.IH(1) executes_jump [OF cnt code_and.IH(2), where b = False]] tree_effect_and]
      code_and by simp
next
  case (code_or S l cl r cr)
  show ?case
    using executes_cong [OF executes_append [OF code_or.IH(1) executes_jump [OF cnt code_or.IH(2), where b = True]] tree_effect_or]
      code_or by simp
next
  case (code_not S n c)
  show ?case
    by (rule executes_cong [OF executes_append [OF code_not.IH executes_not [OF cnt]] tree_effect_not])
      (use code_not in simp_all)
next
  case (code_nil S)
  then show ?case by (intro executes_cong [OF executes_nil]) (simp add: items_effect_def)
next
  case (code_cons S n c ns cs)
  show ?case
    by (rule executes_cong [OF executes_append [OF code_cons.IH] items_effect_cons]) (use code_cons in simp_all)
qed

section \<open>Whole filters\<close>

text \<open>Bytecode as \<open>filter_compile\<close> leaves it.\<close>

definition compiled_form :: "filter_bytecode \<Rightarrow> filter_node \<Rightarrow> filter_instruction list \<Rightarrow> bool" where
  "compiled_form bc n c \<longleftrightarrow> bc_instructions bc = c @ [OP_RETURN] \<and> code_for (bc_strings bc) n c \<and>
     length (bc_strings bc) \<le> length c"

lemma filter_compile_form:
  assumes "mem_ok mem" "fe_valid e" "fe_ast e = Some n" "filter_compile mem (Some e) = Some bc"
  obtains c where "compiled_form bc n c"
proof -
  have "compilable n" using assms(3,4) filter_compile_None [of n e mem] by force
  then show thesis
    using filter_compile_code [OF assms(1-3)] assms(4) that unfolding compiled_form_def by (metis option.inject)
qed

lemma eval_compiled:
  assumes form: "compiled_form bc n c" and cnt: "instruction_count bc < 2 ^ 31" and ctx: "cache_ok rc ctx" "ec_stack ctx = []"
    and fuel: "instruction_count bc \<le> fuel"
  shows "case filter_matches rc re ev n of
      Ok b \<Rightarrow> \<exists>ctx'. cache_ok rc ctx' \<and> eval_bytecode fuel (\<lambda>_. True) rc re bc ev 0 ctx = Some (Ok (b, ctx'))
    | _ \<Rightarrow> eval_bytecode fuel (\<lambda>_. True) rc re bc ev 0 ctx = Some UB"
proof -
  have i: "bc_instructions bc = [] @ c @ [OP_RETURN]" and len: "length c < fuel" "length c < 2 ^ 31"
    using form cnt fuel by (auto simp: compiled_form_def)
  have "executes rc re bc ev c (tree_effect rc re ev n)"
    using form cnt by (intro code_executes(1)) (auto simp: compiled_form_def)
  then have seg: "segment rc re bc ev 0 (length c) (length c) ctx (tree_effect rc re ev n [])"
    using executesD [OF _ i ctx(1)] ctx(2) by fastforce
  have fuel_split: "fuel = j + (fuel - j)" "0 < fuel - j" if "j \<le> length c" for j using that len by auto
  show ?thesis
  proof (cases "node_value rc re ev n")
    case (Ok v)
    then obtain j ctx1 where j: "j \<le> length c" "cache_ok rc ctx1" "ec_stack ctx1 = [v]"
      "\<And>k. run rc re bc ev (j + k) 0 ctx = run rc re bc ev k (length c) ctx1"
      using seg by (auto simp: segment_def tree_effect_def)
    obtain k where k: "fuel = j + Suc k"
      using fuel_split [OF j(1)] by (metis Suc_pred)
    have "run rc re bc ev fuel 0 ctx = Some (Ok (is_true v, ctx1\<lparr>ec_stack := []\<rparr>))"
      using run_step [of bc c OP_RETURN "[]", where rc = rc and re = re] i len j(1,3)
      unfolding k j(4) by (simp add: eval_instr_def stack_pop_def)
    moreover have "is_true v = (v = FILTER_VALUE_BOOL True)"
      by (cases v) (auto simp: is_true_def)
    ultimately show ?thesis using Ok j(2) by (auto simp: filter_matches_def cache_ok_def)
  next
    case Fail
    then obtain j ctx1 where j: "j \<le> length c" "cache_ok rc ctx1"
      "\<And>k. run rc re bc ev (j + k) 0 ctx = Some (Ok (False, ctx1))"
      using seg by (auto simp: segment_def tree_effect_def)
    then have "run rc re bc ev fuel 0 ctx = Some (Ok (False, ctx1))" using fuel_split(1) [OF j(1)] by metis
    then show ?thesis using Fail j(2) by (auto simp: filter_matches_def)
  next
    case UB
    then obtain j where j: "j \<le> length c" "\<And>k. run rc re bc ev (j + k) 0 ctx = Some UB"
      using seg by (auto simp: segment_def tree_effect_def)
    then have "run rc re bc ev fuel 0 ctx = Some UB" using fuel_split(1) [OF j(1)] by metis
    then show ?thesis using UB by (simp add: filter_matches_def)
  qed
qed

lemma filter_eval_compiled:
  assumes "mem_ok mem" "compiled_form bc n c" "instruction_count bc < 2 ^ 31" "instruction_count bc \<le> fuel" "cache_ok rc ctx"
  shows "case filter_matches rc re ev n of
      Ok b \<Rightarrow> \<exists>ctx'. cache_ok rc ctx' \<and>
        filter_eval fuel mem rc re (Some bc) (Some ev) (Some ctx) = Some (Ok (b, Some ctx'))
    | _ \<Rightarrow> filter_eval fuel mem rc re (Some bc) (Some ev) (Some ctx) = Some UB"
proof -
  have "cache_ok rc (ctx\<lparr>ec_stack := []\<rparr>)" using assms(5) by (simp add: cache_ok_def)
  from eval_compiled [OF assms(2,3) this _ assms(4), of re ev] show ?thesis
    using assms(1) by (auto simp: filter_eval_def mem_ok_eq split: outcome.splits)
qed

lemma filter_eval_no_context:
  assumes "mem_ok mem" "compiled_form bc n c" "instruction_count bc < 2 ^ 31" "instruction_count bc \<le> fuel"
  shows "filter_eval fuel mem rc re (Some bc) (Some ev) None =
    Some (bind_outcome (filter_matches rc re ev n) (\<lambda>b. Ok (b, None)))"
proof -
  obtain ctx where ctx: "filter_eval_context_create mem = Some ctx" "cache_ok rc ctx"
    using assms(1) by (simp add: filter_eval_context_create_def mem_ok_eq cache_ok_def)
  have "cache_ok rc (ctx\<lparr>ec_stack := []\<rparr>)" using ctx(2) by (simp add: cache_ok_def)
  from eval_compiled [OF assms(2,3) this _ assms(4), of re ev] show ?thesis
    using assms(1) ctx(1) by (auto simp: filter_eval_def mem_ok_eq filter_matches_def split: outcome.splits)
qed

text \<open>C1. Compiler and interpreter together are correct: for every tree that compiles, every event
  and every context whose regex cache is sound, running the compiled bytecode returns (within as many
  steps as there are instructions) exactly the verdict the tree has by its recursive meaning, and it
  leaves the cache sound for the next event. It is undefined exactly when the meaning reads a payload
  of the wrong kind. Short-circuit jumps, the string table, the operand stack and \<open>IN\<close> lists are all
  covered.\<close>

theorem filter_eval_correct:
  assumes "mem_ok mem" "fe_valid e" "fe_ast e = Some n" "filter_compile mem (Some e) = Some bc"
    and "instruction_count bc < 2 ^ 31" "instruction_count bc \<le> fuel" "cache_ok rc ctx"
  shows "case filter_matches rc re ev n of
      Ok b \<Rightarrow> \<exists>ctx'. cache_ok rc ctx' \<and>
        filter_eval fuel mem rc re (Some bc) (Some ev) (Some ctx) = Some (Ok (b, Some ctx'))
    | _ \<Rightarrow> filter_eval fuel mem rc re (Some bc) (Some ev) (Some ctx) = Some UB"
proof -
  obtain c where "compiled_form bc n c" using filter_compile_form [OF assms(1-4)] .
  then show ?thesis using assms filter_eval_compiled by blast
qed

text \<open>A filter and an event for the witnesses: \<open>sequence == 7 AND interface =~ "eth"\<close>.\<close>

definition sample_node :: filter_node where
  "sample_node = FILTER_NODE_BINARY FILTER_NODE_AND
     (FILTER_NODE_BINARY FILTER_NODE_EQ (FILTER_NODE_FIELD (FILTER_FIELD SEQUENCE)) (FILTER_NODE_NUMBER 7))
     (FILTER_NODE_BINARY FILTER_NODE_MATCH (FILTER_NODE_FIELD (FILTER_FIELD INTERFACE)) (FILTER_NODE_STRING ''eth''))"

definition sample_expr :: filter_expr where
  "sample_expr = \<lparr>fe_expression = [], fe_ast = Some sample_node, fe_error = no_parse_error, fe_valid = True\<rparr>"

definition sample_event :: nlmon_event where
  "sample_event = zero_event\<lparr>ev_sequence := 7, ev_interface := ''eth0''\<rparr>"

definition sample_bytecode :: filter_bytecode where
  "sample_bytecode = \<lparr>bc_instructions =
       [OP_PUSH_FIELD (field_code (FILTER_FIELD SEQUENCE)), OP_PUSH_NUMBER 7, OP_EQ, OP_JUMP_IF_FALSE 4, OP_POP,
        OP_PUSH_FIELD (field_code (FILTER_FIELD INTERFACE)), OP_PUSH_STRING 0, OP_MATCH, OP_RETURN],
     bc_instruction_capacity = 64, bc_strings = [''eth''], bc_string_capacity = 16,
     bc_original_instruction_count = 9, bc_optimizations_applied = 0\<rparr>"

definition sample_context :: "string filter_eval_context" where
  "sample_context = the (filter_eval_context_create (\<lambda>_. True))"

definition prefix_match :: "string \<Rightarrow> string \<Rightarrow> bool" where
  "prefix_match pattern txt \<longleftrightarrow> take (length pattern) txt = pattern"

lemma sample_compiles: "filter_compile (\<lambda>_. True) (Some sample_expr) = Some sample_bytecode"
  by code_simp

lemma sample_meaning: "filter_matches Some prefix_match sample_event sample_node = Ok True"
  by code_simp

lemma sample_cache: "cache_ok Some sample_context"
  by (simp add: sample_context_def filter_eval_context_create_def cache_ok_def)

theorem filter_eval_correct_witness:
  "mem_ok (\<lambda>_. True) \<and> filter_compile (\<lambda>_. True) (Some sample_expr) = Some sample_bytecode \<and>
   (\<exists>ctx'. filter_eval 9 (\<lambda>_. True) Some prefix_match (Some sample_bytecode) (Some sample_event) (Some sample_context) =
     Some (Ok (True, Some ctx')))"
  using filter_eval_correct [OF _ _ _ sample_compiles _ _ sample_cache, of sample_node 9 prefix_match sample_event]
    sample_compiles sample_meaning
  by (auto simp: mem_ok_def sample_expr_def sample_bytecode_def)

lemma code_no_jump:
  "code_for S n c \<Longrightarrow> OP_JUMP off \<notin> set c" "code_items S ns c \<Longrightarrow> OP_JUMP off \<notin> set c"
  by (induction rule: code_for_code_items.inducts)
    (auto simp: binary_opcode_def split: filter_binary_type.splits if_splits)

lemma optimize_compiled_form:
  assumes c: "compiled_form bc n c"
  shows "filter_bytecode_optimize bc = Ok (0, bc\<lparr>bc_optimizations_applied := 0\<rparr>)"
proof -
  have "OP_JUMP 0 \<notin> set c" using c code_no_jump(1) by (auto simp: compiled_form_def)
  then have "map peephole_instr c = c" "filter (\<lambda>i. i = OP_JUMP 0) c = []"
    by (auto simp: peephole_instr_def filter_empty_conv intro!: map_idI)
  then show ?thesis
    using c by (simp add: compiled_form_def filter_bytecode_optimize_def optimize_peephole_def Let_def
        optimize_dead_code_def optimize_constant_folding_def)
qed

text \<open>C24. The optimiser is neutral on what the compiler produces: every pass succeeds, no instruction
  is changed, and the count of applied optimisations is zero.\<close>

theorem optimize_compiled_neutral:
  assumes "mem_ok mem" "fe_valid e" "fe_ast e = Some n" "filter_compile mem (Some e) = Some bc"
  shows "filter_bytecode_optimize bc = Ok (0, bc\<lparr>bc_optimizations_applied := 0\<rparr>)"
  using filter_compile_form [OF assms] optimize_compiled_form by metis

theorem optimize_compiled_neutral_witness:
  "filter_bytecode_optimize sample_bytecode = Ok (0, sample_bytecode\<lparr>bc_optimizations_applied := 0\<rparr>)"
  by (rule optimize_compiled_neutral [OF _ _ _ sample_compiles]) (simp_all add: mem_ok_def sample_expr_def)

definition route_node :: filter_node where
  "route_node = FILTER_NODE_BINARY FILTER_NODE_GT
     (FILTER_NODE_FIELD (FILTER_FIELD_NL_ROUTE ROUTE_OIF)) (FILTER_NODE_NUMBER 3)"

lemma route_form:
  obtains bc c where "filter_compile (\<lambda>_. True) (Some (sample_expr\<lparr>fe_ast := Some route_node\<rparr>)) = Some bc"
    "compiled_form bc route_node c" "instruction_count bc = 4"
proof -
  have count: "map_option instruction_count (filter_compile (\<lambda>_. True) (Some (sample_expr\<lparr>fe_ast := Some route_node\<rparr>))) = Some 4"
    by code_simp
  then obtain bc where bc: "filter_compile (\<lambda>_. True) (Some (sample_expr\<lparr>fe_ast := Some route_node\<rparr>)) = Some bc"
    "instruction_count bc = 4" by auto
  obtain c where "compiled_form bc route_node c"
    by (rule filter_compile_form [OF _ _ _ bc(1)]) (simp_all add: mem_ok_def sample_expr_def)
  then show thesis using that bc by blast
qed

text \<open>C31. The payload is read by the name of the field, not by the kind of the event: the filter
  \<open>netlink.route.oif > 3\<close>, compiled and run on any event that carries a link, has undefined behaviour,
  whatever the link is.\<close>

theorem payload_confusion:
  "filter_eval 4 (\<lambda>_. True) rc re (filter_compile (\<lambda>_. True) (Some (sample_expr\<lparr>fe_ast := Some route_node\<rparr>)))
     (Some (ev\<lparr>ev_netlink := (ev_netlink ev)\<lparr>nl_data := NL_DATA_LINK i\<rparr>\<rparr>)) None = Some UB"
proof -
  obtain bc c where bc: "filter_compile (\<lambda>_. True) (Some (sample_expr\<lparr>fe_ast := Some route_node\<rparr>)) = Some bc"
    "compiled_form bc route_node c" "instruction_count bc = 4"
    using route_form .
  have "field_of_code (field_code (FILTER_FIELD_NL_ROUTE ROUTE_OIF)) = Some (FILTER_FIELD_NL_ROUTE ROUTE_OIF)"
    by code_simp
  then have "filter_matches rc re (ev\<lparr>ev_netlink := (ev_netlink ev)\<lparr>nl_data := NL_DATA_LINK i\<rparr>\<rparr>) route_node = UB"
    by (simp add: Let_def filter_matches_def node_value.simps(6) route_node_def extract_field_def extract_route_def)
  then show ?thesis
    using bc(1,3) filter_eval_no_context [OF _ bc(2), of "\<lambda>_. True" 4 rc re] by (simp add: mem_ok_def)
qed

text \<open>C23. When no allocation fails, the compiler accepts exactly the trees in which a list occurs only as the right operand
  of \<open>IN\<close>, every \<open>IN\<close> has a list as its right operand, and the same holds of the items of these lists; every other tree is
  refused.\<close>

theorem filter_compile_accepts:
  assumes "mem_ok mem" "fe_valid e" "fe_ast e = Some n"
  shows "(\<exists>bc. filter_compile mem (Some e) = Some bc) \<longleftrightarrow> compilable n"
  using filter_compile_code [OF assms] filter_compile_None [of n e mem] assms(3) by (metis option.distinct(1))

theorem filter_compile_accepts_witness: "\<exists>bc. filter_compile (\<lambda>_. True) (Some sample_expr) = Some bc"
  using filter_compile_accepts [of "\<lambda>_. True" sample_expr sample_node]
  by (simp add: mem_ok_def sample_expr_def sample_node_def)

end
