(* ===== verification/C_Print.thy ===== *)
theory C_Print
  imports C_Lib
begin

text \<open>
  What the program uses of \<open>printf\<close>: decimal conversions, and \<open>snprintf\<close> into a buffer from a running
  offset. The buffer is the list of its characters; its length is the \<open>size\<close> of the C code.
\<close>

section \<open>Decimal conversions\<close>

definition dec_digit :: "nat \<Rightarrow> char" where
  "dec_digit d = char_of (48 + d)"

fun dec_nat :: "nat \<Rightarrow> string" where
  "dec_nat n = (if n < 10 then [dec_digit n] else dec_nat (n div 10) @ [dec_digit (n mod 10)])"

declare dec_nat.simps [simp del]

definition dec_int :: "int \<Rightarrow> string" where
  "dec_int i = (if i < 0 then CHR ''-'' # dec_nat (nat (- i)) else dec_nat (nat i))"

text \<open>A minimal width filled with zeros, as in \<open>%04zu\<close>.\<close>

definition zero_padded :: "nat \<Rightarrow> string \<Rightarrow> string" where
  "zero_padded w s = replicate (w - length s) (CHR ''0'') @ s"

section \<open>Printing into a buffer\<close>

text \<open>
  \<open>offset += snprintf(buf + offset, size - offset, ...)\<close>: the text is cut to the room left, a NUL ends
  it, and the offset advances by the full length. An offset past the end forms a pointer outside the
  buffer and a wrapped size.
\<close>

definition print_at :: "string \<Rightarrow> nat \<Rightarrow> string \<Rightarrow> (string \<times> nat) outcome" where
  "print_at buf offset txt =
     (if offset > length buf then UB
      else let room = length buf - offset;
               put = (if room = 0 then [] else take (room - 1) txt @ [NUL])
           in Ok (take offset buf @ put @ drop (offset + length put) buf, offset + length txt))"

section \<open>Properties\<close>

lemma c_code_dec_digit: "d < 10 \<Longrightarrow> c_code (dec_digit d) = 48 + d"
  by (simp add: c_code_def dec_digit_def)

lemma digit_val_dec_digit: "d < 10 \<Longrightarrow> isdigit (dec_digit d) \<and> digit_val (dec_digit d) = d"
  by (simp add: isdigit_def digit_val_def c_code_dec_digit)

lemma dec_nat_digits: "c \<in> set (dec_nat n) \<Longrightarrow> isdigit c"
proof (induction n rule: dec_nat.induct)
  case (1 n)
  then show ?case
    using digit_val_dec_digit by (subst (asm) (2) dec_nat.simps) (auto split: if_splits)
qed

lemma dec_nat_not_Nil [simp]: "dec_nat n \<noteq> []"
  by (simp add: dec_nat.simps)

lemma dec_val_append: "(\<And>c. c \<in> set xs \<Longrightarrow> isdigit c) \<Longrightarrow> dec_val a (xs @ ys) = dec_val (dec_val a xs) ys"
  by (induction xs arbitrary: a) auto

text \<open>Printing a number and reading it back.\<close>

lemma dec_val_dec_nat: "dec_val 0 (dec_nat n) = n"
proof (induction n rule: dec_nat.induct)
  case (1 n)
  show ?case
  proof (cases "n < 10")
    case True
    then show ?thesis using digit_val_dec_digit [of n] by (simp add: dec_nat.simps)
  next
    case False
    then have "dec_nat n = dec_nat (n div 10) @ [dec_digit (n mod 10)]"
      by (subst dec_nat.simps) simp
    moreover have "dec_val 0 (dec_nat (n div 10) @ [dec_digit (n mod 10)]) = dec_val (n div 10) [dec_digit (n mod 10)]"
      using dec_val_append [OF dec_nat_digits] 1 [OF False] by simp
    ultimately show ?thesis using digit_val_dec_digit [of "n mod 10"] by simp
  qed
qed

text \<open>When the text fits, the buffer holds what was there, the text and a NUL.\<close>

lemma print_at_fits:
  assumes "offset + length txt < length buf" "take offset buf = pre" "length pre = offset"
  obtains buf' where "print_at buf offset txt = Ok (buf', offset + length txt)" "length buf' = length buf"
    "take (offset + length txt) buf' = pre @ txt" "buf' ! (offset + length txt) = NUL"
proof
  let ?b = "take offset buf @ (txt @ [NUL]) @ drop (offset + Suc (length txt)) buf"
  have "take (length buf - offset - 1) txt = txt" using assms(1) by simp
  then show "print_at buf offset txt = Ok (?b, offset + length txt)"
    using assms(1) by (simp add: print_at_def Let_def)
  show "length ?b = length buf" using assms(1) by simp
  have l: "length (take offset buf) = offset" using assms(1) by simp
  then show "take (offset + length txt) ?b = pre @ txt" using assms(2) by simp
  show "?b ! (offset + length txt) = NUL" using l by (simp add: nth_append)
qed

lemma print_at_past: "offset > length buf \<Longrightarrow> print_at buf offset txt = UB"
  by (simp add: print_at_def)

end
