(* ===== verification/Filter_Disasm.thy ===== *)
theory Filter_Disasm
  imports Filter_Compiler C_Print
begin

text \<open>
  \<open>filter_bytecode_disassemble\<close> of \<^verbatim>\<open>src/src/core/filter_compiler.c\<close>: the listing of a bytecode program,
  printed into a buffer piece by piece.
\<close>

section \<open>The printing loop\<close>

definition disasm_header :: "filter_bytecode \<Rightarrow> string" where
  "disasm_header bc = ''Bytecode ('' @ dec_nat (instruction_count bc) @ '' instructions, '' @
     dec_nat (length (bc_strings bc)) @ '' strings):'' @ [CHR 0x0A]"

definition disasm_label :: "nat \<Rightarrow> string" where
  "disasm_label i = zero_padded 4 (dec_nat i) @ '': ''"

text \<open>The text of an instruction; a string operand outside the table is undefined.\<close>

definition disasm_instr :: "string list \<Rightarrow> filter_instruction \<Rightarrow> string outcome" where
  "disasm_instr strings instr =
     bind_outcome (case instr of
        OP_PUSH_FIELD f \<Rightarrow> Ok (''PUSH_FIELD '' @ dec_nat (unat f))
      | OP_PUSH_STRING i \<Rightarrow>
          (if unat i < length strings then Ok (''PUSH_STRING '' @ [CHR 0x22] @ strings ! unat i @ [CHR 0x22]) else UB)
      | OP_PUSH_NUMBER v \<Rightarrow> Ok (''PUSH_NUMBER '' @ dec_int (sint v))
      | OP_POP \<Rightarrow> Ok ''POP'' | OP_EQ \<Rightarrow> Ok ''EQ'' | OP_NE \<Rightarrow> Ok ''NE'' | OP_LT \<Rightarrow> Ok ''LT''
      | OP_GT \<Rightarrow> Ok ''GT'' | OP_LE \<Rightarrow> Ok ''LE'' | OP_GE \<Rightarrow> Ok ''GE''
      | OP_MATCH \<Rightarrow> Ok ''MATCH'' | OP_NMATCH \<Rightarrow> Ok ''NMATCH''
      | OP_IN count \<Rightarrow> Ok (''IN '' @ dec_nat (unat count))
      | OP_AND \<Rightarrow> Ok ''AND'' | OP_OR \<Rightarrow> Ok ''OR'' | OP_NOT \<Rightarrow> Ok ''NOT''
      | OP_JUMP off \<Rightarrow> Ok (''JUMP '' @ dec_int (sint off))
      | OP_JUMP_IF_FALSE off \<Rightarrow> Ok (''JUMP_IF_FALSE '' @ dec_int (sint off))
      | OP_JUMP_IF_TRUE off \<Rightarrow> Ok (''JUMP_IF_TRUE '' @ dec_int (sint off))
      | OP_RETURN \<Rightarrow> Ok ''RETURN'' | OP_NOP \<Rightarrow> Ok ''NOP'')
     (\<lambda>txt. Ok (txt @ [CHR 0x0A]))"

fun disasm_loop ::
  "string list \<Rightarrow> nat \<Rightarrow> filter_instruction list \<Rightarrow> string \<Rightarrow> nat \<Rightarrow> (string \<times> nat) outcome" where
  "disasm_loop strings i [] buf offset = Ok (buf, offset)"
| "disasm_loop strings i (instr # rest) buf offset =
     (if offset < length buf then
        bind_outcome (print_at buf offset (disasm_label i)) (\<lambda>(buf, offset).
        bind_outcome (disasm_instr strings instr) (\<lambda>txt.
        bind_outcome (print_at buf offset txt) (\<lambda>(buf, offset).
          disasm_loop strings (i + 1) rest buf offset)))
      else Ok (buf, offset))"

definition filter_bytecode_disassemble ::
  "filter_bytecode option \<Rightarrow> string option \<Rightarrow> (string option \<times> nat) outcome" where
  "filter_bytecode_disassemble bytecode buf =
     (case (bytecode, buf) of
        (Some bc, Some b) \<Rightarrow>
          if b = [] then Ok (buf, 0)
          else bind_outcome (print_at b 0 (disasm_header bc)) (\<lambda>(b, offset).
            bind_outcome (disasm_loop (bc_strings bc) 0 (bc_instructions bc) b offset) (\<lambda>(b, offset).
              Ok (Some b, offset)))
      | _ \<Rightarrow> Ok (buf, 0))"

section \<open>The whole listing\<close>

text \<open>The listing as one text, with every line numbered.\<close>

fun disasm_lines :: "string list \<Rightarrow> nat \<Rightarrow> filter_instruction list \<Rightarrow> string outcome" where
  "disasm_lines strings i [] = Ok []"
| "disasm_lines strings i (instr # rest) =
     bind_outcome (disasm_instr strings instr) (\<lambda>str.
     bind_outcome (disasm_lines strings (i + 1) rest) (\<lambda>txts. Ok (disasm_label i @ str @ txts)))"

definition disasm_listing :: "filter_bytecode \<Rightarrow> string outcome" where
  "disasm_listing bc =
     bind_outcome (disasm_lines (bc_strings bc) 0 (bc_instructions bc)) (\<lambda>txts. Ok (disasm_header bc @ txts))"

text \<open>A buffer that holds a text, NUL-terminated, up to an offset.\<close>

definition printed :: "nat \<Rightarrow> string \<Rightarrow> string \<Rightarrow> nat \<Rightarrow> bool" where
  "printed sz str buf offset \<longleftrightarrow> length buf = sz \<and> offset = length str \<and> offset < sz \<and>
     take offset buf = str \<and> buf ! offset = NUL"

lemma print_at_printed:
  assumes "take (length pre) buf = pre" "length buf = sz" "length pre + length str < sz"
  obtains b where "print_at buf (length pre) str = Ok (b, length (pre @ str))" "printed sz (pre @ str) b (length (pre @ str))"
proof -
  have "length pre + length str < length buf" using assms(2,3) by simp
  then obtain b where b: "print_at buf (length pre) str = Ok (b, length pre + length str)" "length b = length buf"
    "take (length pre + length str) b = pre @ str" "b ! (length pre + length str) = NUL"
    using print_at_fits assms(1) by blast
  then show thesis using that [of b] assms(2,3) by (simp add: printed_def)
qed

lemma printedD: "printed sz str buf offset \<Longrightarrow> take (length str) buf = str \<and> length buf = sz \<and> offset = length str \<and> offset < sz"
  by (auto simp: printed_def)

lemma disasm_instr_not_Fail: "disasm_instr strings instr \<noteq> Fail"
  by (cases instr) (auto simp: disasm_instr_def)

lemma disasm_loop_prints:
  assumes "printed sz pre buf (length pre)" "disasm_lines strings i is = Ok txts" "length pre + length txts < sz"
  shows "\<exists>b. disasm_loop strings i is buf (length pre) = Ok (b, length (pre @ txts)) \<and>
    printed sz (pre @ txts) b (length (pre @ txts))"
  using assms
proof (induction "is" arbitrary: i pre buf txts)
  case (Cons instr rest)
  obtain str more where t: "disasm_instr strings instr = Ok str" "disasm_lines strings (i + 1) rest = Ok more"
    "txts = disasm_label i @ str @ more"
    using Cons.prems(2) by (auto simp: bind_outcome_Ok_iff)
  note p = printedD [OF Cons.prems(1)]
  obtain b1 where b1: "print_at buf (length pre) (disasm_label i) = Ok (b1, length (pre @ disasm_label i))"
    "printed sz (pre @ disasm_label i) b1 (length (pre @ disasm_label i))"
    using print_at_printed [of pre buf sz "disasm_label i"] p Cons.prems(3) t(3) by auto
  obtain b2 where b2: "print_at b1 (length (pre @ disasm_label i)) str = Ok (b2, length ((pre @ disasm_label i) @ str))"
    "printed sz ((pre @ disasm_label i) @ str) b2 (length ((pre @ disasm_label i) @ str))"
    using print_at_printed [of "pre @ disasm_label i" b1 sz str] printedD [OF b1(2)] Cons.prems(3) t(3) by auto
  show ?case
    using Cons.IH [OF b2(2) t(2)] Cons.prems(3) p b1(1) b2(1) t by simp
qed simp

text \<open>C33. With a buffer longer than the listing, the disassembler writes exactly the listing (a header
  and one numbered line per instruction), ends it with a NUL and returns its length.\<close>

theorem disassemble_fits:
  assumes "disasm_listing bc = Ok str" "length str < length buf"
  shows "\<exists>b. filter_bytecode_disassemble (Some bc) (Some buf) = Ok (Some b, length str) \<and>
    take (length str) b = str \<and> b ! length str = NUL"
proof -
  obtain txts where t: "disasm_lines (bc_strings bc) 0 (bc_instructions bc) = Ok txts" "str = disasm_header bc @ txts"
    using assms(1) by (auto simp: disasm_listing_def bind_outcome_Ok_iff)
  obtain b1 where b1: "print_at buf 0 (disasm_header bc) = Ok (b1, length (disasm_header bc))"
    "printed (length buf) (disasm_header bc) b1 (length (disasm_header bc))"
    using print_at_printed [of "[]" buf "length buf" "disasm_header bc"] assms(2) t(2) by auto
  have "buf \<noteq> []" using assms(2) by auto
  then show ?thesis
    using disasm_loop_prints [OF b1(2) t(1)] assms(2) t(2) b1(1)
    by (auto simp: filter_bytecode_disassemble_def printed_def)
qed

text \<open>C34. A buffer that ends inside the number of the first line makes the disassembler print past its
  end: the offset of the next \<open>snprintf\<close> lies outside the buffer and the room left has wrapped.\<close>

theorem disassemble_overflow:
  assumes "bc_instructions bc \<noteq> []" "length (disasm_header bc) < length buf"
    and "length buf < length (disasm_header bc) + length (disasm_label 0)"
  shows "filter_bytecode_disassemble (Some bc) (Some buf) = UB"
proof -
  obtain instr rest where i: "bc_instructions bc = instr # rest" using assms(1) by (cases "bc_instructions bc") auto
  obtain b1 where b1: "print_at buf 0 (disasm_header bc) = Ok (b1, length (disasm_header bc))"
    "printed (length buf) (disasm_header bc) b1 (length (disasm_header bc))"
    using print_at_printed [of "[]" buf "length buf" "disasm_header bc"] assms(2) by auto
  have len: "length b1 = length buf" using b1(2) by (simp add: printed_def)
  obtain b2 where b2: "print_at b1 (length (disasm_header bc)) (disasm_label 0) =
      Ok (b2, length (disasm_header bc) + length (disasm_label 0))" "length b2 = length buf"
    using len assms(2) by (auto simp: print_at_def Let_def)
  have "bind_outcome (disasm_instr (bc_strings bc) instr) (\<lambda>str.
      bind_outcome (print_at b2 (length (disasm_header bc) + length (disasm_label 0)) str)
        (\<lambda>(b, n). disasm_loop (bc_strings bc) (Suc 0) rest b n)) = UB"
    using disasm_instr_not_Fail [of "bc_strings bc" instr] print_at_past [of b2] b2(2) assms(3)
    by (cases "disasm_instr (bc_strings bc) instr") auto
  then show ?thesis
    using assms(2) b1(1) b2(1) i len by (auto simp: filter_bytecode_disassemble_def)
qed

definition tiny_bytecode :: filter_bytecode where
  "tiny_bytecode = \<lparr>bc_instructions = [OP_PUSH_NUMBER 7, OP_RETURN], bc_instruction_capacity = 64, bc_strings = [],
     bc_string_capacity = 16, bc_original_instruction_count = 2, bc_optimizations_applied = 0\<rparr>"

lemma tiny_sizes: "length (disasm_header tiny_bytecode) = 38" "length (disasm_label 0) = 6"
  by code_simp+

theorem disassemble_fits_witness:
  "\<exists>str b. disasm_listing tiny_bytecode = Ok str \<and>
     filter_bytecode_disassemble (Some tiny_bytecode) (Some (replicate 90 NUL)) = Ok (Some b, length str)"
proof -
  obtain str where t: "disasm_listing tiny_bytecode = Ok str" "length str < 90"
  proof -
    have "bind_outcome (disasm_listing tiny_bytecode) (\<lambda>t. Ok (length t < 90)) = Ok True" by code_simp
    then show thesis using that by (auto simp: bind_outcome_Ok_iff)
  qed
  then show ?thesis using disassemble_fits [OF t(1), of "replicate 90 NUL"] by auto
qed

theorem disassemble_overflow_witness:
  "filter_bytecode_disassemble (Some tiny_bytecode) (Some (replicate 40 NUL)) = UB"
  using disassemble_overflow [of tiny_bytecode "replicate 40 NUL"] tiny_sizes by (simp add: tiny_bytecode_def)

end
