(* ===== verification/Named_Table.thy ===== *)
theory Named_Table
  imports NL_Prelude
begin

text \<open>
  Linked lists of named records, which the program uses for filters, users, rules and the like: the
  first-match search, removal and update, and the contract of a table of uniquely named entries with
  its reading as a finite map.
\<close>

section \<open>Lists searched by key\<close>

fun find_by :: "('e \<Rightarrow> 'k) \<Rightarrow> 'k \<Rightarrow> 'e list \<Rightarrow> 'e option" where
  "find_by key k [] = None"
| "find_by key k (x # xs) = (if key x = k then Some x else find_by key k xs)"

fun remove_by :: "('e \<Rightarrow> 'k) \<Rightarrow> 'k \<Rightarrow> 'e list \<Rightarrow> 'e list" where
  "remove_by key k [] = []"
| "remove_by key k (x # xs) = (if key x = k then xs else x # remove_by key k xs)"

fun update_by :: "('e \<Rightarrow> 'k) \<Rightarrow> 'k \<Rightarrow> ('e \<Rightarrow> 'e) \<Rightarrow> 'e list \<Rightarrow> 'e list" where
  "update_by key k f [] = []"
| "update_by key k f (x # xs) = (if key x = k then f x # xs else x # update_by key k f xs)"

lemma find_by_key: "find_by key k xs = Some x \<Longrightarrow> key x = k \<and> x \<in> set xs"
  by (induction xs) (auto split: if_splits)

lemma find_by_None: "find_by key k xs = None \<longleftrightarrow> k \<notin> key ` set xs"
  by (induction xs) auto

lemma find_by_member: "distinct (map key xs) \<Longrightarrow> x \<in> set xs \<Longrightarrow> find_by key (key x) xs = Some x"
  by (induction xs) auto

lemma remove_by_absent: "k \<notin> key ` set xs \<Longrightarrow> remove_by key k xs = xs"
  by (induction xs) auto

lemma keys_differ:
  assumes "distinct (map key (x # xs))"
  shows "\<forall>y \<in> set xs. key y \<noteq> key x"
proof
  fix y assume "y \<in> set xs"
  then have "key y \<in> set (map key xs)" by simp
  then show "key y \<noteq> key x" using assms by auto
qed

lemma remove_by_eq_filter: "distinct (map key xs) \<Longrightarrow> remove_by key k xs = filter (\<lambda>x. key x \<noteq> k) xs"
proof (induction xs)
  case (Cons x xs)
  then have "\<forall>y \<in> set xs. key y \<noteq> key x" by (intro keys_differ)
  then have "filter (\<lambda>y. key y \<noteq> key x) xs = xs" by (simp add: filter_id_conv)
  then show ?case using Cons by auto
qed simp

lemma find_remove_by:
  "distinct (map key xs) \<Longrightarrow> find_by key j (remove_by key k xs) = (if j = k then None else find_by key j xs)"
  by (induction xs) (auto simp: find_by_None)

lemma length_remove_by: "k \<in> key ` set xs \<Longrightarrow> length xs = Suc (length (remove_by key k xs))"
  by (induction xs) auto

lemma set_remove_by: "set (remove_by key k xs) \<subseteq> set xs"
  by (induction xs) auto

lemma distinct_remove_by: "distinct (map key xs) \<Longrightarrow> distinct (map key (remove_by key k xs))"
  by (simp add: remove_by_eq_filter distinct_map_filter)

lemma map_update_by: "(\<And>x. key (f x) = key x) \<Longrightarrow> map key (update_by key k f xs) = map key xs"
  by (induction xs) auto

lemma find_update_by:
  "(\<And>x. key (f x) = key x) \<Longrightarrow>
     find_by key j (update_by key k f xs) = (if j = k then map_option f (find_by key k xs) else find_by key j xs)"
  by (induction xs) auto

lemma update_by_absent: "k \<notin> key ` set xs \<Longrightarrow> update_by key k f xs = xs"
  by (induction xs) auto

lemma update_by_map:
  "distinct (map key xs) \<Longrightarrow> update_by key k f xs = map (\<lambda>x. if key x = k then f x else x) xs"
proof (induction xs)
  case (Cons x xs)
  then have "\<forall>y \<in> set xs. key y \<noteq> key x" by (intro keys_differ)
  then have "map (\<lambda>y. if key y = key x then f y else y) xs = xs" by (intro map_idI) simp
  then show ?case using Cons by auto
qed simp

lemma set_update_by: "y \<in> set (update_by key k f xs) \<Longrightarrow> y \<in> set xs \<or> (\<exists>x \<in> set xs. y = f x)"
  by (induction xs) (auto split: if_splits)

lemma length_update_by [simp]: "length (update_by key k f xs) = length xs"
  by (induction xs) auto

section \<open>Tables\<close>

datatype ('k, 'a) table_op = Add 'k 'a | Remove 'k

fun table_run ::
  "('s \<Rightarrow> 'k \<Rightarrow> 'a \<Rightarrow> bool \<times> 's) \<Rightarrow> ('s \<Rightarrow> 'k \<Rightarrow> bool \<times> 's) \<Rightarrow> ('k, 'a) table_op list \<Rightarrow> 's \<Rightarrow> bool list \<times> 's" where
  "table_run add remove [] s = ([], s)"
| "table_run add remove (Add k a # ops) s =
     (case add s k a of (ok, s) \<Rightarrow> case table_run add remove ops s of (oks, s) \<Rightarrow> (ok # oks, s))"
| "table_run add remove (Remove k # ops) s =
     (case remove s k of (ok, s) \<Rightarrow> case table_run add remove ops s of (oks, s) \<Rightarrow> (ok # oks, s))"

text \<open>
  The same run on a finite map: an addition succeeds when the name is free and an entry can be made
  from the argument, a removal when the name is there.
\<close>

definition map_add_entry :: "('k \<Rightarrow> 'a \<Rightarrow> 'e option) \<Rightarrow> ('k \<rightharpoonup> 'e) \<Rightarrow> 'k \<Rightarrow> 'a \<Rightarrow> bool \<times> ('k \<rightharpoonup> 'e)" where
  "map_add_entry make m k a =
     (case (m k, make k a) of (None, Some e) \<Rightarrow> (True, m(k \<mapsto> e)) | _ \<Rightarrow> (False, m))"

definition map_remove_entry :: "('k \<rightharpoonup> 'e) \<Rightarrow> 'k \<Rightarrow> bool \<times> ('k \<rightharpoonup> 'e)" where
  "map_remove_entry m k = (m k \<noteq> None, m(k := None))"

locale named_table =
  fixes inv :: "'s \<Rightarrow> bool"
    and lookup :: "'s \<Rightarrow> 'k \<Rightarrow> 'e option"
    and add :: "'s \<Rightarrow> 'k \<Rightarrow> 'a \<Rightarrow> bool \<times> 's"
    and remove :: "'s \<Rightarrow> 'k \<Rightarrow> bool \<times> 's"
    and make :: "'k \<Rightarrow> 'a \<Rightarrow> 'e option"
  assumes add_law: "inv s \<Longrightarrow> add s k a = (ok, s') \<Longrightarrow>
      inv s' \<and> map_add_entry make (lookup s) k a = (ok, lookup s')"
    and remove_law: "inv s \<Longrightarrow> remove s k = (ok, s') \<Longrightarrow>
      inv s' \<and> map_remove_entry (lookup s) k = (ok, lookup s')"
begin

lemma table_run_refines:
  assumes "inv s" and "table_run add remove ops s = (oks, s')"
  shows "inv s' \<and> table_run (map_add_entry make) map_remove_entry ops (lookup s) = (oks, lookup s')"
  using assms
proof (induction ops arbitrary: s oks s')
  case (Cons c ops)
  show ?case
  proof (cases c)
    case (Add k a)
    obtain ok s1 where a: "add s k a = (ok, s1)" by force
    obtain oks1 s2 where r: "table_run add remove ops s1 = (oks1, s2)" by force
    show ?thesis
      using add_law [OF Cons.prems(1) a] Cons.IH [OF _ r] Cons.prems(2) a r Add by auto
  next
    case (Remove k)
    obtain ok s1 where a: "remove s k = (ok, s1)" by force
    obtain oks1 s2 where r: "table_run add remove ops s1 = (oks1, s2)" by force
    show ?thesis
      using remove_law [OF Cons.prems(1) a] Cons.IH [OF _ r] Cons.prems(2) a r Remove by auto
  qed
qed simp

text \<open>Adding what was refused before succeeds once the name is free again.\<close>

lemma add_after_remove:
  assumes "inv s" "remove s k = (ok, s1)" "add s1 k a = (ok', s2)"
  shows "ok' = (make k a \<noteq> None) \<and> lookup s2 k = make k a"
proof -
  have s1: "inv s1" "lookup s1 k = None"
    using remove_law [OF assms(1,2)] by (auto simp: map_remove_entry_def fun_eq_iff split: if_splits)
  then show ?thesis
    using add_law [OF s1(1) assms(3)]
    by (cases "make k a") (auto simp: map_add_entry_def dest: arg_cong [where f = "\<lambda>m. m k"])
qed

end

end
