(* ===== verification/Filter_Manager.thy ===== *)
theory Filter_Manager
  imports Filter_Semantics Named_Table C_Print
begin

text \<open>
  \<^verbatim>\<open>src/src/core/filter_manager.c\<close>: a list of named filters, kept compiled, evaluated through one shared
  context, counted, and stored in a text file. The storage file is a component of the state: \<open>None\<close> when
  it does not exist. Whether it can be opened for writing, the time of day and the readings of the
  clock are arguments. The manager pointer is never NULL.
\<close>

section \<open>State\<close>

record filter_entry =
  fen_name :: string
  fen_description :: "string option"
  fen_expression :: "string option"
  fen_parsed :: filter_expr
  fen_compiled :: filter_bytecode
  fen_eval_count :: u64
  fen_match_count :: u64
  fen_total_time_ns :: u64
  fen_created :: i64
  fen_modified :: i64
  fen_enabled :: bool

record 'r filter_manager =
  fm_filters :: "filter_entry list"
  fm_filter_count :: size_t
  fm_eval_ctx :: "'r filter_eval_context"
  fm_storage_path :: "string option"
  fm_auto_save :: bool

text \<open>The manager and the contents of its storage file.\<close>

type_synonym 'r fm_state = "'r filter_manager \<times> string option"

definition find_filter :: "'r filter_manager \<Rightarrow> string \<Rightarrow> filter_entry option" where
  "find_filter mgr name = find_by fen_name name (fm_filters mgr)"

text \<open>Parse, compile and optimise; nothing when the expression is not a filter.\<close>

definition build_filter :: "alloc \<Rightarrow> string \<Rightarrow> (filter_expr \<times> filter_bytecode) option outcome" where
  "build_filter mem expression =
     (case filter_parse (Some expression) of None \<Rightarrow> Ok None
      | Some expr \<Rightarrow>
        if \<not> fe_valid expr then Ok None
        else case filter_compile mem (Some expr) of None \<Rightarrow> Ok None
        | Some compiled \<Rightarrow>
          bind_outcome (filter_bytecode_optimize compiled) (\<lambda>(_, compiled). Ok (Some (expr, compiled))))"

definition filter_entry_create ::
  "alloc \<Rightarrow> i64 \<Rightarrow> string \<Rightarrow> string \<Rightarrow> string option \<Rightarrow> filter_entry option outcome" where
  "filter_entry_create mem now name expression description =
     (if \<not> mem 96 \<or> \<not> mem (length name + 1) \<or> \<not> mem (length expression + 1) then Ok None
      else if (case description of None \<Rightarrow> False | Some d \<Rightarrow> \<not> mem (length d + 1)) then Ok None
      else bind_outcome (build_filter mem expression) (\<lambda>b.
        Ok (case b of None \<Rightarrow> None
          | Some (expr, compiled) \<Rightarrow>
            Some \<lparr>fen_name = name, fen_description = description, fen_expression = Some expression,
              fen_parsed = expr, fen_compiled = compiled, fen_eval_count = 0, fen_match_count = 0,
              fen_total_time_ns = 0, fen_created = now, fen_modified = now, fen_enabled = True\<rparr>)))"

definition filter_manager_create :: "alloc \<Rightarrow> string option \<Rightarrow> 'r filter_manager option" where
  "filter_manager_create mem storage_path =
     (if \<not> mem 40 then None
      else if (case storage_path of None \<Rightarrow> False | Some p \<Rightarrow> \<not> mem (length p + 1)) then None
      else map_option (\<lambda>ctx. \<lparr>fm_filters = [], fm_filter_count = 0, fm_eval_ctx = ctx,
             fm_storage_path = storage_path, fm_auto_save = True\<rparr>)
        (filter_eval_context_create mem))"

section \<open>Saving\<close>

definition save_header :: string where
  "save_header = ''# nlmon filter configuration'' @ [CHR 0x0A] @
     ''# Format: name|expression|description|enabled'' @ [CHR 0x0A, CHR 0x0A]"

text \<open>One line of the file; a missing expression would be printed through a NULL pointer.\<close>

definition save_line :: "filter_entry \<Rightarrow> string outcome" where
  "save_line entry =
     (case fen_expression entry of None \<Rightarrow> UB
      | Some expression \<Rightarrow>
        Ok (fen_name entry @ ''|'' @ expression @ ''|'' @
            (case fen_description entry of None \<Rightarrow> [] | Some d \<Rightarrow> d) @ ''|'' @
            (if fen_enabled entry then ''1'' else ''0'') @ [CHR 0x0A]))"

fun save_lines :: "filter_entry list \<Rightarrow> string outcome" where
  "save_lines [] = Ok []"
| "save_lines (entry # entries) =
     bind_outcome (save_line entry) (\<lambda>l. bind_outcome (save_lines entries) (\<lambda>ls. Ok (l @ ls)))"

definition filter_manager_save :: "bool \<Rightarrow> 'r fm_state \<Rightarrow> (bool \<times> 'r fm_state) outcome" where
  "filter_manager_save writable st =
     (case st of (mgr, file) \<Rightarrow>
        if fm_storage_path mgr = None \<or> \<not> writable then Ok (False, st)
        else bind_outcome (save_lines (fm_filters mgr)) (\<lambda>ls. Ok (True, mgr, Some (save_header @ ls))))"

definition auto_save :: "bool \<Rightarrow> 'r fm_state \<Rightarrow> (bool \<times> 'r fm_state) outcome" where
  "auto_save writable st =
     (if fm_auto_save (fst st) \<and> fm_storage_path (fst st) \<noteq> None
      then bind_outcome (filter_manager_save writable st) (\<lambda>(_, st). Ok (True, st))
      else Ok (True, st))"

section \<open>Operations\<close>

definition filter_manager_add ::
  "alloc \<Rightarrow> i64 \<Rightarrow> bool \<Rightarrow> 'r fm_state \<Rightarrow> string option \<Rightarrow> string option \<Rightarrow> string option \<Rightarrow>
     (bool \<times> 'r fm_state) outcome" where
  "filter_manager_add mem now writable st name expression description =
     (case (name, expression) of
        (Some name, Some expression) \<Rightarrow>
          if find_filter (fst st) name \<noteq> None then Ok (False, st)
          else bind_outcome (filter_entry_create mem now name expression description) (\<lambda>e.
            case e of None \<Rightarrow> Ok (False, st)
            | Some entry \<Rightarrow>
              (case st of (mgr, file) \<Rightarrow>
                 auto_save writable
                   (mgr\<lparr>fm_filters := entry # fm_filters mgr, fm_filter_count := fm_filter_count mgr + 1\<rparr>, file)))
      | _ \<Rightarrow> Ok (False, st))"

definition filter_manager_remove :: "bool \<Rightarrow> 'r fm_state \<Rightarrow> string option \<Rightarrow> (bool \<times> 'r fm_state) outcome" where
  "filter_manager_remove writable st name =
     (case name of None \<Rightarrow> Ok (False, st)
      | Some name \<Rightarrow>
        (case st of (mgr, file) \<Rightarrow>
           if find_filter mgr name = None then Ok (False, st)
           else auto_save writable
             (mgr\<lparr>fm_filters := remove_by fen_name name (fm_filters mgr),
                  fm_filter_count := fm_filter_count mgr - 1\<rparr>, file)))"

definition filter_manager_get :: "'r filter_manager \<Rightarrow> string option \<Rightarrow> filter_entry option" where
  "filter_manager_get mgr name = (case name of None \<Rightarrow> None | Some name \<Rightarrow> find_filter mgr name)"

definition change_entry :: "string \<Rightarrow> (filter_entry \<Rightarrow> filter_entry) \<Rightarrow> 'r filter_manager \<Rightarrow> 'r filter_manager" where
  "change_entry name f mgr = mgr\<lparr>fm_filters := update_by fen_name name f (fm_filters mgr)\<rparr>"

definition reset_entry :: "filter_entry \<Rightarrow> filter_entry" where
  "reset_entry entry = entry\<lparr>fen_eval_count := 0, fen_match_count := 0, fen_total_time_ns := 0\<rparr>"

definition filter_manager_update ::
  "alloc \<Rightarrow> i64 \<Rightarrow> bool \<Rightarrow> 'r fm_state \<Rightarrow> string option \<Rightarrow> string option \<Rightarrow> (bool \<times> 'r fm_state) outcome" where
  "filter_manager_update mem now writable st name expression =
     (case (name, expression) of
        (Some name, Some expression) \<Rightarrow>
          (case st of (mgr, file) \<Rightarrow>
             if find_filter mgr name = None then Ok (False, st)
             else bind_outcome (build_filter mem expression) (\<lambda>b.
               case b of None \<Rightarrow> Ok (False, st)
               | Some (expr, compiled) \<Rightarrow>
                 auto_save writable
                   (change_entry name (\<lambda>entry. reset_entry (entry\<lparr>
                      fen_expression := (if mem (length expression + 1) then Some expression else None),
                      fen_parsed := expr, fen_compiled := compiled, fen_modified := now\<rparr>)) mgr, file)))
      | _ \<Rightarrow> Ok (False, st))"

text \<open>\<open>filter_manager_enable\<close> and \<open>filter_manager_disable\<close> differ in the flag they store.\<close>

definition set_enabled :: "bool \<Rightarrow> bool \<Rightarrow> 'r fm_state \<Rightarrow> string option \<Rightarrow> (bool \<times> 'r fm_state) outcome" where
  "set_enabled flag writable st name =
     (case name of None \<Rightarrow> Ok (False, st)
      | Some name \<Rightarrow>
        (case st of (mgr, file) \<Rightarrow>
           if find_filter mgr name = None then Ok (False, st)
           else auto_save writable (change_entry name (\<lambda>entry. entry\<lparr>fen_enabled := flag\<rparr>) mgr, file)))"

definition filter_manager_enable :: "bool \<Rightarrow> 'r fm_state \<Rightarrow> string option \<Rightarrow> (bool \<times> 'r fm_state) outcome" where
  "filter_manager_enable = set_enabled True"

definition filter_manager_disable :: "bool \<Rightarrow> 'r fm_state \<Rightarrow> string option \<Rightarrow> (bool \<times> 'r fm_state) outcome" where
  "filter_manager_disable = set_enabled False"
section \<open>Evaluation\<close>

definition count_eval :: "bool \<Rightarrow> u64 \<Rightarrow> filter_entry \<Rightarrow> filter_entry" where
  "count_eval result elapsed_ns entry =
     entry\<lparr>fen_eval_count := fen_eval_count entry + 1,
           fen_total_time_ns := fen_total_time_ns entry + elapsed_ns,
           fen_match_count := (if result then fen_match_count entry + 1 else fen_match_count entry)\<rparr>"

text \<open>\<open>clock\<close> is the pair of readings around the evaluation; \<open>None\<close> when the fuel runs out.\<close>

definition filter_manager_eval ::
  "nat \<Rightarrow> alloc \<Rightarrow> (string \<Rightarrow> 'r option) \<Rightarrow> ('r \<Rightarrow> string \<Rightarrow> bool) \<Rightarrow> (i64 \<times> i64) \<times> (i64 \<times> i64) \<Rightarrow>
     'r filter_manager \<Rightarrow> string option \<Rightarrow> nlmon_event option \<Rightarrow> (bool \<times> 'r filter_manager) outcome option" where
  "filter_manager_eval fuel mem regcomp regexec clock mgr name event =
     (if name = None \<or> event = None then Some (Ok (False, mgr))
      else case find_filter mgr (the name) of None \<Rightarrow> Some (Ok (False, mgr))
      | Some entry \<Rightarrow>
        if \<not> fen_enabled entry then Some (Ok (False, mgr))
        else map_option (\<lambda>r. bind_outcome r (\<lambda>(result, elapsed_ns, ctx).
            Ok (result, (change_entry (the name) (count_eval result (the elapsed_ns)) mgr)\<lparr>fm_eval_ctx := the ctx\<rparr>)))
          (filter_eval_with_profiling fuel mem regcomp regexec (fst clock) (snd clock)
             (Some (fen_compiled entry)) event (Some (fm_eval_ctx mgr))))"

text \<open>The loop over the entries: the names that matched, in order.\<close>

fun eval_entries ::
  "nat \<Rightarrow> alloc \<Rightarrow> (string \<Rightarrow> 'r option) \<Rightarrow> ('r \<Rightarrow> string \<Rightarrow> bool) \<Rightarrow> (string \<Rightarrow> (i64 \<times> i64) \<times> (i64 \<times> i64)) \<Rightarrow>
     nlmon_event \<Rightarrow> filter_entry list \<Rightarrow> 'r filter_manager \<Rightarrow> (string list \<times> 'r filter_manager) outcome option" where
  "eval_entries fuel mem regcomp regexec clock event [] mgr = Some (Ok ([], mgr))"
| "eval_entries fuel mem regcomp regexec clock event (entry # entries) mgr =
     (if \<not> fen_enabled entry then eval_entries fuel mem regcomp regexec clock event entries mgr
      else case filter_manager_eval fuel mem regcomp regexec (clock (fen_name entry)) mgr
                  (Some (fen_name entry)) (Some event) of
        None \<Rightarrow> None
      | Some (Ok (result, mgr)) \<Rightarrow>
          map_option (\<lambda>r. bind_outcome r (\<lambda>(names, mgr).
              Ok (if result then fen_name entry # names else names, mgr)))
            (eval_entries fuel mem regcomp regexec clock event entries mgr)
      | Some Fail \<Rightarrow> Some Fail
      | Some UB \<Rightarrow> Some UB)"

text \<open>The count of all matches, and the names written to the array of \<open>max_matches\<close> slots.\<close>

definition filter_manager_eval_all ::
  "nat \<Rightarrow> alloc \<Rightarrow> (string \<Rightarrow> 'r option) \<Rightarrow> ('r \<Rightarrow> string \<Rightarrow> bool) \<Rightarrow> (string \<Rightarrow> (i64 \<times> i64) \<times> (i64 \<times> i64)) \<Rightarrow>
     'r filter_manager \<Rightarrow> nlmon_event option \<Rightarrow> nat option \<Rightarrow> (nat \<times> string list \<times> 'r filter_manager) outcome option" where
  "filter_manager_eval_all fuel mem regcomp regexec clock mgr event max_matches =
     (case event of None \<Rightarrow> Some (Ok (0, [], mgr))
      | Some ev \<Rightarrow>
        map_option (\<lambda>r. bind_outcome r (\<lambda>(names, mgr).
            Ok (length names, case max_matches of None \<Rightarrow> [] | Some n \<Rightarrow> take n names, mgr)))
          (eval_entries fuel mem regcomp regexec clock ev (fm_filters mgr) mgr))"

definition filter_manager_list :: "'r filter_manager \<Rightarrow> nat option \<Rightarrow> nat \<times> string list" where
  "filter_manager_list mgr max_count =
     (length (fm_filters mgr),
      case max_count of None \<Rightarrow> [] | Some n \<Rightarrow> take n (map fen_name (fm_filters mgr)))"

section \<open>Loading\<close>

text \<open>
  The open storage file: the characters that were read ahead and not delivered yet, the position of the next read, and the
  end-of-file indicator. A read takes a block of up to \<open>bufsiz\<close> characters from what the file holds at that moment. \<open>bufsiz\<close>, the
  size of the stream's buffer, is a matter of the C library, usually 4096.
\<close>

record stream =
  sm_buffer :: string
  sm_offset :: nat
  sm_eof :: bool

definition fopen_stream :: stream where
  "fopen_stream = \<lparr>sm_buffer = [], sm_offset = 0, sm_eof = False\<rparr>"

definition fgetc :: "nat \<Rightarrow> string \<Rightarrow> stream \<Rightarrow> char option \<times> stream" where
  "fgetc bufsiz content s =
     (case sm_buffer s of
        c # cs \<Rightarrow> (Some c, s\<lparr>sm_buffer := cs\<rparr>)
      | [] \<Rightarrow>
        if sm_eof s then (None, s)
        else case take bufsiz (drop (sm_offset s) content) of
          [] \<Rightarrow> (None, s\<lparr>sm_eof := True\<rparr>)
        | c # cs \<Rightarrow> (Some c, s\<lparr>sm_buffer := cs, sm_offset := sm_offset s + Suc (length cs)\<rparr>))"

text \<open>\<open>fgets\<close> into a buffer of \<open>n + 1\<close> characters: up to and including the next newline; nothing is the result NULL.\<close>

fun fgets :: "nat \<Rightarrow> string \<Rightarrow> nat \<Rightarrow> stream \<Rightarrow> string \<times> stream" where
  "fgets bufsiz content 0 s = ([], s)"
| "fgets bufsiz content (Suc n) s =
     (case fgetc bufsiz content s of
        (None, s) \<Rightarrow> ([], s)
      | (Some c, s) \<Rightarrow>
        if c = CHR 0x0A then ([c], s)
        else case fgets bufsiz content n s of (line, s) \<Rightarrow> (c # line, s))"

declare fgets.simps [simp del]

text \<open>\<open>strtok\<close> with the delimiter \<open>|\<close>: the next non-empty field and what is left of the line.\<close>

definition strtok :: "string \<Rightarrow> string option \<times> string" where
  "strtok s =
     (let t = dropWhile (\<lambda>c. c = CHR ''|'') s
      in if t = [] then (None, [])
         else (Some (takeWhile (\<lambda>c. c \<noteq> CHR ''|'') t), drop 1 (dropWhile (\<lambda>c. c \<noteq> CHR ''|'') t)))"

text \<open>\<open>atoi\<close>: blanks, a sign and digits, through \<open>strtol\<close> and a cast to \<open>int\<close>.\<close>

definition atoi :: "string \<Rightarrow> i32" where
  "atoi s =
     (let t = dropWhile isspace s;
          negative = (t \<noteq> [] \<and> hd t = CHR ''-'');
          digits = (if t \<noteq> [] \<and> (hd t = CHR ''-'' \<or> hd t = CHR ''+'') then tl t else t);
          v = dec_val 0 digits
      in if negative then - of_nat (min (LLONG_MAX + 1) v) else of_nat (min LLONG_MAX v))"

text \<open>
  A line of the file: skipped, or a filter with its name, expression, description and flag. The fields
  \<open>strtok\<close> returns are never empty, so a description that is there is kept.
\<close>

definition parse_line :: "string \<Rightarrow> (string \<times> string \<times> string option \<times> bool) option" where
  "parse_line line =
     (if c_at line 0 = CHR ''#'' \<or> c_at line 0 = CHR 0x0A then None
      else let s = takeWhile (\<lambda>c. c \<noteq> CHR 0x0A) (takeWhile (\<lambda>c. c \<noteq> NUL) line)
      in case strtok s of
          (None, _) \<Rightarrow> None
        | (Some name, s) \<Rightarrow>
          (case strtok s of
             (None, _) \<Rightarrow> None
           | (Some expression, s) \<Rightarrow>
             (case strtok s of (description, s) \<Rightarrow>
                let enabled_str = fst (strtok s)
                in Some (name, expression, description, case enabled_str of None \<Rightarrow> False | Some e \<Rightarrow> atoi e \<noteq> 0))))"

text \<open>The body of the loop: how many filters the line adds, and the manager and its file afterwards.\<close>

definition load_line :: "alloc \<Rightarrow> i64 \<Rightarrow> bool \<Rightarrow> string \<Rightarrow> 'r fm_state \<Rightarrow> (nat \<times> 'r fm_state) outcome" where
  "load_line mem now writable line st =
     (case parse_line line of
        None \<Rightarrow> Ok (0, st)
      | Some (name, expression, description, enabled) \<Rightarrow>
        bind_outcome (filter_manager_add mem now writable st (Some name) (Some expression) description) (\<lambda>(added, st).
          if \<not> added then Ok (0, st)
          else bind_outcome (if enabled then Ok (True, st) else filter_manager_disable writable st (Some name)) (\<lambda>(_, st).
            Ok (1, st))))"

text \<open>
  The loop reads from the file that every successful addition, and disabling, rewrites: what a refill of the stream's buffer
  delivers is what the last save has left there. \<open>None\<close> is a loop that does not end.
\<close>

definition file_content :: "'r fm_state \<Rightarrow> string" where
  "file_content st = (case snd st of None \<Rightarrow> [] | Some s \<Rightarrow> s)"

partial_function (option) load_loop ::
  "alloc \<Rightarrow> i64 \<Rightarrow> bool \<Rightarrow> nat \<Rightarrow> nat \<Rightarrow> stream \<Rightarrow> 'r fm_state \<Rightarrow> (nat \<times> 'r fm_state) outcome option" where
  "load_loop mem now writable bufsiz count s st =
     (case fgets bufsiz (file_content st) 1023 s of (line, s) \<Rightarrow>
        if line = [] then Some (Ok (count, st))
        else case load_line mem now writable line st of
          Ok (n, st) \<Rightarrow> load_loop mem now writable bufsiz (count + n) s st
        | Fail \<Rightarrow> Some Fail
        | UB \<Rightarrow> Some UB)"

text \<open>The result is -1 when there is no file, or it cannot be opened, and otherwise the count.\<close>

definition filter_manager_load ::
  "alloc \<Rightarrow> i64 \<Rightarrow> bool \<Rightarrow> bool \<Rightarrow> nat \<Rightarrow> 'r fm_state \<Rightarrow> (int \<times> 'r fm_state) outcome option" where
  "filter_manager_load mem now readable writable bufsiz st =
     (if fm_storage_path (fst st) = None then Some (Ok (-1, st))
      else if snd st = None \<or> \<not> readable then Some (Ok (-1, st))
      else map_option (\<lambda>r. bind_outcome r (\<lambda>(n, st). Ok (int n, st)))
        (load_loop mem now writable bufsiz 0 fopen_stream st))"

section \<open>Validation and statistics\<close>

text \<open>The message goes to a buffer the caller may give.\<close>

definition filter_manager_validate :: "string option \<Rightarrow> string option \<Rightarrow> (bool \<times> string option) outcome" where
  "filter_manager_validate expression error_msg =
     (if expression = None then Ok (False, error_msg)
      else case filter_validate expression of (valid, error) \<Rightarrow>
        if \<not> valid \<and> error_msg \<noteq> None \<and> the error_msg \<noteq> [] then
          (case error of None \<Rightarrow> UB
           | Some e \<Rightarrow>
             bind_outcome (print_at (the error_msg) 0
                 (pe_message e @ '' (line '' @ dec_nat (pe_line e) @ '', column '' @ dec_nat (pe_column e) @ '')''))
               (\<lambda>(buf, _). Ok (valid, Some buf)))
        else Ok (valid, error_msg))"

definition filter_manager_stats :: "'r filter_manager \<Rightarrow> string option \<Rightarrow> (u64 \<times> u64 \<times> u64) option" where
  "filter_manager_stats mgr name =
     (case name of None \<Rightarrow> None
      | Some name \<Rightarrow>
        map_option (\<lambda>entry. (fen_eval_count entry, fen_match_count entry,
            if fen_eval_count entry > 0 then fen_total_time_ns entry div fen_eval_count entry else 0))
          (find_filter mgr name))"

definition filter_manager_reset_stats :: "'r filter_manager \<Rightarrow> string option \<Rightarrow> 'r filter_manager" where
  "filter_manager_reset_stats mgr name =
     (case name of
        Some name \<Rightarrow> change_entry name reset_entry mgr
      | None \<Rightarrow> mgr\<lparr>fm_filters := map reset_entry (fm_filters mgr)\<rparr>)"

section \<open>Invariant\<close>

text \<open>An entry holds the bytecode of its own expression.\<close>

definition entry_ok :: "filter_entry \<Rightarrow> bool" where
  "entry_ok entry \<longleftrightarrow> (\<exists>s n c. fen_expression entry = Some s \<and> filter_parse (Some s) = Some (fen_parsed entry) \<and>
     fe_valid (fen_parsed entry) \<and> fe_ast (fen_parsed entry) = Some n \<and> compiled_form (fen_compiled entry) n c)"

definition fm_inv :: "'r filter_manager \<Rightarrow> bool" where
  "fm_inv mgr \<longleftrightarrow> distinct (map fen_name (fm_filters mgr)) \<and>
     fm_filter_count mgr = of_nat (length (fm_filters mgr)) \<and> (\<forall>entry \<in> set (fm_filters mgr). entry_ok entry)"

text \<open>What the file holds after a save.\<close>

definition line_of :: "filter_entry \<Rightarrow> string" where
  "line_of entry = result_of [] (save_line entry)"

definition saved_text :: "'r filter_manager \<Rightarrow> string" where
  "saved_text mgr = save_header @ concat (map line_of (fm_filters mgr))"

definition saved_file :: "bool \<Rightarrow> 'r fm_state \<Rightarrow> string option" where
  "saved_file writable st = (if fm_auto_save (fst st) \<and> fm_storage_path (fst st) \<noteq> None \<and> writable
     then Some (saved_text (fst st)) else snd st)"

lemma save_lines_ok:
  "\<forall>entry \<in> set entries. fen_expression entry \<noteq> None \<Longrightarrow> save_lines entries = Ok (concat (map line_of entries))"
  by (induction entries) (auto simp: line_of_def save_line_def)

lemma auto_save_ok:
  assumes "\<forall>entry \<in> set (fm_filters mgr). fen_expression entry \<noteq> None"
  shows "auto_save writable (mgr, file) = Ok (True, mgr, saved_file writable (mgr, file))"
  using save_lines_ok [OF assms]
  by (auto simp: auto_save_def filter_manager_save_def saved_file_def saved_text_def)

lemma entry_ok_expression: "entry_ok entry \<Longrightarrow> fen_expression entry \<noteq> None"
  by (auto simp: entry_ok_def)

lemma auto_save_inv:
  "fm_inv mgr \<Longrightarrow> auto_save writable (mgr, file) = Ok (True, mgr, saved_file writable (mgr, file))"
  by (intro auto_save_ok) (auto simp: fm_inv_def entry_ok_expression)

lemma build_filter_ok:
  assumes "mem_ok mem"
  obtains "build_filter mem s = Ok None"
  | expr bc n c where "build_filter mem s = Ok (Some (expr, bc))" "filter_parse (Some s) = Some expr"
      "fe_valid expr" "fe_ast expr = Some n" "compiled_form bc n c"
proof (cases "\<exists>expr bc. filter_parse (Some s) = Some expr \<and> fe_valid expr \<and> filter_compile mem (Some expr) = Some bc")
  case True
  then obtain expr bc where e: "filter_parse (Some s) = Some expr" "fe_valid expr" "filter_compile mem (Some expr) = Some bc"
    by blast
  then obtain n where n: "fe_ast expr = Some n" by (auto simp: filter_compile_def split: option.splits)
  obtain c where c: "compiled_form bc n c" using filter_compile_form [OF assms e(2) n e(3)] .
  have "build_filter mem s = Ok (Some (expr, bc\<lparr>bc_optimizations_applied := 0\<rparr>))"
    using e optimize_compiled_form [OF c] by (simp add: build_filter_def)
  moreover have "compiled_form (bc\<lparr>bc_optimizations_applied := 0\<rparr>) n c" using c by (simp add: compiled_form_def)
  ultimately show thesis using that(2) e n by blast
next
  case False
  then have "build_filter mem s = Ok None" by (auto simp: build_filter_def split: option.split)
  then show thesis using that(1) by blast
qed

lemma entry_create_ok:
  assumes "mem_ok mem"
  obtains "filter_entry_create mem now name s d = Ok None"
  | entry where "filter_entry_create mem now name s d = Ok (Some entry)" "entry_ok entry" "fen_name entry = name"
      "fen_expression entry = Some s" "fen_description entry = d" "fen_enabled entry"
proof (cases rule: build_filter_ok [OF assms, of s])
  case 1
  then show thesis using that(1) assms by (auto simp: filter_entry_create_def split: option.splits)
next
  case (2 expr bc n c)
  then have "\<exists>entry. filter_entry_create mem now name s d = Ok (Some entry) \<and> entry_ok entry \<and> fen_name entry = name \<and>
      fen_expression entry = Some s \<and> fen_description entry = d \<and> fen_enabled entry"
    using assms by (auto simp: filter_entry_create_def entry_ok_def split: option.splits)
  then show thesis using that(2) by blast
qed

lemma fm_inv_cong:
  "fm_filters mgr' = fm_filters mgr \<Longrightarrow> fm_filter_count mgr' = fm_filter_count mgr \<Longrightarrow> fm_inv mgr' = fm_inv mgr"
  by (simp add: fm_inv_def)

section \<open>The manager as a table of filters\<close>

lemma find_filter_None: "find_filter mgr name = None \<longleftrightarrow> name \<notin> fen_name ` set (fm_filters mgr)"
  by (simp add: find_filter_def find_by_None)

lemma fm_inv_insert:
  assumes "fm_inv mgr" "entry_ok entry" "find_filter mgr (fen_name entry) = None"
  shows "fm_inv (mgr\<lparr>fm_filters := entry # fm_filters mgr, fm_filter_count := fm_filter_count mgr + 1\<rparr>)"
  using assms by (simp add: fm_inv_def find_filter_None)

lemma fm_inv_delete:
  assumes "fm_inv mgr" "find_filter mgr name \<noteq> None"
  shows "fm_inv (mgr\<lparr>fm_filters := remove_by fen_name name (fm_filters mgr), fm_filter_count := fm_filter_count mgr - 1\<rparr>)"
proof -
  have "length (fm_filters mgr) = Suc (length (remove_by fen_name name (fm_filters mgr)))"
    using assms(2) by (intro length_remove_by) (simp add: find_filter_None)
  then show ?thesis
    using assms(1) set_remove_by [of fen_name name "fm_filters mgr"] by (auto simp: fm_inv_def distinct_remove_by)
qed

lemma change_entry_inv:
  assumes "fm_inv mgr" "\<And>entry. fen_name (f entry) = fen_name entry" "\<And>entry. entry_ok entry \<Longrightarrow> entry_ok (f entry)"
  shows "fm_inv (change_entry name f mgr)"
  using assms by (auto simp: fm_inv_def change_entry_def map_update_by dest!: set_update_by)

lemma find_change_entry:
  assumes "\<And>entry. fen_name (f entry) = fen_name entry"
  shows "find_filter (change_entry name f mgr) k =
    (if k = name then map_option f (find_filter mgr name) else find_filter mgr k)"
  using assms by (simp add: find_filter_def change_entry_def find_update_by)

lemma filter_manager_add_ok:
  assumes "mem_ok mem" "fm_inv mgr"
  obtains ok mgr' file' where "filter_manager_add mem now writable (mgr, file) (Some name) (Some s) d = Ok (ok, mgr', file')"
    "fm_inv mgr'" "map_add_entry (\<lambda>k (s, d). result_of None (filter_entry_create mem now k s d)) (find_filter mgr) name (s, d) =
      (ok, find_filter mgr')" "ok \<Longrightarrow> file' = saved_file writable (mgr', file)"
    "fm_storage_path mgr' = fm_storage_path mgr" "fm_auto_save mgr' = fm_auto_save mgr" "fm_eval_ctx mgr' = fm_eval_ctx mgr"
    "ok \<Longrightarrow> \<exists>entry. fm_filters mgr' = entry # fm_filters mgr \<and> filter_entry_create mem now name s d = Ok (Some entry)"
proof (cases "find_filter mgr name")
  case (Some e)
  then show thesis using that [of False mgr "file"] assms(2) by (simp add: filter_manager_add_def map_add_entry_def)
next
  case None
  show thesis
  proof (cases rule: entry_create_ok [OF assms(1), of now name s d])
    case 1
    then show thesis
      using that [of False mgr "file"] assms(2) None by (simp add: filter_manager_add_def map_add_entry_def)
  next
    case (2 entry)
    let ?mgr = "mgr\<lparr>fm_filters := entry # fm_filters mgr, fm_filter_count := fm_filter_count mgr + 1\<rparr>"
    have inv: "fm_inv ?mgr" using fm_inv_insert [OF assms(2) 2(2)] 2(3) None by simp
    have "find_filter ?mgr = (find_filter mgr)(name \<mapsto> entry)"
      using 2(3) by (auto simp: find_filter_def fun_eq_iff)
    then show thesis
      using that [of True ?mgr "saved_file writable (?mgr, file)"] inv auto_save_inv [OF inv] 2 None
      by (simp add: filter_manager_add_def map_add_entry_def)
  qed
qed

lemma filter_manager_remove_ok:
  assumes "fm_inv mgr"
  obtains ok mgr' file' where "filter_manager_remove writable (mgr, file) (Some name) = Ok (ok, mgr', file')"
    "fm_inv mgr'" "map_remove_entry (find_filter mgr) name = (ok, find_filter mgr')"
proof (cases "find_filter mgr name")
  case None
  then have "(find_filter mgr)(name := None) = find_filter mgr" by auto
  then show thesis using that [of False mgr "file"] assms None by (simp add: filter_manager_remove_def map_remove_entry_def)
next
  case (Some e)
  let ?mgr = "mgr\<lparr>fm_filters := remove_by fen_name name (fm_filters mgr), fm_filter_count := fm_filter_count mgr - 1\<rparr>"
  have inv: "fm_inv ?mgr" using fm_inv_delete [OF assms] Some by simp
  have "find_filter ?mgr = (find_filter mgr)(name := None)"
    using assms by (auto simp: find_filter_def fun_eq_iff find_remove_by fm_inv_def)
  then show thesis
    using that [of True ?mgr] inv auto_save_inv [OF inv] Some by (simp add: filter_manager_remove_def map_remove_entry_def)
qed

interpretation fm: named_table "\<lambda>st. fm_inv (fst st)" "\<lambda>st. find_filter (fst st)"
  "\<lambda>st k (s, d). result_of (False, st) (filter_manager_add (\<lambda>_. True) now writable st (Some k) (Some s) d)"
  "\<lambda>st k. result_of (False, st) (filter_manager_remove writable st (Some k))"
  "\<lambda>k (s, d). result_of None (filter_entry_create (\<lambda>_. True) now k s d)" for now writable
proof
  fix st :: "'a fm_state" and k :: string and a :: "string \<times> string option" and ok st'
  assume inv: "fm_inv (fst st)"
    and r: "(case a of (s, d) \<Rightarrow> result_of (False, st) (filter_manager_add (\<lambda>_. True) now writable st (Some k) (Some s) d)) = (ok, st')"
  show "fm_inv (fst st') \<and> map_add_entry (\<lambda>k (s, d). result_of None (filter_entry_create (\<lambda>_. True) now k s d))
      (find_filter (fst st)) k a = (ok, find_filter (fst st'))"
    by (rule filter_manager_add_ok [OF mem_ok_True inv, of now writable "snd st" k "fst a" "snd a"])
      (use r in \<open>auto simp: case_prod_beta\<close>)
next
  fix st :: "'a fm_state" and k ok st'
  assume inv: "fm_inv (fst st)" and r: "result_of (False, st) (filter_manager_remove writable st (Some k)) = (ok, st')"
  show "fm_inv (fst st') \<and> map_remove_entry (find_filter (fst st)) k = (ok, find_filter (fst st'))"
    by (rule filter_manager_remove_ok [OF inv, of writable "snd st" k]) (use r in auto)
qed

text \<open>A client that adds and removes filters, with the results of its calls.\<close>

fun fm_run ::
  "i64 \<Rightarrow> bool \<Rightarrow> (string, string \<times> string option) table_op list \<Rightarrow> 'r fm_state \<Rightarrow> (bool list \<times> 'r fm_state) outcome" where
  "fm_run now writable [] st = Ok ([], st)"
| "fm_run now writable (Add k (s, d) # ops) st =
     bind_outcome (filter_manager_add (\<lambda>_. True) now writable st (Some k) (Some s) d) (\<lambda>(ok, st).
       bind_outcome (fm_run now writable ops st) (\<lambda>(oks, st). Ok (ok # oks, st)))"
| "fm_run now writable (Remove k # ops) st =
     bind_outcome (filter_manager_remove writable st (Some k)) (\<lambda>(ok, st).
       bind_outcome (fm_run now writable ops st) (\<lambda>(oks, st). Ok (ok # oks, st)))"

lemma fm_run_table:
  assumes "fm_inv (fst st)"
  shows "fm_run now writable ops st = Ok (table_run
    (\<lambda>st k (s, d). result_of (False, st) (filter_manager_add (\<lambda>_. True) now writable st (Some k) (Some s) d))
    (\<lambda>st k. result_of (False, st) (filter_manager_remove writable st (Some k))) ops st)"
  using assms
proof (induction now writable ops st rule: fm_run.induct)
  case (2 now writable k s d ops st)
  obtain ok mgr' file' where r: "filter_manager_add (\<lambda>_. True) now writable (fst st, snd st) (Some k) (Some s) d =
      Ok (ok, mgr', file')" "fm_inv mgr'"
    by (rule filter_manager_add_ok [OF mem_ok_True 2(2)])
  then show ?case using 2(1) [of "(mgr', file')"] by (simp split: prod.split)
next
  case (3 now writable k ops st)
  obtain ok mgr' file' where r: "filter_manager_remove writable (fst st, snd st) (Some k) = Ok (ok, mgr', file')" "fm_inv mgr'"
    by (rule filter_manager_remove_ok [OF 3(2)])
  then show ?case using 3(1) [of "(mgr', file')"] by (simp split: prod.split)
qed simp

lemma create_inv:
  "filter_manager_create mem path = Some mgr \<Longrightarrow> fm_inv mgr \<and> find_filter mgr = Map.empty \<and> cache_ok rc (fm_eval_ctx mgr)"
  by (auto simp: filter_manager_create_def fm_inv_def find_filter_def fun_eq_iff filter_eval_context_create_def
      cache_ok_def split: if_splits)

text \<open>C14. Whatever filters a client adds and removes, the manager behaves like a finite map from names to
  compiled filters: every call returns, without undefined behaviour, what the same call on the map
  returns (an addition is refused when the name is taken or the expression is not a filter, a removal
  when the name is not there), and a search by name finds what the map holds.\<close>

theorem filter_manager_table:
  assumes "filter_manager_create mem path = Some mgr"
  shows "\<exists>oks st. fm_run now writable ops (mgr, file) = Ok (oks, st) \<and>
    table_run (map_add_entry (\<lambda>k (s, d). result_of None (filter_entry_create (\<lambda>_. True) now k s d))) map_remove_entry
      ops Map.empty = (oks, find_filter (fst st))"
proof -
  have inv: "fm_inv (fst (mgr, file))" "find_filter (fst (mgr, file)) = Map.empty" using create_inv [OF assms] by simp_all
  obtain oks st where r: "table_run
      (\<lambda>st k (s, d). result_of (False, st) (filter_manager_add (\<lambda>_. True) now writable st (Some k) (Some s) d))
      (\<lambda>st k. result_of (False, st) (filter_manager_remove writable st (Some k))) ops (mgr, file) = (oks, st)"
    by (rule prod.exhaust)
  show ?thesis
    using fm.table_run_refines [OF inv(1) r] fm_run_table [OF inv(1), of now writable ops] r inv(2) by auto
qed

theorem filter_manager_table_witness:
  "\<exists>mgr :: string filter_manager. filter_manager_create (\<lambda>_. True) None = Some mgr \<and>
     (\<exists>st. fm_run 0 True [Add ''a'' (''interface'', None), Add ''a'' (''mtu'', None), Remove ''a'', Add ''b'' (''('', None)]
        (mgr, None) = Ok ([True, False, True, False], st))"
proof -
  have make: "result_of None (filter_entry_create (\<lambda>_. True) 0 ''a'' ''interface'' None) \<noteq> None"
    "result_of None (filter_entry_create (\<lambda>_. True) 0 ''b'' ''('' None) = None"
    by code_simp+
  obtain mgr :: "string filter_manager" where m: "filter_manager_create (\<lambda>_. True) None = Some mgr"
    by (simp add: filter_manager_create_def filter_eval_context_create_def)
  show ?thesis
    using filter_manager_table [OF m, of 0 True "[Add ''a'' (''interface'', None), Add ''a'' (''mtu'', None), Remove ''a'',
        Add ''b'' (''('', None)]" None] make m
    by (auto simp: map_add_entry_def map_remove_entry_def split: option.splits)
qed

section \<open>Evaluating every filter\<close>

definition entry_tree :: "filter_entry \<Rightarrow> filter_node" where
  "entry_tree entry = the (fe_ast (fen_parsed entry))"

definition entry_matches :: "(string \<Rightarrow> 'r option) \<Rightarrow> ('r \<Rightarrow> string \<Rightarrow> bool) \<Rightarrow> nlmon_event \<Rightarrow> filter_entry \<Rightarrow> bool" where
  "entry_matches rc re ev entry \<longleftrightarrow> filter_matches rc re ev (entry_tree entry) = Ok True"

text \<open>The interpreter can run the entry on the event: its code is short enough and reads no foreign payload.\<close>

definition entry_runs :: "nat \<Rightarrow> (string \<Rightarrow> 'r option) \<Rightarrow> ('r \<Rightarrow> string \<Rightarrow> bool) \<Rightarrow> nlmon_event \<Rightarrow> filter_entry \<Rightarrow> bool" where
  "entry_runs fuel rc re ev entry \<longleftrightarrow> instruction_count (fen_compiled entry) < 2 ^ 31 \<and>
     instruction_count (fen_compiled entry) \<le> fuel \<and> filter_matches rc re ev (entry_tree entry) \<noteq> UB"

definition count_entry ::
  "(string \<Rightarrow> 'r option) \<Rightarrow> ('r \<Rightarrow> string \<Rightarrow> bool) \<Rightarrow> (string \<Rightarrow> (i64 \<times> i64) \<times> (i64 \<times> i64)) \<Rightarrow> nlmon_event \<Rightarrow>
     filter_entry \<Rightarrow> filter_entry \<Rightarrow> filter_entry" where
  "count_entry rc re clock ev entry = count_eval (entry_matches rc re ev entry)
     (elapsed_time (fst (clock (fen_name entry))) (snd (clock (fen_name entry))))"

definition counted ::
  "(string \<Rightarrow> 'r option) \<Rightarrow> ('r \<Rightarrow> string \<Rightarrow> bool) \<Rightarrow> (string \<Rightarrow> (i64 \<times> i64) \<times> (i64 \<times> i64)) \<Rightarrow> nlmon_event \<Rightarrow>
     filter_entry \<Rightarrow> filter_entry" where
  "counted rc re clock ev entry = (if fen_enabled entry then count_entry rc re clock ev entry entry else entry)"

lemma count_eval_frame [simp]:
  "fen_name (count_eval b t entry) = fen_name entry" "entry_ok (count_eval b t entry) = entry_ok entry"
  "fen_name (count_entry rc re clock ev e entry) = fen_name entry"
  "entry_ok (count_entry rc re clock ev e entry) = entry_ok entry"
  by (simp_all add: count_eval_def entry_ok_def count_entry_def)

lemma manager_eval_ok:
  assumes "fm_inv mgr" "cache_ok rc (fm_eval_ctx mgr)" "find_filter mgr (fen_name entry) = Some entry" "fen_enabled entry"
    and "entry_runs fuel rc re ev entry"
  obtains ctx' where "filter_manager_eval fuel (\<lambda>_. True) rc re (clock (fen_name entry)) mgr (Some (fen_name entry)) (Some ev) =
      Some (Ok (entry_matches rc re ev entry,
        (change_entry (fen_name entry) (count_entry rc re clock ev entry) mgr)\<lparr>fm_eval_ctx := ctx'\<rparr>))"
    "cache_ok rc ctx'"
proof -
  have "entry_ok entry" using assms(1,3) find_by_key by (fastforce simp: fm_inv_def find_filter_def)
  then obtain c where c: "compiled_form (fen_compiled entry) (entry_tree entry) c"
    by (auto simp: entry_ok_def entry_tree_def)
  obtain b where b: "filter_matches rc re ev (entry_tree entry) = Ok b"
    using assms(5) by (cases "filter_matches rc re ev (entry_tree entry)")
      (auto simp: entry_runs_def filter_matches_def split: outcome.splits)
  then have b': "b = entry_matches rc re ev entry" by (simp add: entry_matches_def)
  obtain ctx1 where ctx1: "cache_ok rc ctx1" "filter_eval fuel (\<lambda>_. True) rc re (Some (fen_compiled entry)) (Some ev)
      (Some (fm_eval_ctx mgr)) = Some (Ok (b, Some ctx1))"
    using filter_eval_compiled [OF mem_ok_True c _ _ assms(2), of fuel re ev] assms(5) b by (auto simp: entry_runs_def)
  let ?t = "elapsed_time (fst (clock (fen_name entry))) (snd (clock (fen_name entry)))"
  show thesis
    using that [of "update_eval_stats ?t ctx1"] ctx1 assms(3,4) b'
    by (simp add: filter_manager_eval_def filter_eval_with_profiling_def Let_def cache_ok_def update_eval_stats_def
        count_entry_def)
qed

lemma eval_entries_ok:
  assumes "fm_inv mgr" "cache_ok rc (fm_eval_ctx mgr)" "distinct (map fen_name es)"
    and "\<forall>entry \<in> set es. find_filter mgr (fen_name entry) = Some entry \<and> (fen_enabled entry \<longrightarrow> entry_runs fuel rc re ev entry)"
  shows "\<exists>mgr'. eval_entries fuel (\<lambda>_. True) rc re clock ev es mgr =
      Some (Ok (map fen_name (filter (\<lambda>e. fen_enabled e \<and> entry_matches rc re ev e) es), mgr')) \<and>
    fm_inv mgr' \<and> cache_ok rc (fm_eval_ctx mgr') \<and>
    (\<forall>k. find_filter mgr' k = (if k \<in> fen_name ` set es then map_option (counted rc re clock ev) (find_filter mgr k)
       else find_filter mgr k))"
  using assms
proof (induction es arbitrary: mgr)
  case (Cons entry es)
  show ?case
  proof (cases "fen_enabled entry")
    case False
    then show ?thesis using Cons.IH [OF Cons.prems(1,2)] Cons.prems(3,4) by (auto simp: counted_def)
  next
    case True
    obtain ctx' where e: "filter_manager_eval fuel (\<lambda>_. True) rc re (clock (fen_name entry)) mgr (Some (fen_name entry)) (Some ev) =
        Some (Ok (entry_matches rc re ev entry,
          (change_entry (fen_name entry) (count_entry rc re clock ev entry) mgr)\<lparr>fm_eval_ctx := ctx'\<rparr>))"
      "cache_ok rc ctx'"
      using manager_eval_ok [OF Cons.prems(1,2) _ True] Cons.prems(4) True by (metis list.set_intros(1))
    let ?m = "(change_entry (fen_name entry) (count_entry rc re clock ev entry) mgr)\<lparr>fm_eval_ctx := ctx'\<rparr>"
    have find: "find_filter ?m k = (if k = fen_name entry then map_option (counted rc re clock ev) (find_filter mgr k)
        else find_filter mgr k)" for k
      using find_change_entry [of "count_entry rc re clock ev entry" "fen_name entry" mgr k] Cons.prems(4) True
      by (simp add: find_filter_def counted_def)
    have inv: "fm_inv ?m"
      using change_entry_inv [OF Cons.prems(1), of "count_entry rc re clock ev entry" "fen_name entry"]
        fm_inv_cong [of ?m "change_entry (fen_name entry) (count_entry rc re clock ev entry) mgr"] by simp
    have rest: "\<forall>e \<in> set es. find_filter ?m (fen_name e) = Some e \<and> (fen_enabled e \<longrightarrow> entry_runs fuel rc re ev e)"
      using Cons.prems(3,4) find by (auto simp: image_iff)
    obtain mgr' where m: "eval_entries fuel (\<lambda>_. True) rc re clock ev es ?m =
        Some (Ok (map fen_name (filter (\<lambda>e. fen_enabled e \<and> entry_matches rc re ev e) es), mgr'))"
      "fm_inv mgr'" "cache_ok rc (fm_eval_ctx mgr')"
      "\<And>k. find_filter mgr' k = (if k \<in> fen_name ` set es then map_option (counted rc re clock ev) (find_filter ?m k)
         else find_filter ?m k)"
      using Cons.IH [OF inv _ _ rest] Cons.prems(3) e(2) by auto
    have "find_filter mgr' k = (if k \<in> fen_name ` set (entry # es) then map_option (counted rc re clock ev) (find_filter mgr k)
         else find_filter mgr k)" for k
      using m(4) [of k] find [of k] Cons.prems(3) by (auto split: if_splits)
    then show ?thesis using m(1-3) e(1) True by auto
  qed
qed simp

text \<open>C13. Evaluating an event against all filters gives the right answer: the count and the names (as many
  as fit) of exactly the enabled filters whose tree matches the event, in list order. Every enabled
  filter has one more evaluation, the time between its two clock readings and, if it matched, one more match on its
  account (all modulo \<open>2^64\<close>) and is otherwise unchanged; the disabled ones are untouched; the invariant and the regex cache
  stay sound. This is for filters that the interpreter can run on the event: every enabled one reads no payload of
  another kind than the event's, has fewer than \<open>2^31\<close> instructions, and no allocation fails.\<close>

theorem filter_manager_eval_all_correct:
  assumes "fm_inv mgr" "cache_ok rc (fm_eval_ctx mgr)"
    and "\<forall>entry \<in> set (fm_filters mgr). fen_enabled entry \<longrightarrow> entry_runs fuel rc re ev entry"
  shows "\<exists>mgr' names. names = map fen_name (filter (\<lambda>e. fen_enabled e \<and> entry_matches rc re ev e) (fm_filters mgr)) \<and>
    filter_manager_eval_all fuel (\<lambda>_. True) rc re clock mgr (Some ev) (Some n) = Some (Ok (length names, take n names, mgr')) \<and>
    fm_inv mgr' \<and> cache_ok rc (fm_eval_ctx mgr') \<and>
    (\<forall>k. find_filter mgr' k = (case find_filter mgr k of
       None \<Rightarrow> None
     | Some entry \<Rightarrow> Some (if fen_enabled entry
         then entry\<lparr>fen_eval_count := fen_eval_count entry + 1,
           fen_match_count := fen_match_count entry + (if entry_matches rc re ev entry then 1 else 0),
           fen_total_time_ns := fen_total_time_ns entry + of_int (clock_ns (snd (clock k)) - clock_ns (fst (clock k)))\<rparr>
         else entry)))"
proof -
  have d: "distinct (map fen_name (fm_filters mgr))" using assms(1) by (simp add: fm_inv_def)
  then have "\<forall>entry \<in> set (fm_filters mgr). find_filter mgr (fen_name entry) = Some entry \<and>
      (fen_enabled entry \<longrightarrow> entry_runs fuel rc re ev entry)"
    using assms(3) by (simp add: find_filter_def find_by_member)
  then obtain mgr' where m: "eval_entries fuel (\<lambda>_. True) rc re clock ev (fm_filters mgr) mgr =
      Some (Ok (map fen_name (filter (\<lambda>e. fen_enabled e \<and> entry_matches rc re ev e) (fm_filters mgr)), mgr'))"
    "fm_inv mgr'" "cache_ok rc (fm_eval_ctx mgr')"
    "\<And>k. find_filter mgr' k = (if k \<in> fen_name ` set (fm_filters mgr)
       then map_option (counted rc re clock ev) (find_filter mgr k) else find_filter mgr k)"
    using eval_entries_ok [OF assms(1,2) d] by blast
  have "find_filter mgr' k = map_option (counted rc re clock ev) (find_filter mgr k)" for k
    using m(4) [of k] find_filter_None [of mgr k] by auto
  moreover have "fen_name entry = k" if "find_filter mgr k = Some entry" for k entry
    using that find_by_key by (fastforce simp: find_filter_def)
  ultimately have "find_filter mgr' k = (case find_filter mgr k of
       None \<Rightarrow> None
     | Some entry \<Rightarrow> Some (if fen_enabled entry
         then entry\<lparr>fen_eval_count := fen_eval_count entry + 1,
           fen_match_count := fen_match_count entry + (if entry_matches rc re ev entry then 1 else 0),
           fen_total_time_ns := fen_total_time_ns entry + of_int (clock_ns (snd (clock k)) - clock_ns (fst (clock k)))\<rparr>
         else entry))" for k
    by (cases "find_filter mgr k") (auto simp: counted_def count_entry_def count_eval_def elapsed_time_ns)
  then show ?thesis using m(1-3) by (auto simp: filter_manager_eval_all_def)
qed

text \<open>A manager with one filter for the witness.\<close>

definition sample_text :: string where
  "sample_text = ''NOT sequence''"

definition sample_filter :: "filter_expr \<times> filter_bytecode" where
  "sample_filter =
     (\<lparr>fe_expression = sample_text, fe_ast = Some (FILTER_NODE_NOT (FILTER_NODE_FIELD (FILTER_FIELD SEQUENCE))),
        fe_error = no_parse_error, fe_valid = True\<rparr>,
      \<lparr>bc_instructions = [OP_PUSH_FIELD (field_code (FILTER_FIELD SEQUENCE)), OP_NOT, OP_RETURN],
        bc_instruction_capacity = 64, bc_strings = [], bc_string_capacity = 16,
        bc_original_instruction_count = 3, bc_optimizations_applied = 0\<rparr>)"

lemma sample_built: "build_filter (\<lambda>_. True) sample_text = Ok (Some sample_filter)"
  by code_simp

definition sample_entry :: filter_entry where
  "sample_entry = \<lparr>fen_name = ''a'', fen_description = None, fen_expression = Some sample_text,
     fen_parsed = fst sample_filter, fen_compiled = snd sample_filter, fen_eval_count = 0, fen_match_count = 0,
     fen_total_time_ns = 0, fen_created = 0, fen_modified = 0, fen_enabled = True\<rparr>"

definition sample_manager :: "string filter_manager" where
  "sample_manager = \<lparr>fm_filters = [sample_entry], fm_filter_count = 1, fm_eval_ctx = sample_context,
     fm_storage_path = None, fm_auto_save = True\<rparr>"

lemma sample_entry_ok: "entry_ok sample_entry"
proof (cases rule: build_filter_ok [OF mem_ok_True, of sample_text])
  case 1
  then show ?thesis using sample_built by simp
next
  case (2 expr bc n c)
  have e: "(expr, bc) = sample_filter" using sample_built 2(1) by simp
  have "fst sample_filter = expr" "snd sample_filter = bc" unfolding e [symmetric] by simp_all
  then show ?thesis
    unfolding entry_ok_def sample_entry_def using 2(2-5)
    by (intro exI [of _ sample_text] exI [of _ n] exI [of _ c]) (simp only: filter_entry.simps)
qed

theorem filter_manager_eval_all_correct_witness:
  "\<exists>mgr'. filter_manager_eval_all 9 (\<lambda>_. True) Some prefix_match (\<lambda>_. ((0, 0), (0, 5))) sample_manager (Some sample_event)
     (Some 4) = Some (Ok (1, [''a''], mgr'))"
proof -
  have "filter_matches Some prefix_match sample_event (FILTER_NODE_NOT (FILTER_NODE_FIELD (FILTER_FIELD SEQUENCE))) = Ok True"
    by code_simp
  then have f: "entry_matches Some prefix_match sample_event sample_entry" "entry_runs 9 Some prefix_match sample_event sample_entry"
    by (simp_all add: entry_runs_def entry_matches_def entry_tree_def sample_entry_def sample_filter_def)
  have "fm_inv sample_manager" "cache_ok Some (fm_eval_ctx sample_manager)"
    using sample_entry_ok sample_cache by (simp_all add: sample_manager_def fm_inv_def)
  then show ?thesis
    using filter_manager_eval_all_correct [of sample_manager Some 9 prefix_match sample_event "\<lambda>_. ((0, 0), (0, 5))" 4] f
    by (simp add: sample_manager_def sample_entry_def) blast
qed

section \<open>Saving and loading\<close>

text \<open>Texts that survive the file format: not empty, without field separator, newline and NUL.\<close>

definition plain_field :: "string \<Rightarrow> bool" where
  "plain_field s \<longleftrightarrow> s \<noteq> [] \<and> CHR ''|'' \<notin> set s \<and> CHR 0x0A \<notin> set s \<and> NUL \<notin> set s"

definition storable :: "filter_entry \<Rightarrow> bool" where
  "storable entry \<longleftrightarrow> plain_field (fen_name entry) \<and> hd (fen_name entry) \<noteq> CHR ''#'' \<and>
     (\<exists>s. fen_expression entry = Some s \<and> plain_field s) \<and> (\<exists>d. fen_description entry = Some d \<and> plain_field d) \<and>
     length (line_of entry) \<le> 1023"

text \<open>What the file keeps of an entry, and the tree it stands for.\<close>

definition stored_view :: "filter_entry \<Rightarrow> string \<times> string option \<times> string option \<times> bool \<times> filter_expr" where
  "stored_view entry = (fen_name entry, fen_expression entry, fen_description entry, fen_enabled entry, fen_parsed entry)"

lemma split_at_sep:
  "c \<notin> set s \<Longrightarrow> takeWhile (\<lambda>x. x \<noteq> c) (s @ c # r) = s" "c \<notin> set s \<Longrightarrow> dropWhile (\<lambda>x. x \<noteq> c) (s @ c # r) = c # r"
  "c \<notin> set s \<Longrightarrow> takeWhile (\<lambda>x. x \<noteq> c) s = s" "c \<notin> set s \<Longrightarrow> dropWhile (\<lambda>x. x \<noteq> c) s = []"
  by (induction s) auto

lemma strtok_field: "plain_field s \<Longrightarrow> strtok (s @ CHR ''|'' # rest) = (Some s, rest)"
proof -
  assume p: "plain_field s"
  then obtain c cs where s: "s = c # cs" by (cases s) (auto simp: plain_field_def)
  have "takeWhile (\<lambda>c. c \<noteq> CHR ''|'') (s @ CHR ''|'' # rest) = s" "dropWhile (\<lambda>c. c \<noteq> CHR ''|'') (s @ CHR ''|'' # rest) = CHR ''|'' # rest"
    using p by (simp_all add: plain_field_def split_at_sep)
  moreover have "dropWhile (\<lambda>c. c = CHR ''|'') (s @ CHR ''|'' # rest) = s @ CHR ''|'' # rest"
    using p s by (auto simp: plain_field_def)
  ultimately show ?thesis using s by (simp add: strtok_def Let_def)
qed

lemma strtok_last:
  assumes "plain_field s"
  shows "strtok s = (Some s, [])"
proof -
  obtain c cs where s: "s = c # cs" using assms by (cases s) (auto simp: plain_field_def)
  have "c \<noteq> CHR ''|''" "CHR ''|'' \<notin> set s" using assms s by (auto simp: plain_field_def)
  then show ?thesis using s by (simp add: strtok_def Let_def split_at_sep)
qed

lemma line_parts:
  assumes "storable entry" "fen_expression entry = Some s" "fen_description entry = Some d"
  shows "line_of entry = (fen_name entry @ CHR ''|'' # s @ CHR ''|'' # d @ CHR ''|'' # (if fen_enabled entry then ''1'' else ''0'')) @ [CHR 0x0A]"
  using assms by (simp add: line_of_def save_line_def)

lemma parse_saved_line:
  assumes "storable entry"
  shows "parse_line (line_of entry) =
    Some (fen_name entry, the (fen_expression entry), fen_description entry, fen_enabled entry)"
proof -
  obtain s d where s: "fen_expression entry = Some s" "plain_field s" and d: "fen_description entry = Some d" "plain_field d"
    using assms by (auto simp: storable_def)
  have n: "plain_field (fen_name entry)" "hd (fen_name entry) \<noteq> CHR ''#''" using assms by (auto simp: storable_def)
  let ?flag = "if fen_enabled entry then ''1'' else ''0''"
  let ?body = "fen_name entry @ CHR ''|'' # s @ CHR ''|'' # d @ CHR ''|'' # ?flag"
  have flag: "plain_field ?flag" "(atoi ?flag \<noteq> 0) = fen_enabled entry"
    by (auto simp: plain_field_def atoi_def isspace_def c_code_def isdigit_def digit_val_def LLONG_MAX_def Let_def)
  have nul: "NUL \<notin> set (?body @ [CHR 0x0A])" "CHR 0x0A \<notin> set ?body"
    using n(1) s(2) d(2) flag(1) by (auto simp: plain_field_def)
  have "takeWhile (\<lambda>c. c \<noteq> CHR 0x0A) (takeWhile (\<lambda>c. c \<noteq> NUL) (?body @ [CHR 0x0A])) = ?body"
    using split_at_sep(3) [OF nul(1)] split_at_sep(1) [OF nul(2), of "[]"] by simp
  moreover have "c_at (?body @ [CHR 0x0A]) 0 = hd (fen_name entry)" "hd (fen_name entry) \<noteq> CHR 0x0A"
    using n(1) by (cases "fen_name entry"; auto simp: c_at_def plain_field_def)+
  ultimately show ?thesis
    using n s d flag strtok_field strtok_last
    by (simp add: line_parts [OF assms s(1) d(1)] parse_line_def Let_def)
qed

text \<open>Reading lines: out of the buffer, through a refill, and at the end.\<close>

lemma fgets_buffer:
  assumes "CHR 0x0A \<notin> set l" "length l < n" "sm_buffer s = l @ CHR 0x0A # rest"
  shows "fgets b content n s = (l @ [CHR 0x0A], s\<lparr>sm_buffer := rest\<rparr>)"
  using assms
proof (induction l arbitrary: n s)
  case Nil
  then show ?case by (cases n) (auto simp: fgets.simps fgetc_def)
next
  case (Cons c l)
  then obtain m where n: "n = Suc m" by (cases n) auto
  have "fgets b content m (s\<lparr>sm_buffer := l @ CHR 0x0A # rest\<rparr>) = (l @ [CHR 0x0A], s\<lparr>sm_buffer := rest\<rparr>)"
    using Cons.IH [of m "s\<lparr>sm_buffer := l @ CHR 0x0A # rest\<rparr>"] Cons.prems n by simp
  then show ?case using Cons.prems n by (auto simp: fgets.simps fgetc_def)
qed

lemma fgets_refill:
  assumes "sm_buffer s = []" "\<not> sm_eof s" "take b (drop (sm_offset s) content) = block" "block \<noteq> []"
  shows "fgets b content (Suc n) s = fgets b content (Suc n) (s\<lparr>sm_buffer := block, sm_offset := sm_offset s + length block\<rparr>)"
  using assms by (cases s; cases block) (simp_all add: fgets.simps fgetc_def)

text \<open>When the file has nothing more at the position of the stream, the line is what is left in the buffer.\<close>

lemma fgets_end:
  assumes "CHR 0x0A \<notin> set (sm_buffer s)" "length (sm_buffer s) < n" "sm_eof s \<or> length content \<le> sm_offset s"
  shows "\<exists>s'. fgets b content n s = (sm_buffer s, s') \<and> sm_buffer s' = [] \<and> sm_eof s'"
  using assms
proof (induction "sm_buffer s" arbitrary: n s)
  case Nil
  then obtain m where "n = Suc m" by (cases n) auto
  then show ?case using Nil by (auto simp: fgets.simps fgetc_def)
next
  case (Cons c l)
  then obtain m where n: "n = Suc m" by (cases n) auto
  have buf: "sm_buffer s = c # l" using Cons.hyps(2) by simp
  have "\<exists>s'. fgets b content m (s\<lparr>sm_buffer := l\<rparr>) = (l, s') \<and> sm_buffer s' = [] \<and> sm_eof s'"
    using Cons.hyps(1) [of "s\<lparr>sm_buffer := l\<rparr>" m] Cons.prems n buf by simp
  moreover have "c \<noteq> CHR 0x0A" using Cons.prems(1) buf by auto
  ultimately show ?case using n buf by (auto simp: fgets.simps fgetc_def)
qed

lemma storable_line:
  assumes "storable entry"
  obtains l where "line_of entry = l @ [CHR 0x0A]" "CHR 0x0A \<notin> set l" "length l < 1023"
proof -
  obtain s d where s: "fen_expression entry = Some s" "plain_field s" and d: "fen_description entry = Some d" "plain_field d"
    using assms by (auto simp: storable_def)
  have "plain_field (fen_name entry)" "length (line_of entry) \<le> 1023" using assms by (auto simp: storable_def)
  then show thesis using that line_parts [OF assms s(1) d(1)] s(2) d(2) by (auto simp: plain_field_def)
qed

lemma code_compilable:
  "code_for S n c \<Longrightarrow> compilable n" "code_items S ns c \<Longrightarrow> list_all compilable ns"
  by (induction rule: code_for_code_items.inducts) (auto simp: binary_opcode_def)

text \<open>An expression that was compiled once compiles again.\<close>

lemma recreate_entry:
  assumes "entry_ok entry" "fen_expression entry = Some s"
  obtains e where "filter_entry_create (\<lambda>_. True) now name s d = Ok (Some e)" "fen_parsed e = fen_parsed entry"
proof -
  obtain n c where n: "filter_parse (Some s) = Some (fen_parsed entry)" "fe_valid (fen_parsed entry)"
    "fe_ast (fen_parsed entry) = Some n" "compiled_form (fen_compiled entry) n c"
    using assms by (auto simp: entry_ok_def)
  obtain bc c' where bc: "filter_compile (\<lambda>_. True) (Some (fen_parsed entry)) = Some bc" "compiled_form bc n c'"
    using filter_compile_code [OF mem_ok_True n(2,3)] code_compilable(1) n(4) unfolding compiled_form_def by metis
  have "build_filter (\<lambda>_. True) s = Ok (Some (fen_parsed entry, bc\<lparr>bc_optimizations_applied := 0\<rparr>))"
    using bc n(1,2) optimize_compiled_form [OF bc(2)] by (simp add: build_filter_def)
  then have "\<exists>e. filter_entry_create (\<lambda>_. True) now name s d = Ok (Some e) \<and> fen_parsed e = fen_parsed entry"
    by (cases d) (simp_all add: filter_entry_create_def)
  then show thesis using that by blast
qed

lemma saved_file_again:
  "fm_storage_path a = fm_storage_path b \<Longrightarrow> fm_auto_save a = fm_auto_save b \<Longrightarrow>
     saved_file writable (a, saved_file writable (b, file)) = saved_file writable (a, file)"
  by (auto simp: saved_file_def)

lemma saved_lines:
  assumes "map stored_view (fm_filters mgr) = rev (map stored_view es)"
  shows "length (saved_text mgr) = length (save_header @ concat (map line_of es))"
proof -
  define g where "g = (\<lambda>(name, e, d, flag, _ :: filter_expr). result_of [] (case e of None \<Rightarrow> UB
    | Some s \<Rightarrow> Ok (name @ ''|'' @ s @ ''|'' @ (case d of None \<Rightarrow> [] | Some d \<Rightarrow> d) @ ''|'' @ (if flag then ''1'' else ''0'') @ [CHR 0x0A])))"
  have line: "line_of = g \<circ> stored_view"
    by (rule ext) (simp add: line_of_def save_line_def g_def stored_view_def)
  have "map line_of (fm_filters mgr) = map g (rev (map stored_view es))" unfolding line using assms by (metis map_map)
  also have "\<dots> = rev (map line_of es)" unfolding line by (simp add: rev_map)
  finally show ?thesis by (simp add: saved_text_def length_concat rev_map [symmetric])
qed

lemma load_line_saved:
  assumes "fm_inv mgr" "storable entry" "entry_ok entry" "find_filter mgr (fen_name entry) = None"
  obtains mgr' where
    "load_line (\<lambda>_. True) now writable (line_of entry) (mgr, file) = Ok (1, mgr', saved_file writable (mgr', file))"
    "fm_inv mgr'" "map stored_view (fm_filters mgr') = stored_view entry # map stored_view (fm_filters mgr)"
    "fm_storage_path mgr' = fm_storage_path mgr" "fm_auto_save mgr' = fm_auto_save mgr"
proof -
  obtain s d where s: "fen_expression entry = Some s" "fen_description entry = Some d"
    using assms(2) by (auto simp: storable_def)
  obtain e where e: "filter_entry_create (\<lambda>_. True) now (fen_name entry) s (Some d) = Ok (Some e)" "fen_parsed e = fen_parsed entry"
    using recreate_entry [OF assms(3) s(1)] .
  have e': "entry_ok e" "fen_name e = fen_name entry" "fen_expression e = Some s" "fen_description e = Some d" "fen_enabled e"
    using e(1) by (cases rule: entry_create_ok [OF mem_ok_True, of now "fen_name entry" s "Some d"]; simp)+
  let ?m = "mgr\<lparr>fm_filters := e # fm_filters mgr, fm_filter_count := fm_filter_count mgr + 1\<rparr>"
  have inv: "fm_inv ?m" using fm_inv_insert [OF assms(1) e'(1)] e'(2) assms(4) by simp
  have add: "filter_manager_add (\<lambda>_. True) now writable (mgr, file) (Some (fen_name entry)) (Some s) (Some d) =
      Ok (True, ?m, saved_file writable (?m, file))"
    using assms(4) e(1) auto_save_inv [OF inv] by (simp add: filter_manager_add_def)
  have line: "parse_line (line_of entry) = Some (fen_name entry, s, Some d, fen_enabled entry)"
    using parse_saved_line [OF assms(2)] s by simp
  show thesis
  proof (cases "fen_enabled entry")
    case True
    then show thesis
      using that [OF _ inv] add line e e' s by (simp add: stored_view_def load_line_def)
  next
    case False
    let ?m' = "change_entry (fen_name entry) (\<lambda>x. x\<lparr>fen_enabled := False\<rparr>) ?m"
    have inv': "fm_inv ?m'" using inv by (rule change_entry_inv) (auto simp: entry_ok_def)
    have dis: "filter_manager_disable writable (?m, file') (Some (fen_name entry)) =
        Ok (True, ?m', saved_file writable (?m', file'))" for file'
      using auto_save_inv [OF inv'] e'(2) by (simp add: filter_manager_disable_def set_enabled_def find_filter_def)
    have "saved_file writable (?m', saved_file writable (?m, file)) = saved_file writable (?m', file)"
      by (rule saved_file_again) (simp_all add: change_entry_def)
    then have "load_line (\<lambda>_. True) now writable (line_of entry) (mgr, file) = Ok (1, ?m', saved_file writable (?m', file))"
      using add dis line False by (simp add: load_line_def)
    moreover have "map stored_view (fm_filters ?m') = stored_view entry # map stored_view (fm_filters mgr)"
      using e e' s False by (simp add: change_entry_def stored_view_def)
    ultimately show thesis using that [OF _ inv'] by (simp add: change_entry_def)
  qed
qed

text \<open>Any other line adds at most one filter in front.\<close>

lemma load_line_any:
  assumes "fm_inv mgr"
  obtains n mgr' file' xs where "load_line (\<lambda>_. True) now writable line (mgr, file) = Ok (n, mgr', file')" "n = length xs" "n \<le> 1"
    "fm_inv mgr'" "map stored_view (fm_filters mgr') = xs @ map stored_view (fm_filters mgr)"
proof (cases "parse_line line")
  case None
  then show thesis using that [of 0 mgr "file" "[]"] assms by (simp add: load_line_def)
next
  case (Some p)
  obtain name s d flag where p: "p = (name, s, d, flag)" by (cases p)
  obtain ok m1 f1 where add: "filter_manager_add (\<lambda>_. True) now writable (mgr, file) (Some name) (Some s) d = Ok (ok, m1, f1)"
    "fm_inv m1" "\<And>P. ok \<Longrightarrow> (\<And>e. fm_filters m1 = e # fm_filters mgr \<Longrightarrow> fen_name e = name \<Longrightarrow> P) \<Longrightarrow> P"
    "\<not> ok \<Longrightarrow> m1 = mgr \<and> f1 = file"
  proof (cases "find_filter mgr name")
    case (Some e)
    then show ?thesis using that [of False mgr "file"] assms by (simp add: filter_manager_add_def)
  next
    case None
    show ?thesis
    proof (cases rule: entry_create_ok [OF mem_ok_True, of now name s d])
      case 1
      then show ?thesis using that [of False mgr "file"] assms None by (simp add: filter_manager_add_def)
    next
      case (2 e)
      have inv: "fm_inv (mgr\<lparr>fm_filters := e # fm_filters mgr, fm_filter_count := fm_filter_count mgr + 1\<rparr>)"
        using fm_inv_insert [OF assms 2(2)] 2(3) None by simp
      then show ?thesis using that [OF _ inv, of True] auto_save_inv [OF inv] 2 None by (simp add: filter_manager_add_def)
    qed
  qed
  show thesis
  proof (cases ok)
    case False
    then show thesis
      using that [of 0 mgr "file" "[]"] assms add(1) add(4) [OF False] Some p by (simp add: load_line_def)
  next
    case True
    then obtain e where e: "fm_filters m1 = e # fm_filters mgr" "fen_name e = name" using add(3) by blast
    let ?m = "change_entry name (\<lambda>x. x\<lparr>fen_enabled := False\<rparr>) m1"
    have inv: "fm_inv ?m" using add(2) by (rule change_entry_inv) (auto simp: entry_ok_def)
    have dis: "filter_manager_disable writable (m1, f1) (Some name) = Ok (True, ?m, saved_file writable (?m, f1))"
      using auto_save_inv [OF inv] e by (simp add: filter_manager_disable_def set_enabled_def find_filter_def)
    show thesis
    proof (cases flag)
      case True
      then show thesis
        using that [of 1 m1 f1 "[stored_view e]"] add(1,2) \<open>ok\<close> Some p e by (simp add: load_line_def)
    next
      case False
      then show thesis
        using that [of 1 ?m _ "[stored_view (e\<lparr>fen_enabled := False\<rparr>)]"] add(1) inv dis \<open>ok\<close> Some p e
        by (simp add: load_line_def change_entry_def)
    qed
  qed
qed

section \<open>The loop of the reader\<close>

lemma load_loop_line:
  assumes "fgets b (file_content st) 1023 s = (line, s')" "line \<noteq> []" "load_line mem now writable line st = Ok (n, st')"
  shows "load_loop mem now writable b count s st = load_loop mem now writable b (count + n) s' st'"
  using assms by (subst load_loop.simps) simp

lemma load_loop_end:
  assumes "fgets b (file_content st) 1023 s = ([], s')"
  shows "load_loop mem now writable b count s st = Some (Ok (count, st))"
  using assms by (subst load_loop.simps) simp

lemma load_loop_skip:
  assumes "CHR 0x0A \<notin> set l" "length l < 1023" "parse_line (l @ [CHR 0x0A]) = None" "sm_buffer s = l @ CHR 0x0A # rest"
  shows "load_loop mem now writable b count s st = load_loop mem now writable b count (s\<lparr>sm_buffer := rest\<rparr>) st"
  using load_loop_line [OF fgets_buffer [OF assms(1,2,4)], where mem = mem and now = now and writable = writable and n = 0 and st' = st and count = count] assms(3)
  by (simp add: load_line_def)

lemma load_header:
  assumes "sm_buffer s = save_header @ rest"
  shows "load_loop mem now writable b count s st = load_loop mem now writable b count (s\<lparr>sm_buffer := rest\<rparr>) st"
proof -
  let ?l1 = "''# nlmon filter configuration''" and ?l2 = "''# Format: name|expression|description|enabled''"
  have h: "save_header @ rest = ?l1 @ CHR 0x0A # ?l2 @ CHR 0x0A # [] @ CHR 0x0A # rest"
    by (simp add: save_header_def)
  have skip: "parse_line (?l1 @ [CHR 0x0A]) = None" "parse_line (?l2 @ [CHR 0x0A]) = None" "parse_line ([] @ [CHR 0x0A]) = None"
    by (simp_all add: parse_line_def c_at_def)
  have "load_loop mem now writable b count s st = load_loop mem now writable b count (s\<lparr>sm_buffer := ?l2 @ CHR 0x0A # [] @ CHR 0x0A # rest\<rparr>) st"
    by (rule load_loop_skip [OF _ _ skip(1)]) (use assms h in simp_all)
  also have "\<dots> = load_loop mem now writable b count (s\<lparr>sm_buffer := [] @ CHR 0x0A # rest\<rparr>) st"
    by (subst load_loop_skip [OF _ _ skip(2)]) simp_all
  also have "\<dots> = load_loop mem now writable b count (s\<lparr>sm_buffer := rest\<rparr>) st"
    by (subst load_loop_skip [OF _ _ skip(3)]) simp_all
  finally show ?thesis .
qed

text \<open>The first read fills the buffer.\<close>

lemma load_first_block:
  assumes "take b (file_content st) = block" "block \<noteq> []"
  shows "load_loop mem now writable b count fopen_stream st =
    load_loop mem now writable b count \<lparr>sm_buffer = block, sm_offset = length block, sm_eof = False\<rparr> st"
proof -
  have "fgets b (file_content st) 1023 fopen_stream =
      fgets b (file_content st) 1023 \<lparr>sm_buffer = block, sm_offset = length block, sm_eof = False\<rparr>"
    using fgets_refill [of fopen_stream b "file_content st" block 1022] assms by (simp add: fopen_stream_def)
  then show ?thesis by (subst (1 2) load_loop.simps) simp
qed

text \<open>Saved lines that are in the buffer are added one by one; each time the file is rewritten.\<close>

lemma load_saved_lines:
  assumes "fm_inv mgr" "\<forall>entry \<in> set es. storable entry \<and> entry_ok entry \<and> find_filter mgr (fen_name entry) = None"
    and "distinct (map fen_name es)" "sm_buffer s = concat (map line_of es) @ rest"
  shows "\<exists>mgr'. load_loop (\<lambda>_. True) now writable b count s (mgr, file) =
      load_loop (\<lambda>_. True) now writable b (count + length es) (s\<lparr>sm_buffer := rest\<rparr>)
        (mgr', if es = [] then file else saved_file writable (mgr', file)) \<and>
    fm_inv mgr' \<and> map stored_view (fm_filters mgr') = rev (map stored_view es) @ map stored_view (fm_filters mgr) \<and>
    fm_storage_path mgr' = fm_storage_path mgr \<and> fm_auto_save mgr' = fm_auto_save mgr \<and> (es = [] \<longrightarrow> mgr' = mgr)"
  using assms
proof (induction es arbitrary: mgr "file" count s)
  case Nil
  then have "s\<lparr>sm_buffer := rest\<rparr> = s" by simp
  then show ?case using Nil by auto
next
  case (Cons entry es)
  obtain l where l: "line_of entry = l @ [CHR 0x0A]" "CHR 0x0A \<notin> set l" "length l < 1023"
    by (rule storable_line [of entry]) (use Cons.prems(2) in simp_all)
  obtain m1 where m: "load_line (\<lambda>_. True) now writable (line_of entry) (mgr, file) = Ok (1, m1, saved_file writable (m1, file))"
    "fm_inv m1" "map stored_view (fm_filters m1) = stored_view entry # map stored_view (fm_filters mgr)"
    "fm_storage_path m1 = fm_storage_path mgr" "fm_auto_save m1 = fm_auto_save mgr"
    by (rule load_line_saved [OF Cons.prems(1), of entry now writable "file"]) (use Cons.prems(2) in auto)
  have "map fen_name (fm_filters m1) = map fst (map stored_view (fm_filters m1))" by (simp add: stored_view_def)
  also have "\<dots> = fen_name entry # map fen_name (fm_filters mgr)" unfolding m(3) by (simp add: stored_view_def)
  finally have names: "fen_name ` set (fm_filters m1) = insert (fen_name entry) (fen_name ` set (fm_filters mgr))"
    by (metis list.set(2) list.set_map)
  have others: "\<forall>e \<in> set es. storable e \<and> entry_ok e \<and> find_filter m1 (fen_name e) = None"
    using Cons.prems(2,3) names by (auto simp: find_filter_None image_iff)
  let ?s = "s\<lparr>sm_buffer := concat (map line_of es) @ rest\<rparr>"
  have "fgets b (file_content (mgr, file)) 1023 s = (line_of entry, ?s)"
    using fgets_buffer [OF l(2,3), of s] Cons.prems(4) l(1) by simp
  from load_loop_line [OF this _ m(1)] l(1)
  have step: "load_loop (\<lambda>_. True) now writable b count s (mgr, file) =
      load_loop (\<lambda>_. True) now writable b (count + 1) ?s (m1, saved_file writable (m1, file))" by simp
  obtain m2 where m2: "load_loop (\<lambda>_. True) now writable b (count + 1) ?s (m1, saved_file writable (m1, file)) =
      load_loop (\<lambda>_. True) now writable b (count + 1 + length es) (?s\<lparr>sm_buffer := rest\<rparr>)
        (m2, if es = [] then saved_file writable (m1, file) else saved_file writable (m2, saved_file writable (m1, file)))"
    "fm_inv m2" "map stored_view (fm_filters m2) = rev (map stored_view es) @ map stored_view (fm_filters m1)"
    "fm_storage_path m2 = fm_storage_path m1" "fm_auto_save m2 = fm_auto_save m1" "es = [] \<longrightarrow> m2 = m1"
    using Cons.IH [OF m(2) others, of ?s "count + 1" "saved_file writable (m1, file)"] Cons.prems(3) by auto
  have "(if es = [] then saved_file writable (m1, file) else saved_file writable (m2, saved_file writable (m1, file))) =
      saved_file writable (m2, file)"
    using m2(4-6) saved_file_again [of m2 m1 writable "file"] by simp
  then show ?case using step m2 m(3-5) by auto
qed

lemma load_block:
  assumes "fm_inv mgr0" "fm_filters mgr0 = []" "\<forall>entry \<in> set es. storable entry \<and> entry_ok entry" "distinct (map fen_name es)"
    and "take b content = save_header @ concat (map line_of es) @ rest"
  obtains mgr' where "load_loop (\<lambda>_. True) now writable b 0 fopen_stream (mgr0, Some content) =
      load_loop (\<lambda>_. True) now writable b (length es) \<lparr>sm_buffer = rest, sm_offset = length (take b content), sm_eof = False\<rparr>
        (mgr', if es = [] then Some content else saved_file writable (mgr', Some content))"
    "fm_inv mgr'" "map stored_view (fm_filters mgr') = rev (map stored_view es)"
    "fm_storage_path mgr' = fm_storage_path mgr0" "fm_auto_save mgr' = fm_auto_save mgr0" "es = [] \<Longrightarrow> mgr' = mgr0"
proof -
  let ?s = "\<lparr>sm_buffer = concat (map line_of es) @ rest, sm_offset = length (take b content), sm_eof = False\<rparr>"
  have "save_header \<noteq> []" by (simp add: save_header_def)
  then have "take b (file_content (mgr0, Some content)) = take b content" "take b content \<noteq> []" using assms(5) by (simp_all add: file_content_def)
  note first = load_first_block [OF this]
  have "load_loop (\<lambda>_. True) now writable b 0 fopen_stream (mgr0, Some content) =
      load_loop (\<lambda>_. True) now writable b 0 ?s (mgr0, Some content)"
    unfolding first
    using load_header [of "\<lparr>sm_buffer = take b content, sm_offset = length (take b content), sm_eof = False\<rparr>" "concat (map line_of es) @ rest"] assms(5)
    by (simp del: length_take)
  moreover have "\<forall>entry \<in> set es. storable entry \<and> entry_ok entry \<and> find_filter mgr0 (fen_name entry) = None"
    using assms(2,3) by (simp add: find_filter_def)
  ultimately show thesis
    using load_saved_lines [OF assms(1) _ assms(4), of ?s rest now writable b 0 "Some content"] assms(2) that by auto
qed

lemma save_content:
  assumes "fm_inv mgr" "filter_manager_save True (mgr, old) = Ok (True, st)"
  shows "snd st = Some (saved_text mgr)"
proof -
  have "\<forall>entry \<in> set (fm_filters mgr). fen_expression entry \<noteq> None"
    using assms(1) entry_ok_expression by (auto simp: fm_inv_def)
  then show ?thesis using assms(2) save_lines_ok by (auto simp: filter_manager_save_def saved_text_def split: if_splits)
qed

lemma created_manager:
  "filter_manager_create (\<lambda>_. True) (Some path) = Some mgr0 \<Longrightarrow>
     fm_inv mgr0 \<and> fm_filters mgr0 = [] \<and> fm_storage_path mgr0 = Some path \<and> fm_auto_save mgr0"
  using create_inv [of "\<lambda>_. True" "Some path" mgr0]
  by (auto simp: filter_manager_create_def filter_eval_context_create_def)


text \<open>
  A file that is longer than the buffer of the stream is not loaded: the first addition has rewritten it, so behind the
  first block there is nothing left to read. Of the filters \<open>es1\<close> inside the block, \<open>entry\<close> across its end and \<open>es2\<close> behind
  it, the first are loaded, the second at most in a truncated form, and the others are lost, from the file as well.
\<close>

lemma filter_load_loses:
  fixes mgr mgr0 :: "'r filter_manager"
  assumes "fm_inv mgr" "\<forall>entry \<in> set (fm_filters mgr). storable entry" "fm_filters mgr = es1 @ entry # es2" "es1 \<noteq> []"
    and "filter_manager_save True (mgr, old) = Ok (True, st)" "filter_manager_create (\<lambda>_. True) (Some path) = Some mgr0"
    and "length (save_header @ concat (map line_of es1)) \<le> bufsiz" "bufsiz < length (save_header @ concat (map line_of (es1 @ [entry])))"
  shows "\<exists>n mgr' file' xs. filter_manager_load (\<lambda>_. True) now True True bufsiz (mgr0, snd st) = Some (Ok (int n, mgr', file')) \<and>
    n = length es1 + length xs \<and> length xs \<le> 1 \<and> map stored_view (fm_filters mgr') = xs @ rev (map stored_view es1)"
proof -
  let ?text = "saved_text mgr" and ?pre = "save_header @ concat (map line_of es1)"
  define part where "part = take (bufsiz - length ?pre) (line_of entry)"
  note m0 = created_manager [OF assms(6)]
  have content: "?text = ?pre @ line_of entry @ concat (map line_of es2)" using assms(3) by (simp add: saved_text_def)
  have short: "bufsiz - length ?pre < length (line_of entry)" using assms(7,8) by simp
  then have "take bufsiz ?text = ?pre @ part" unfolding content part_def using assms(7) by simp
  then have block: "take bufsiz ?text = save_header @ concat (map line_of es1) @ part" by simp
  have off: "length (take bufsiz ?text) = bufsiz" using assms(7) short unfolding block part_def by simp
  have "storable entry" using assms(2,3) by simp
  then obtain l where l: "line_of entry = l @ [CHR 0x0A]" "CHR 0x0A \<notin> set l" "length l < 1023" by (rule storable_line)
  have part: "CHR 0x0A \<notin> set part" "length part < 1023"
    using l short by (auto simp: part_def dest: in_set_takeD)
  obtain m1 where m1: "load_loop (\<lambda>_. True) now True bufsiz 0 fopen_stream (mgr0, Some ?text) =
      load_loop (\<lambda>_. True) now True bufsiz (length es1) \<lparr>sm_buffer = part, sm_offset = length (take bufsiz ?text), sm_eof = False\<rparr>
        (m1, if es1 = [] then Some ?text else saved_file True (m1, Some ?text))"
    "fm_inv m1" "map stored_view (fm_filters m1) = rev (map stored_view es1)"
    "fm_storage_path m1 = fm_storage_path mgr0" "fm_auto_save m1 = fm_auto_save mgr0"
    by (rule load_block [OF _ _ _ _ block, of mgr0 now True]) (use m0 assms(1-3) in \<open>auto simp: fm_inv_def\<close>)
  let ?file = "Some (saved_text m1)" and ?s = "\<lparr>sm_buffer = part, sm_offset = bufsiz, sm_eof = False\<rparr>"
  have loop: "load_loop (\<lambda>_. True) now True bufsiz 0 fopen_stream (mgr0, Some ?text) =
      load_loop (\<lambda>_. True) now True bufsiz (length es1) ?s (m1, ?file)"
    unfolding m1(1) off using m0 m1(4,5) assms(4) by (simp add: saved_file_def)
  have "length (file_content (m1, ?file)) \<le> bufsiz" using saved_lines [OF m1(3)] assms(7) by (simp add: file_content_def)
  then obtain s' where s': "fgets bufsiz (file_content (m1, ?file)) 1023 ?s = (part, s')" "sm_buffer s' = []" "sm_eof s'"
    using fgets_end [of ?s 1023 "file_content (m1, ?file)" bufsiz] part by auto
  have load: "filter_manager_load (\<lambda>_. True) now True True bufsiz (mgr0, snd st) = Some (Ok (int n, mgr', file'))"
    if "load_loop (\<lambda>_. True) now True bufsiz (length es1) ?s (m1, ?file) = Some (Ok (n, mgr', file'))" for n mgr' file'
    using that loop m0 save_content [OF assms(1,5)] by (simp add: filter_manager_load_def)
  show ?thesis
  proof (cases "part = []")
    case True
    then have "load_loop (\<lambda>_. True) now True bufsiz (length es1) ?s (m1, ?file) = Some (Ok (length es1, m1, ?file))"
      using s'(1) by (intro load_loop_end) simp
    then show ?thesis using load m1(3) by (intro exI [of _ "length es1"] exI [of _ m1] exI [of _ ?file] exI [of _ "[]"]) simp
  next
    case False
    obtain n mgr' file' xs where a: "load_line (\<lambda>_. True) now True part (m1, ?file) = Ok (n, mgr', file')" "n = length xs" "n \<le> 1"
      "map stored_view (fm_filters mgr') = xs @ map stored_view (fm_filters m1)"
      by (rule load_line_any [OF m1(2), of now True part ?file])
    obtain s'' where "fgets bufsiz (file_content (mgr', file')) 1023 s' = ([], s'')"
      using fgets_end [of s' 1023] s'(2,3) by auto
    then have "load_loop (\<lambda>_. True) now True bufsiz (length es1) ?s (m1, ?file) = Some (Ok (length es1 + n, mgr', file'))"
      using load_loop_line [OF s'(1) False a(1)] load_loop_end by metis
    then show ?thesis using load a(2-4) m1(3) by (intro exI [of _ "length es1 + n"] exI [of _ mgr'] exI [of _ file'] exI [of _ xs]) simp
  qed
qed

text \<open>C35. A filter saved without a description does not come back as it was: its line has an empty field,
  which the reader skips, so the enabled flag is taken for the description and the filter comes back
  disabled.\<close>

theorem description_lost:
  assumes "plain_field (fen_name entry)" "hd (fen_name entry) \<noteq> CHR ''#''" "fen_expression entry = Some s" "plain_field s"
    and "fen_description entry = None" "save_line entry = Ok line"
  shows "parse_line line = Some (fen_name entry, s, Some (if fen_enabled entry then ''1'' else ''0''), False)"
proof -
  let ?flag = "if fen_enabled entry then ''1'' else ''0''"
  let ?body = "fen_name entry @ CHR ''|'' # s @ CHR ''|'' # CHR ''|'' # ?flag"
  have line: "line = ?body @ [CHR 0x0A]" using assms(3,5,6) by (auto simp: save_line_def)
  have nul: "NUL \<notin> set (?body @ [CHR 0x0A])" "CHR 0x0A \<notin> set ?body"
    using assms(1,4) by (auto simp: plain_field_def)
  have "takeWhile (\<lambda>c. c \<noteq> CHR 0x0A) (takeWhile (\<lambda>c. c \<noteq> NUL) (?body @ [CHR 0x0A])) = ?body"
    using split_at_sep(3) [OF nul(1)] split_at_sep(1) [OF nul(2), of "[]"] by simp
  moreover have "c_at (?body @ [CHR 0x0A]) 0 = hd (fen_name entry)" "hd (fen_name entry) \<noteq> CHR 0x0A"
    using assms(1) by (cases "fen_name entry"; auto simp: c_at_def plain_field_def)+
  moreover have "strtok (CHR ''|'' # ?flag) = (Some ?flag, [])" "strtok [] = (None, [])"
    by (auto simp: strtok_def Let_def)
  ultimately show ?thesis
    using assms(1,2,4) strtok_field by (simp add: line parse_line_def Let_def)
qed

definition stored_manager :: "string filter_manager" where
  "stored_manager = sample_manager\<lparr>fm_filters := [sample_entry\<lparr>fen_description := Some ''d''\<rparr>], fm_storage_path := Some ''f''\<rparr>"


theorem description_lost_witness:
  "\<exists>line. save_line sample_entry = Ok line \<and> parse_line line = Some (''a'', sample_text, Some ''1'', False)"
  using description_lost [of sample_entry sample_text]
  by (simp add: save_line_def plain_field_def sample_text_def sample_entry_def)

end
