(* ===== verification/Rate_Limiter.thy ===== *)
theory Rate_Limiter
  imports Complex_Main Named_Table
begin

text \<open>
  The token bucket of \<^verbatim>\<open>src/src/core/rate_limiter.c\<close> and the table of buckets per event type. Values of
  type \<open>double\<close> are rationals; every arithmetic operation and every conversion of an integer rounds its
  exact result by the argument \<open>rnd\<close>. What is used of rounding: it is monotone, idempotent, keeps 0 and 1, and has a relative
  error of at most \<open>e\<close>. IEEE arithmetic rounds so, with \<open>e = 2^-53\<close>, while results stay in the normal range of
  \<open>double\<close>: a result below \<open>2^-1022\<close> other than 0 (a rate that small) has a larger relative error, and one of \<open>2^1024\<close> or more
  becomes an infinity; both are outside the model, as are NaN and infinite arguments. Readings of the clock are arguments.

  Calls do not overlap here. Each operation on one limiter runs under its mutex, but \<open>rate_limiter_map_allow\<close> and
  \<open>rate_limiter_map_stats\<close> release the mutex of the map before they use the limiter they have found, so in a program in which
  another thread configures the same event type meanwhile that limiter may be freed already; the definitions below are the
  behaviour without such a thread. \<open>pthread_mutex_init\<close> with default attributes does not fail in glibc; its error branch, which returns
  NULL like a failed allocation, is not repeated.
\<close>

section \<open>Token bucket\<close>

record rate_limiter =
  rl_rate :: rat
  rl_tokens :: rat
  rl_burst :: size_t
  rl_last_update :: rat
  rl_allowed_count :: u64
  rl_denied_count :: u64
  rl_rate_window_start :: rat
  rl_rate_window_count :: u64

definition get_time_seconds :: "(rat \<Rightarrow> rat) \<Rightarrow> int \<times> int \<Rightarrow> rat" where
  "get_time_seconds rnd tv = rnd (rnd (of_int (fst tv)) + rnd (of_int (snd tv) / 1000000))"

text \<open>The conversion of a \<open>size_t\<close> to \<open>double\<close>.\<close>

definition to_double :: "(rat \<Rightarrow> rat) \<Rightarrow> size_t \<Rightarrow> rat" where
  "to_double rnd n = rnd (of_nat (unat n))"

definition rate_limiter_create :: "alloc \<Rightarrow> (rat \<Rightarrow> rat) \<Rightarrow> rat \<Rightarrow> rat \<Rightarrow> size_t \<Rightarrow> rate_limiter option" where
  "rate_limiter_create mem rnd now rate burst =
     (if rate \<le> 0 \<or> burst = 0 then None
      else if \<not> mem 104 then None
      else Some \<lparr>rl_rate = rate, rl_tokens = to_double rnd burst, rl_burst = burst, rl_last_update = now,
             rl_allowed_count = 0, rl_denied_count = 0, rl_rate_window_start = now, rl_rate_window_count = 0\<rparr>)"

definition refill_tokens :: "(rat \<Rightarrow> rat) \<Rightarrow> rat \<Rightarrow> rate_limiter \<Rightarrow> rate_limiter" where
  "refill_tokens rnd now rl =
     (let elapsed = rnd (now - rl_last_update rl) in
      if elapsed > 0 then
        let new_tokens = rnd (elapsed * rl_rate rl);
            tokens = rnd (rl_tokens rl + new_tokens)
        in rl\<lparr>rl_tokens := (if tokens > to_double rnd (rl_burst rl) then to_double rnd (rl_burst rl) else tokens),
              rl_last_update := now\<rparr>
      else rl)"

definition rate_limiter_allow :: "(rat \<Rightarrow> rat) \<Rightarrow> rat \<Rightarrow> rate_limiter \<Rightarrow> bool \<times> rate_limiter" where
  "rate_limiter_allow rnd now rl =
     (let rl = refill_tokens rnd now rl in
      if rl_tokens rl \<ge> 1
      then (True, rl\<lparr>rl_tokens := rnd (rl_tokens rl - 1), rl_allowed_count := rl_allowed_count rl + 1,
                     rl_rate_window_count := rl_rate_window_count rl + 1\<rparr>)
      else (False, rl\<lparr>rl_denied_count := rl_denied_count rl + 1\<rparr>))"

definition rate_limiter_allow_n :: "(rat \<Rightarrow> rat) \<Rightarrow> rat \<Rightarrow> rate_limiter \<Rightarrow> size_t \<Rightarrow> bool \<times> rate_limiter" where
  "rate_limiter_allow_n rnd now rl n =
     (if n = 0 then (True, rl)
      else let rl = refill_tokens rnd now rl in
        if rl_tokens rl \<ge> to_double rnd n
        then (True, rl\<lparr>rl_tokens := rnd (rl_tokens rl - to_double rnd n), rl_allowed_count := rl_allowed_count rl + n,
                       rl_rate_window_count := rl_rate_window_count rl + n\<rparr>)
        else (False, rl\<lparr>rl_denied_count := rl_denied_count rl + n\<rparr>))"

definition rate_limiter_reset :: "(rat \<Rightarrow> rat) \<Rightarrow> rat \<Rightarrow> rate_limiter \<Rightarrow> rate_limiter" where
  "rate_limiter_reset rnd now rl =
     rl\<lparr>rl_tokens := to_double rnd (rl_burst rl), rl_last_update := now, rl_rate_window_start := now,
        rl_rate_window_count := 0\<rparr>"

definition rate_limiter_set_rate :: "(rat \<Rightarrow> rat) \<Rightarrow> rat \<Rightarrow> rate_limiter \<Rightarrow> rat \<Rightarrow> rate_limiter" where
  "rate_limiter_set_rate rnd now rl rate =
     (if rate \<le> 0 then rl else (refill_tokens rnd now rl)\<lparr>rl_rate := rate\<rparr>)"

definition rate_limiter_set_burst :: "(rat \<Rightarrow> rat) \<Rightarrow> rate_limiter \<Rightarrow> size_t \<Rightarrow> rate_limiter" where
  "rate_limiter_set_burst rnd rl burst =
     (if burst = 0 then rl
      else rl\<lparr>rl_burst := burst,
              rl_tokens := (if rl_tokens rl > to_double rnd burst then to_double rnd burst else rl_tokens rl)\<rparr>)"

definition rate_limiter_get_tokens :: "(rat \<Rightarrow> rat) \<Rightarrow> rat \<Rightarrow> rate_limiter \<Rightarrow> rat \<times> rate_limiter" where
  "rate_limiter_get_tokens rnd now rl = (let rl = refill_tokens rnd now rl in (rl_tokens rl, rl))"

text \<open>The totals, and the rate of the current window, which a window of a second or more ends.\<close>

definition rate_limiter_stats :: "(rat \<Rightarrow> rat) \<Rightarrow> rat \<Rightarrow> rate_limiter \<Rightarrow> (u64 \<times> u64 \<times> rat) \<times> rate_limiter" where
  "rate_limiter_stats rnd now rl =
     (let elapsed = rnd (now - rl_rate_window_start rl);
          current = (if elapsed > 0 then rnd (to_double rnd (rl_rate_window_count rl) / elapsed) else 0)
      in ((rl_allowed_count rl, rl_denied_count rl, current),
          if elapsed \<ge> 1 then rl\<lparr>rl_rate_window_start := now, rl_rate_window_count := 0\<rparr> else rl))"

section \<open>Buckets per event type\<close>

record rate_limiter_entry =
  rle_event_type :: u32
  rle_limiter :: rate_limiter

record rate_limiter_map =
  rlm_buckets :: "rate_limiter_entry list list"
  rlm_default_limiter :: rate_limiter
  rlm_default_rate :: rat
  rlm_default_burst :: size_t

definition hash_event_type :: "u32 \<Rightarrow> u32" where
  "hash_event_type t =
     (let t = t XOR drop_bit 16 t; t = t * 0x85ebca6b;
          t = t XOR drop_bit 13 t; t = t * 0xc2b2ae35;
          t = t XOR drop_bit 16 t
      in t mod 256)"

definition rate_limiter_map_create :: "alloc \<Rightarrow> (rat \<Rightarrow> rat) \<Rightarrow> rat \<Rightarrow> rat \<Rightarrow> size_t \<Rightarrow> rate_limiter_map option" where
  "rate_limiter_map_create mem rnd now default_rate default_burst =
     (if \<not> mem 2112 then None
      else map_option (\<lambda>l. \<lparr>rlm_buckets = replicate 256 [], rlm_default_limiter = l,
              rlm_default_rate = default_rate, rlm_default_burst = default_burst\<rparr>)
        (rate_limiter_create mem rnd now default_rate default_burst))"

definition bucket_of :: "rate_limiter_map \<Rightarrow> u32 \<Rightarrow> rate_limiter_entry list" where
  "bucket_of m t = rlm_buckets m ! unat (hash_event_type t)"

definition set_bucket :: "rate_limiter_map \<Rightarrow> u32 \<Rightarrow> rate_limiter_entry list \<Rightarrow> rate_limiter_map" where
  "set_bucket m t es = m\<lparr>rlm_buckets := (rlm_buckets m)[unat (hash_event_type t) := es]\<rparr>"

definition rate_limiter_map_set ::
  "alloc \<Rightarrow> (rat \<Rightarrow> rat) \<Rightarrow> rat \<Rightarrow> rate_limiter_map \<Rightarrow> u32 \<Rightarrow> rat \<Rightarrow> size_t \<Rightarrow> bool \<times> rate_limiter_map" where
  "rate_limiter_map_set mem rnd now m event_type rate burst =
     (case rate_limiter_create mem rnd now rate burst of None \<Rightarrow> (False, m)
      | Some limiter \<Rightarrow>
        (case find_by rle_event_type event_type (bucket_of m event_type) of
           Some _ \<Rightarrow>
             (True, set_bucket m event_type
                (update_by rle_event_type event_type (\<lambda>e. e\<lparr>rle_limiter := limiter\<rparr>) (bucket_of m event_type)))
         | None \<Rightarrow>
             if \<not> mem 24 then (False, m)
             else (True, set_bucket m event_type
                    (\<lparr>rle_event_type = event_type, rle_limiter = limiter\<rparr> # bucket_of m event_type))))"

definition rate_limiter_map_allow :: "(rat \<Rightarrow> rat) \<Rightarrow> rat \<Rightarrow> rate_limiter_map \<Rightarrow> u32 \<Rightarrow> bool \<times> rate_limiter_map" where
  "rate_limiter_map_allow rnd now m event_type =
     (case find_by rle_event_type event_type (bucket_of m event_type) of
        Some entry \<Rightarrow>
          (case rate_limiter_allow rnd now (rle_limiter entry) of (allowed, limiter) \<Rightarrow>
             (allowed, set_bucket m event_type
                (update_by rle_event_type event_type (\<lambda>e. e\<lparr>rle_limiter := limiter\<rparr>) (bucket_of m event_type))))
      | None \<Rightarrow>
          (case rate_limiter_allow rnd now (rlm_default_limiter m) of (allowed, limiter) \<Rightarrow>
             (allowed, m\<lparr>rlm_default_limiter := limiter\<rparr>)))"

text \<open>Each limiter reads the clock when its turn comes.\<close>

definition rate_limiter_map_reset :: "(rat \<Rightarrow> rat) \<Rightarrow> rat \<Rightarrow> (u32 \<Rightarrow> rat) \<Rightarrow> rate_limiter_map \<Rightarrow> rate_limiter_map" where
  "rate_limiter_map_reset rnd now nows m =
     m\<lparr>rlm_default_limiter := rate_limiter_reset rnd now (rlm_default_limiter m),
       rlm_buckets := map (map (\<lambda>e. e\<lparr>rle_limiter := rate_limiter_reset rnd (nows (rle_event_type e)) (rle_limiter e)\<rparr>))
         (rlm_buckets m)\<rparr>"

definition rate_limiter_map_stats ::
  "(rat \<Rightarrow> rat) \<Rightarrow> rat \<Rightarrow> rate_limiter_map \<Rightarrow> u32 \<Rightarrow> (u64 \<times> u64 \<times> rat) \<times> rate_limiter_map" where
  "rate_limiter_map_stats rnd now m event_type =
     (case find_by rle_event_type event_type (bucket_of m event_type) of
        Some entry \<Rightarrow>
          (case rate_limiter_stats rnd now (rle_limiter entry) of (stats, limiter) \<Rightarrow>
             (stats, set_bucket m event_type
                (update_by rle_event_type event_type (\<lambda>e. e\<lparr>rle_limiter := limiter\<rparr>) (bucket_of m event_type))))
      | None \<Rightarrow>
          (case rate_limiter_stats rnd now (rlm_default_limiter m) of (stats, limiter) \<Rightarrow>
             (stats, m\<lparr>rlm_default_limiter := limiter\<rparr>)))"

section \<open>Tokens stay within the bucket\<close>

text \<open>Rounding, as the arguments below use it.\<close>

definition rounding :: "(rat \<Rightarrow> rat) \<Rightarrow> rat \<Rightarrow> bool" where
  "rounding rnd e \<longleftrightarrow> mono rnd \<and> (\<forall>x. rnd (rnd x) = rnd x) \<and> rnd 0 = 0 \<and> rnd 1 = 1 \<and> 0 \<le> e \<and>
     (\<forall>x \<ge> 0. rnd x \<le> x * (1 + e))"

definition rl_inv :: "(rat \<Rightarrow> rat) \<Rightarrow> rate_limiter \<Rightarrow> bool" where
  "rl_inv rnd rl \<longleftrightarrow> 0 < rl_rate rl \<and> 0 \<le> rl_tokens rl \<and> rl_tokens rl \<le> to_double rnd (rl_burst rl) \<and>
     rnd (rl_tokens rl) = rl_tokens rl"

lemma roundingD:
  assumes "rounding rnd e"
  shows "x \<le> y \<Longrightarrow> rnd x \<le> rnd y" "rnd (rnd x) = rnd x" "0 \<le> x \<Longrightarrow> 0 \<le> rnd x" "rnd 1 = 1" "0 \<le> e"
    "0 \<le> x \<Longrightarrow> rnd x \<le> x * (1 + e)" "0 \<le> x \<Longrightarrow> rnd x \<le> x + e * x" "0 < rnd x \<Longrightarrow> 0 < x"
proof -
  note r = assms [unfolded rounding_def]
  show m: "x \<le> y \<Longrightarrow> rnd x \<le> rnd y" for x y using r by (auto simp: mono_def)
  show "rnd (rnd x) = rnd x" "rnd 1 = 1" "0 \<le> e" "0 \<le> x \<Longrightarrow> rnd x \<le> x * (1 + e)" using r by auto
  then show "0 \<le> x \<Longrightarrow> rnd x \<le> x + e * x" by (simp add: algebra_simps)
  show "0 \<le> x \<Longrightarrow> 0 \<le> rnd x" using m [of 0 x] r by simp
  show "0 < rnd x \<Longrightarrow> 0 < x" using m [of x 0] r by (metis linorder_not_less)
qed

lemma to_double_ge_1: "rounding rnd e \<Longrightarrow> n \<noteq> 0 \<Longrightarrow> 1 \<le> to_double rnd n"
proof -
  assume r: "rounding rnd e" and "n \<noteq> 0"
  then have "1 \<le> unat n" by (simp add: unat_gt_0 Suc_leI)
  then have "(1 :: rat) \<le> of_nat (unat n)" by (metis of_nat_1 of_nat_le_iff)
  then show ?thesis using roundingD(1) [OF r] roundingD(4) [OF r] unfolding to_double_def by metis
qed

lemma to_double_nonneg: "rounding rnd e \<Longrightarrow> 0 \<le> to_double rnd n" "rounding rnd e \<Longrightarrow> rnd (to_double rnd n) = to_double rnd n"
  unfolding to_double_def by (rule roundingD(3), assumption, rule of_nat_0_le_iff, rule roundingD(2))

lemma create_rl_inv: "rounding rnd e \<Longrightarrow> rate_limiter_create mem rnd now rate burst = Some rl \<Longrightarrow> rl_inv rnd rl"
  using to_double_nonneg by (auto simp: rate_limiter_create_def rl_inv_def split: if_splits)

lemma refill_cases:
  assumes "rounding rnd e" "rl_inv rnd rl"
  obtains "refill_tokens rnd now rl = rl" "now \<le> rl_last_update rl \<or> rnd (now - rl_last_update rl) \<le> 0"
  | t where "refill_tokens rnd now rl = rl\<lparr>rl_tokens := t, rl_last_update := now\<rparr>" "rl_last_update rl < now"
      "t = min (to_double rnd (rl_burst rl)) (rnd (rl_tokens rl + rnd (rnd (now - rl_last_update rl) * rl_rate rl)))"
      "0 < rnd (now - rl_last_update rl)"
  using that roundingD(8) [OF assms(1), of "now - rl_last_update rl"]
  by (cases "rnd (now - rl_last_update rl) > 0") (auto simp: refill_tokens_def Let_def min_def not_less)

lemma refill_inv:
  assumes "rounding rnd e" "rl_inv rnd rl"
  shows "rl_inv rnd (refill_tokens rnd now rl)"
proof (cases rule: refill_cases [OF assms, of now])
  case 1
  then show ?thesis using assms(2) by simp
next
  case (2 t)
  have "0 \<le> rl_tokens rl + rnd (rnd (now - rl_last_update rl) * rl_rate rl)"
    using assms 2(4) by (intro add_nonneg_nonneg roundingD(3) [OF assms(1)]) (auto simp: rl_inv_def)
  then have "0 \<le> t" using 2(3) to_double_nonneg(1) [OF assms(1)] roundingD(3) [OF assms(1)] by simp
  moreover have "rnd t = t"
    using 2(3) to_double_nonneg(2) [OF assms(1)] roundingD(2) [OF assms(1)] by (simp add: min_def)
  ultimately show ?thesis using 2(1,3) assms(2) by (simp add: rl_inv_def)
qed

lemma spend_inv:
  assumes "rounding rnd e" "rl_inv rnd rl" "0 \<le> n" "n \<le> rl_tokens rl"
  shows "rl_inv rnd (rl\<lparr>rl_tokens := rnd (rl_tokens rl - n)\<rparr>)"
proof -
  have "rnd (rl_tokens rl - n) \<le> rnd (rl_tokens rl)" using assms(3) by (intro roundingD(1) [OF assms(1)]) simp
  then show ?thesis
    using assms roundingD(2,3) [OF assms(1)] by (auto simp: rl_inv_def)
qed

lemma rl_inv_cong:
  "rl_rate rl' = rl_rate rl \<Longrightarrow> rl_tokens rl' = rl_tokens rl \<Longrightarrow> rl_burst rl' = rl_burst rl \<Longrightarrow> rl_inv rnd rl' = rl_inv rnd rl"
  by (simp add: rl_inv_def)

lemma allow_inv:
  assumes "rounding rnd e" "rl_inv rnd rl"
  shows "rl_inv rnd (snd (rate_limiter_allow rnd now rl))"
proof -
  let ?rl = "refill_tokens rnd now rl"
  have inv: "rl_inv rnd ?rl" by (rule refill_inv [OF assms])
  show ?thesis
  proof (cases "rl_tokens ?rl \<ge> 1")
    case True
    have "rl_inv rnd (?rl\<lparr>rl_tokens := rnd (rl_tokens ?rl - 1)\<rparr>)" using True by (intro spend_inv [OF assms(1) inv]) auto
    then show ?thesis using True by (simp add: rate_limiter_allow_def Let_def rl_inv_def)
  next
    case False
    then show ?thesis using inv by (simp add: rate_limiter_allow_def Let_def rl_inv_def)
  qed
qed

text \<open>Every operation keeps the tokens between zero and the burst size.\<close>

datatype rl_op = Allow rat | AllowN rat size_t | Reset rat | SetRate rat rat | SetBurst size_t | GetTokens rat | Stats rat

fun rl_step :: "(rat \<Rightarrow> rat) \<Rightarrow> rl_op \<Rightarrow> rate_limiter \<Rightarrow> rate_limiter" where
  "rl_step rnd (Allow now) rl = snd (rate_limiter_allow rnd now rl)"
| "rl_step rnd (AllowN now n) rl = snd (rate_limiter_allow_n rnd now rl n)"
| "rl_step rnd (Reset now) rl = rate_limiter_reset rnd now rl"
| "rl_step rnd (SetRate now r) rl = rate_limiter_set_rate rnd now rl r"
| "rl_step rnd (SetBurst b) rl = rate_limiter_set_burst rnd rl b"
| "rl_step rnd (GetTokens now) rl = snd (rate_limiter_get_tokens rnd now rl)"
| "rl_step rnd (Stats now) rl = snd (rate_limiter_stats rnd now rl)"

lemma rl_step_inv:
  assumes "rounding rnd e" "rl_inv rnd rl"
  shows "rl_inv rnd (rl_step rnd op rl)"
proof (cases op)
  case (Allow now)
  then show ?thesis using allow_inv [OF assms] by simp
next
  case (AllowN now n)
  let ?rl = "refill_tokens rnd now rl"
  have inv: "rl_inv rnd ?rl" by (rule refill_inv [OF assms])
  have "rl_inv rnd (?rl\<lparr>rl_tokens := rnd (rl_tokens ?rl - to_double rnd n)\<rparr>)" if "to_double rnd n \<le> rl_tokens ?rl"
    using that to_double_nonneg(1) [OF assms(1)] by (intro spend_inv [OF assms(1) inv])
  then show ?thesis
    using AllowN assms(2) inv by (simp add: rate_limiter_allow_n_def Let_def rl_inv_def)
next
  case (SetRate now r)
  then show ?thesis using refill_inv [OF assms, of now] assms(2) by (simp add: rate_limiter_set_rate_def rl_inv_def)
next
  case (GetTokens now)
  then show ?thesis using refill_inv [OF assms, of now] by (simp add: rate_limiter_get_tokens_def Let_def)
qed (use assms(2) to_double_nonneg [OF assms(1)] in
    \<open>auto simp: rate_limiter_reset_def rate_limiter_set_burst_def rate_limiter_stats_def Let_def rl_inv_def\<close>)

section \<open>The rate is bounded\<close>

fun allow_run :: "(rat \<Rightarrow> rat) \<Rightarrow> rat list \<Rightarrow> rate_limiter \<Rightarrow> nat \<times> rate_limiter" where
  "allow_run rnd [] rl = (0, rl)"
| "allow_run rnd (now # nows) rl =
     (case rate_limiter_allow rnd now rl of (allowed, rl) \<Rightarrow>
        case allow_run rnd nows rl of (n, rl) \<Rightarrow> (if allowed then n + 1 else n, rl))"

lemma refill_gain:
  fixes now :: rat
  assumes "rounding rnd e" "rl_inv rnd rl"
  defines "rl' \<equiv> refill_tokens rnd now rl"
  shows "rl_tokens rl' \<le> rl_tokens rl + (1 + e)\<^sup>2 * rl_rate rl * (rl_last_update rl' - rl_last_update rl) + e * to_double rnd (rl_burst rl)"
proof (cases rule: refill_cases [OF assms(1,2), of now])
  case 1
  then show ?thesis using roundingD(5) [OF assms(1)] to_double_nonneg(1) [OF assms(1)] by (simp add: rl'_def)
next
  case (2 t)
  note r = roundingD [OF assms(1)]
  let ?B = "to_double rnd (rl_burst rl)" and ?dt = "now - rl_last_update rl" and ?rate = "rl_rate rl"
  let ?a = "rnd (rnd ?dt * ?rate)"
  have rate: "0 < ?rate" and t0: "0 \<le> rl_tokens rl" using assms(2) by (auto simp: rl_inv_def)
  have dt: "rnd ?dt \<le> ?dt * (1 + e)" using 2(2) by (intro r(6)) simp
  have "?a \<le> rnd ?dt * ?rate * (1 + e)" using 2(4) rate by (intro r(6)) simp
  also have "\<dots> \<le> ?dt * (1 + e) * ?rate * (1 + e)"
    using dt rate r(5) by (intro mult_right_mono) auto
  finally have a: "?a \<le> (1 + e)\<^sup>2 * ?rate * ?dt" by (simp add: power2_eq_square algebra_simps)
  have "t \<le> rl_tokens rl + ?a + e * ?B"
  proof (cases "rl_tokens rl + ?a \<le> ?B")
    case True
    have "0 \<le> ?a" using 2(4) rate by (intro r(3)) simp
    then have "rnd (rl_tokens rl + ?a) \<le> rl_tokens rl + ?a + e * (rl_tokens rl + ?a)" using t0 by (intro r(7)) simp
    also have "\<dots> \<le> rl_tokens rl + ?a + e * ?B" using True r(5) by (intro add_left_mono mult_left_mono)
    finally show ?thesis using 2(3) by simp
  next
    case False
    have "t \<le> ?B" using 2(3) by simp
    moreover have "0 \<le> e * ?B" using r(5) to_double_nonneg(1) [OF assms(1)] by simp
    ultimately show ?thesis using False by linarith
  qed
  then show ?thesis using a 2(1) by (simp add: rl'_def)
qed

lemma refill_frame:
  "rl_rate (refill_tokens rnd now rl) = rl_rate rl" "rl_burst (refill_tokens rnd now rl) = rl_burst rl"
  by (simp_all add: refill_tokens_def Let_def)

lemma allow_gain:
  assumes "rounding rnd e" "rl_inv rnd rl" "rate_limiter_allow rnd now rl = (allowed, rl')"
  shows "(if allowed then 1 else 0) + rl_tokens rl' \<le>
    rl_tokens rl + (1 + e)\<^sup>2 * rl_rate rl * (rl_last_update rl' - rl_last_update rl) + 2 * e * to_double rnd (rl_burst rl)"
proof -
  let ?rl = "refill_tokens rnd now rl" and ?B = "to_double rnd (rl_burst rl)"
  note r = roundingD [OF assms(1)]
  have inv: "rl_inv rnd ?rl" by (rule refill_inv [OF assms(1,2)])
  have B: "0 \<le> e * ?B" using r(5) to_double_nonneg(1) [OF assms(1)] by simp
  note g = refill_gain [OF assms(1,2), of now]
  show ?thesis
  proof (cases "rl_tokens ?rl \<ge> 1")
    case True
    have "rnd (rl_tokens ?rl - 1) \<le> rl_tokens ?rl - 1 + e * (rl_tokens ?rl - 1)" using True by (intro r(7)) simp
    also have "\<dots> \<le> rl_tokens ?rl - 1 + e * ?B"
      using inv r(5) by (intro add_left_mono mult_left_mono) (auto simp: rl_inv_def refill_frame)
    finally show ?thesis
      using g True assms(3) by (auto simp: rate_limiter_allow_def Let_def)
  next
    case False
    then show ?thesis using g B assms(3) by (auto simp: rate_limiter_allow_def Let_def)
  qed
qed

lemma allow_frame:
  "rate_limiter_allow rnd now rl = (allowed, rl') \<Longrightarrow> rl_rate rl' = rl_rate rl \<and> rl_burst rl' = rl_burst rl \<and>
     (rl_last_update rl' = rl_last_update rl \<or> rl_last_update rl' = now)"
  by (auto simp: rate_limiter_allow_def refill_tokens_def Let_def split: if_splits)

lemma allow_run_gain:
  assumes "rounding rnd e" "rl_inv rnd rl" "allow_run rnd nows rl = (n, rl')"
  shows "of_nat n + rl_tokens rl' \<le> rl_tokens rl + (1 + e)\<^sup>2 * rl_rate rl * (rl_last_update rl' - rl_last_update rl) +
      of_nat (length nows) * (2 * e * to_double rnd (rl_burst rl)) \<and>
    rl_inv rnd rl' \<and> rl_last_update rl' \<in> set (rl_last_update rl # nows)"
  using assms(2,3)
proof (induction nows arbitrary: rl n)
  case (Cons now nows)
  obtain allowed rl1 where a: "rate_limiter_allow rnd now rl = (allowed, rl1)" by force
  obtain m where m: "allow_run rnd nows rl1 = (m, rl')" "n = (if allowed then m + 1 else m)"
    using Cons.prems(2) a by (auto split: prod.splits)
  have inv: "rl_inv rnd rl1" using allow_inv [OF assms(1) Cons.prems(1), of now] a by simp
  note f = allow_frame [OF a] and ih = Cons.IH [OF inv m(1)] and g = allow_gain [OF assms(1) Cons.prems(1) a]
  have "of_nat n + rl_tokens rl' = (if allowed then 1 else 0) + (of_nat m + rl_tokens rl')" using m(2) by simp
  also have "\<dots> \<le> (if allowed then 1 else 0) + rl_tokens rl1 + (1 + e)\<^sup>2 * rl_rate rl * (rl_last_update rl' - rl_last_update rl1) +
      of_nat (length nows) * (2 * e * to_double rnd (rl_burst rl))"
    using ih f by simp
  also have "\<dots> \<le> rl_tokens rl + (1 + e)\<^sup>2 * rl_rate rl * (rl_last_update rl' - rl_last_update rl) +
      of_nat (length (now # nows)) * (2 * e * to_double rnd (rl_burst rl))"
    using g by (simp add: algebra_simps)
  finally show ?case using ih f by auto
qed simp

text \<open>C9. A rate limiter limits the rate: however a client spaces its \<open>k\<close> requests and however the clock
  jumps, the number it allows until the clock shows \<open>T\<close> exceeds the burst size by at most the rate
  times the time since creation, up to the rounding errors of the arithmetic (relative error \<open>e\<close>).
  With exact arithmetic (\<open>e = 0\<close>) the bound is burst + rate * time.\<close>

theorem token_bucket_bound:
  assumes "rounding rnd e" "rate_limiter_create mem rnd start rate burst = Some rl" "allow_run rnd nows rl = (n, rl')"
    and "\<forall>now \<in> set nows. now \<le> T" "start \<le> T"
  shows "of_nat n \<le> to_double rnd burst * (1 + 2 * e * of_nat (length nows)) + (1 + e)\<^sup>2 * rate * (T - start)"
proof -
  have rl: "rl_tokens rl = to_double rnd burst" "rl_rate rl = rate" "rl_burst rl = burst" "rl_last_update rl = start" "0 < rate"
    using assms(2) by (auto simp: rate_limiter_create_def split: if_splits)
  note g = allow_run_gain [OF assms(1) create_rl_inv [OF assms(1,2)] assms(3)]
  have "0 \<le> rl_tokens rl'" using g by (simp add: rl_inv_def)
  moreover have "rl_last_update rl' \<le> T" using g rl(4) assms(4,5) by auto
  then have "(1 + e)\<^sup>2 * rate * (rl_last_update rl' - start) \<le> (1 + e)\<^sup>2 * rate * (T - start)"
    using rl(5) by (intro mult_left_mono) auto
  moreover have "to_double rnd burst * (1 + 2 * e * of_nat (length nows)) =
      to_double rnd burst + of_nat (length nows) * (2 * e * to_double rnd burst)"
    by (simp add: algebra_simps)
  ultimately show ?thesis using g unfolding rl by linarith
qed

text \<open>Exact arithmetic is a rounding.\<close>

lemma exact_rounding: "rounding (\<lambda>x. x) 0"
  by (simp add: rounding_def mono_def)

theorem token_bucket_bound_witness:
  "\<exists>rl n rl'. rate_limiter_create (\<lambda>_. True) (\<lambda>x. x) 0 2 3 = Some rl \<and> allow_run (\<lambda>x. x) [0, 0, 0, 0, 1] rl = (n, rl') \<and>
     n \<le> 5 \<and> 4 \<le> n"
proof -
  obtain rl where rl: "rate_limiter_create (\<lambda>_. True) (\<lambda>x. x) 0 2 3 = Some rl"
    by (simp add: rate_limiter_create_def)
  obtain n rl' where r: "allow_run (\<lambda>x. x) [0, 0, 0, 0, 1] rl = (n, rl')" by force
  have "(of_nat n :: rat) \<le> 5"
    using token_bucket_bound [OF exact_rounding rl r, of 1] by (simp add: to_double_def)
  moreover have "n = 4"
    using r rl by (auto simp: rate_limiter_create_def rate_limiter_allow_def refill_tokens_def Let_def to_double_def)
  ultimately show ?thesis using rl r by auto
qed

text \<open>C21. Whatever is asked of a rate limiter, in any order and at any times, its token count never becomes
  negative and never exceeds the burst size in force; only monotone, idempotent rounding is used.\<close>

theorem tokens_within_burst:
  assumes "rounding rnd e" "rate_limiter_create mem rnd start rate burst = Some rl" "rl' = fold (rl_step rnd) ops rl"
  shows "0 \<le> rl_tokens rl' \<and> rl_tokens rl' \<le> to_double rnd (rl_burst rl') \<and> 0 < rl_rate rl'"
proof -
  have "rl_inv rnd rl \<Longrightarrow> rl_inv rnd (fold (rl_step rnd) ops rl)" for rl
    using rl_step_inv [OF assms(1)] by (induction ops arbitrary: rl) auto
  then show ?thesis using create_rl_inv [OF assms(1,2)] assms(3) by (auto simp: rl_inv_def)
qed

theorem tokens_within_burst_witness:
  "\<exists>rl. rate_limiter_create (\<lambda>_. True) (\<lambda>x. x) 0 2 3 = Some rl \<and>
     0 \<le> rl_tokens (fold (rl_step (\<lambda>x. x)) [Allow 1, SetBurst 1, AllowN 2 1, Reset 4] rl)"
proof -
  obtain rl where rl: "rate_limiter_create (\<lambda>_. True) (\<lambda>x. x) 0 2 3 = Some rl" by (simp add: rate_limiter_create_def)
  show ?thesis
    using tokens_within_burst [OF exact_rounding rl refl, of "[Allow 1, SetBurst 1, AllowN 2 1, Reset 4]"] rl by blast
qed

section \<open>The table of limiters is a map\<close>

text \<open>The limiter of an event type; buckets are consulted only by the hash of the type.\<close>

definition rlm_lookup :: "rate_limiter_map \<Rightarrow> u32 \<Rightarrow> rate_limiter option" where
  "rlm_lookup m t = map_option rle_limiter (find_by rle_event_type t (bucket_of m t))"

definition rlm_ok :: "rate_limiter_map \<Rightarrow> bool" where
  "rlm_ok m \<longleftrightarrow> length (rlm_buckets m) = 256"

lemma hash_bound: "unat (hash_event_type t) < 256"
proof -
  have "unat (x mod 256 :: u32) < 256" for x by (simp add: unat_mod)
  then show ?thesis by (simp add: hash_event_type_def Let_def)
qed

lemma bucket_set_bucket:
  assumes "rlm_ok m"
  shows "bucket_of (set_bucket m t es) u = (if hash_event_type u = hash_event_type t then es else bucket_of m u)"
    and "rlm_ok (set_bucket m t es)" "rlm_default_limiter (set_bucket m t es) = rlm_default_limiter m"
  using assms hash_bound [of t]
  by (auto simp: rlm_ok_def bucket_of_def set_bucket_def nth_list_update dest: word_unat_eq_iff [THEN iffD2])

lemma lookup_put:
  assumes "rlm_ok m" "rlm_lookup m t = Some l0"
  shows "rlm_lookup (set_bucket m t (update_by rle_event_type t (\<lambda>e. e\<lparr>rle_limiter := l\<rparr>) (bucket_of m t))) =
    (rlm_lookup m)(t \<mapsto> l)"
proof
  fix u
  have "bucket_of m u = bucket_of m t" if "hash_event_type u = hash_event_type t"
    using that by (simp add: bucket_of_def)
  then show "rlm_lookup (set_bucket m t (update_by rle_event_type t (\<lambda>e. e\<lparr>rle_limiter := l\<rparr>) (bucket_of m t))) u =
      ((rlm_lookup m)(t \<mapsto> l)) u"
    using assms by (auto simp: rlm_lookup_def bucket_set_bucket find_update_by)
qed

lemma lookup_new:
  assumes "rlm_ok m"
  shows "rlm_lookup (set_bucket m t (\<lparr>rle_event_type = t, rle_limiter = l\<rparr> # bucket_of m t)) = (rlm_lookup m)(t \<mapsto> l)"
proof
  fix u
  have "bucket_of m u = bucket_of m t" if "hash_event_type u = hash_event_type t"
    using that by (simp add: bucket_of_def)
  then show "rlm_lookup (set_bucket m t (\<lparr>rle_event_type = t, rle_limiter = l\<rparr> # bucket_of m t)) u = ((rlm_lookup m)(t \<mapsto> l)) u"
    using assms by (auto simp: rlm_lookup_def bucket_set_bucket)
qed

lemma map_set_lookup:
  assumes "rlm_ok m" "rate_limiter_map_set mem rnd now m t rate burst = (ok, m')"
  shows "rlm_ok m' \<and> rlm_default_limiter m' = rlm_default_limiter m \<and>
    (if ok then (\<exists>l. rate_limiter_create mem rnd now rate burst = Some l \<and> rlm_lookup m' = (rlm_lookup m)(t \<mapsto> l))
     else m' = m)"
proof (cases "rate_limiter_create mem rnd now rate burst")
  case None
  then show ?thesis using assms by (simp add: rate_limiter_map_set_def)
next
  case (Some l)
  show ?thesis
  proof (cases "find_by rle_event_type t (bucket_of m t)")
    case None
    then show ?thesis
      using assms Some lookup_new [OF assms(1), of t l] bucket_set_bucket [OF assms(1)]
      by (auto simp: rate_limiter_map_set_def split: if_splits)
  next
    case (Some e)
    then have "rlm_lookup m t = Some (rle_limiter e)" by (simp add: rlm_lookup_def)
    from lookup_put [OF assms(1) this] show ?thesis
      using assms Some \<open>rate_limiter_create mem rnd now rate burst = Some l\<close> bucket_set_bucket [OF assms(1)]
      by (auto simp: rate_limiter_map_set_def)
  qed
qed

lemma map_allow_lookup:
  assumes "rlm_ok m" "rate_limiter_map_allow rnd now m t = (allowed, m')"
  shows "rlm_ok m' \<and> (case rlm_lookup m t of
      Some l \<Rightarrow> (\<exists>l'. rate_limiter_allow rnd now l = (allowed, l') \<and> rlm_lookup m' = (rlm_lookup m)(t \<mapsto> l') \<and>
        rlm_default_limiter m' = rlm_default_limiter m)
    | None \<Rightarrow> (\<exists>l'. rate_limiter_allow rnd now (rlm_default_limiter m) = (allowed, l') \<and> rlm_lookup m' = rlm_lookup m \<and>
        rlm_default_limiter m' = l'))"
proof (cases "find_by rle_event_type t (bucket_of m t)")
  case None
  then show ?thesis
    using assms by (auto simp: rate_limiter_map_allow_def rlm_lookup_def fun_eq_iff bucket_of_def rlm_ok_def split: prod.splits)
next
  case (Some e)
  then have l: "rlm_lookup m t = Some (rle_limiter e)" by (simp add: rlm_lookup_def)
  obtain b l' where "rate_limiter_allow rnd now (rle_limiter e) = (b, l')" by force
  then show ?thesis
    using assms Some l lookup_put [OF assms(1) l, of l'] bucket_set_bucket [OF assms(1)]
    by (auto simp: rate_limiter_map_allow_def)
qed

lemma find_by_map: "(\<And>x. key (f x) = key x) \<Longrightarrow> find_by key k (map f xs) = map_option f (find_by key k xs)"
  by (induction xs) auto

lemma map_reset_lookup:
  assumes "rlm_ok m"
  shows "rlm_ok (rate_limiter_map_reset rnd now nows m)"
    "rlm_default_limiter (rate_limiter_map_reset rnd now nows m) = rate_limiter_reset rnd now (rlm_default_limiter m)"
    "rlm_lookup (rate_limiter_map_reset rnd now nows m) = (\<lambda>t. map_option (rate_limiter_reset rnd (nows t)) (rlm_lookup m t))"
proof -
  let ?f = "\<lambda>e. e\<lparr>rle_limiter := rate_limiter_reset rnd (nows (rle_event_type e)) (rle_limiter e)\<rparr>"
  show "rlm_ok (rate_limiter_map_reset rnd now nows m)"
    "rlm_default_limiter (rate_limiter_map_reset rnd now nows m) = rate_limiter_reset rnd now (rlm_default_limiter m)"
    using assms by (simp_all add: rlm_ok_def rate_limiter_map_reset_def)
  show "rlm_lookup (rate_limiter_map_reset rnd now nows m) = (\<lambda>t. map_option (rate_limiter_reset rnd (nows t)) (rlm_lookup m t))"
  proof
    fix t
    have "bucket_of (rate_limiter_map_reset rnd now nows m) t = map ?f (bucket_of m t)"
      using assms hash_bound [of t] by (simp add: rlm_ok_def rate_limiter_map_reset_def bucket_of_def)
    then show "rlm_lookup (rate_limiter_map_reset rnd now nows m) t = map_option (rate_limiter_reset rnd (nows t)) (rlm_lookup m t)"
      by (cases "find_by rle_event_type t (bucket_of m t)")
        (auto simp: rlm_lookup_def find_by_map dest: find_by_key)
  qed
qed

lemma map_stats_lookup:
  assumes "rlm_ok m" "rate_limiter_map_stats rnd now m t = (stats, m')"
  shows "rlm_ok m' \<and> (case rlm_lookup m t of
      Some l \<Rightarrow> (\<exists>l'. rate_limiter_stats rnd now l = (stats, l') \<and> rlm_lookup m' = (rlm_lookup m)(t \<mapsto> l') \<and>
        rlm_default_limiter m' = rlm_default_limiter m)
    | None \<Rightarrow> (\<exists>l'. rate_limiter_stats rnd now (rlm_default_limiter m) = (stats, l') \<and> rlm_lookup m' = rlm_lookup m \<and>
        rlm_default_limiter m' = l'))"
proof (cases "find_by rle_event_type t (bucket_of m t)")
  case None
  then show ?thesis
    using assms by (auto simp: rate_limiter_map_stats_def rlm_lookup_def fun_eq_iff bucket_of_def rlm_ok_def split: prod.splits)
next
  case (Some e)
  then have l: "rlm_lookup m t = Some (rle_limiter e)" by (simp add: rlm_lookup_def)
  obtain b l' where "rate_limiter_stats rnd now (rle_limiter e) = (b, l')" by (rule prod.exhaust)
  then show ?thesis
    using assms Some l lookup_put [OF assms(1) l, of l'] bucket_set_bucket [OF assms(1)]
    by (auto simp: rate_limiter_map_stats_def)
qed

text \<open>
  The specification: a default limiter and a finite map from event types to limiters. A client configures types, asks for
  permission, resets, and reads statistics, in any order; every call has its own readings of the clock and allocations.
\<close>

datatype map_op =
    Map_Set alloc rat u32 rat size_t
  | Map_Allow rat u32
  | Map_Reset rat "u32 \<Rightarrow> rat"
  | Map_Stats rat u32

datatype map_result = Bool_Result bool | Stats_Result "u64 \<times> u64 \<times> rat" | No_Result

type_synonym limiter_map = "rate_limiter \<times> (u32 \<rightharpoonup> rate_limiter)"

text \<open>An operation on the limiter that is responsible for a type.\<close>

definition on_limiter :: "(rate_limiter \<Rightarrow> 'a \<times> rate_limiter) \<Rightarrow> u32 \<Rightarrow> limiter_map \<Rightarrow> 'a \<times> limiter_map" where
  "on_limiter f t a =
     (case a of (d, g) \<Rightarrow>
        (case g t of
           Some l \<Rightarrow> (case f l of (r, l') \<Rightarrow> (r, d, g(t \<mapsto> l')))
         | None \<Rightarrow> (case f d of (r, d') \<Rightarrow> (r, d', g))))"

fun spec_op :: "(rat \<Rightarrow> rat) \<Rightarrow> map_op \<Rightarrow> limiter_map \<Rightarrow> map_result \<times> limiter_map" where
  "spec_op rnd (Map_Set mem now t rate burst) (d, g) =
     (case rate_limiter_create mem rnd now rate burst of
        None \<Rightarrow> (Bool_Result False, d, g)
      | Some l \<Rightarrow> if g t = None \<and> \<not> mem 24 then (Bool_Result False, d, g) else (Bool_Result True, d, g(t \<mapsto> l)))"
| "spec_op rnd (Map_Allow now t) a = (case on_limiter (rate_limiter_allow rnd now) t a of (r, a) \<Rightarrow> (Bool_Result r, a))"
| "spec_op rnd (Map_Reset now nows) (d, g) =
     (No_Result, rate_limiter_reset rnd now d, \<lambda>t. map_option (rate_limiter_reset rnd (nows t)) (g t))"
| "spec_op rnd (Map_Stats now t) a = (case on_limiter (rate_limiter_stats rnd now) t a of (r, a) \<Rightarrow> (Stats_Result r, a))"

fun map_op_run :: "(rat \<Rightarrow> rat) \<Rightarrow> map_op \<Rightarrow> rate_limiter_map \<Rightarrow> map_result \<times> rate_limiter_map" where
  "map_op_run rnd (Map_Set mem now t rate burst) m =
     (case rate_limiter_map_set mem rnd now m t rate burst of (r, m) \<Rightarrow> (Bool_Result r, m))"
| "map_op_run rnd (Map_Allow now t) m = (case rate_limiter_map_allow rnd now m t of (r, m) \<Rightarrow> (Bool_Result r, m))"
| "map_op_run rnd (Map_Reset now nows) m = (No_Result, rate_limiter_map_reset rnd now nows m)"
| "map_op_run rnd (Map_Stats now t) m = (case rate_limiter_map_stats rnd now m t of (r, m) \<Rightarrow> (Stats_Result r, m))"

text \<open>A sequence of calls, with all their results.\<close>

fun client_run :: "('o \<Rightarrow> 's \<Rightarrow> 'r \<times> 's) \<Rightarrow> 'o list \<Rightarrow> 's \<Rightarrow> 'r list \<times> 's" where
  "client_run step [] st = ([], st)"
| "client_run step (a # ops) st =
     (case step a st of (r, st) \<Rightarrow> case client_run step ops st of (rs, st) \<Rightarrow> (r # rs, st))"

definition rlm_abs :: "rate_limiter_map \<Rightarrow> limiter_map" where
  "rlm_abs m = (rlm_default_limiter m, rlm_lookup m)"

lemma map_op_refines:
  assumes "rlm_ok m" "map_op_run rnd a m = (r, m')"
  shows "rlm_ok m' \<and> spec_op rnd a (rlm_abs m) = (r, rlm_abs m')"
proof (cases a)
  case (Map_Set mem now t rate burst)
  obtain ok where s: "rate_limiter_map_set mem rnd now m t rate burst = (ok, m')" "r = Bool_Result ok"
    using assms(2) Map_Set by (auto split: prod.splits)
  have "ok \<longleftrightarrow> rate_limiter_create mem rnd now rate burst \<noteq> None \<and> (rlm_lookup m t = None \<longrightarrow> mem 24)"
    using s(1) by (auto simp: rate_limiter_map_set_def rlm_lookup_def split: option.splits if_splits)
  then show ?thesis
    using map_set_lookup [OF assms(1) s(1)] s(2) Map_Set by (auto simp: rlm_abs_def split: option.splits if_splits)
next
  case (Map_Allow now t)
  then obtain b where "rate_limiter_map_allow rnd now m t = (b, m')" "r = Bool_Result b"
    using assms(2) by (auto split: prod.splits)
  then show ?thesis
    using map_allow_lookup [OF assms(1)] Map_Allow by (fastforce simp: rlm_abs_def on_limiter_def split: option.splits)
next
  case (Map_Reset now nows)
  then show ?thesis using map_reset_lookup [OF assms(1)] assms(2) by (auto simp: rlm_abs_def)
next
  case (Map_Stats now t)
  then obtain b where "rate_limiter_map_stats rnd now m t = (b, m')" "r = Stats_Result b"
    using assms(2) by (auto split: prod.splits)
  then show ?thesis
    using map_stats_lookup [OF assms(1)] Map_Stats by (fastforce simp: rlm_abs_def on_limiter_def split: option.splits)
qed

lemma client_run_refines:
  assumes "rlm_ok m" "client_run (map_op_run rnd) ops m = (rs, m')"
  shows "client_run (spec_op rnd) ops (rlm_abs m) = (rs, rlm_abs m')"
  using assms
proof (induction ops arbitrary: m rs)
  case (Cons a ops)
  obtain r m1 where a: "map_op_run rnd a m = (r, m1)" by force
  obtain rs1 where ops: "client_run (map_op_run rnd) ops m1 = (rs1, m')" "rs = r # rs1"
    using Cons.prems(2) a by (auto split: prod.splits)
  show ?case using map_op_refines [OF Cons.prems(1) a] Cons.IH [OF _ ops(1)] ops(2) by auto
qed simp

text \<open>C19. The hash table of limiters is a map with a default: whatever sequence of configurations, requests, resets and
  statistics calls a client makes on a created map, every call returns what it returns on the specification, a default
  limiter and a map from event types to limiters, and the table ends up with the default limiter and the limiters of the
  specification. There, configuring a type installs a fresh limiter for that type and changes no other (so colliding hashes
  do no harm), a request consults and charges exactly the limiter of its type, or the default one (and only it) when the
  type has none, and a reset refills every limiter.\<close>

theorem rate_limiter_map_refines:
  assumes "rate_limiter_map_create mem rnd start rate0 burst0 = Some m0" "client_run (map_op_run rnd) ops m0 = (rs, m)"
  shows "\<exists>d. rate_limiter_create mem rnd start rate0 burst0 = Some d \<and>
    client_run (spec_op rnd) ops (d, Map.empty) = (rs, rlm_default_limiter m, rlm_lookup m)"
proof -
  obtain d where d: "rate_limiter_create mem rnd start rate0 burst0 = Some d" "rlm_ok m0" "rlm_default_limiter m0 = d"
    "rlm_buckets m0 = replicate 256 []"
    using assms(1) by (auto simp: rate_limiter_map_create_def rlm_ok_def split: if_splits)
  have "rlm_abs m0 = (d, Map.empty)"
    using d(3,4) hash_bound by (auto simp: rlm_abs_def rlm_lookup_def bucket_of_def fun_eq_iff)
  then show ?thesis using client_run_refines [OF d(2) assms(2)] d(1) by (simp add: rlm_abs_def)
qed

text \<open>A type with a burst of one: its second request is refused, and another type uses the default limiter.\<close>

theorem rate_limiter_map_refines_witness:
  "\<exists>m0 m. rate_limiter_map_create (\<lambda>_. True) (\<lambda>x. x) 0 5 5 = Some m0 \<and>
     client_run (map_op_run (\<lambda>x. x)) [Map_Set (\<lambda>_. True) 0 7 1 1, Map_Allow 0 7, Map_Allow 0 7, Map_Allow 0 8] m0 =
       ([Bool_Result True, Bool_Result True, Bool_Result False, Bool_Result True], m) \<and>
     rl_tokens (rlm_default_limiter m) = 4"
proof -
  let ?ops = "[Map_Set (\<lambda>_. True) 0 7 1 1, Map_Allow 0 7, Map_Allow 0 7, Map_Allow 0 8]"
  obtain m0 where m0: "rate_limiter_map_create (\<lambda>_. True) (\<lambda>x. x) 0 5 5 = Some m0"
    by (simp add: rate_limiter_map_create_def rate_limiter_create_def)
  obtain rs m where r: "client_run (map_op_run (\<lambda>x. x)) ?ops m0 = (rs, m)" by force
  have "rs = [Bool_Result True, Bool_Result True, Bool_Result False, Bool_Result True]" "rl_tokens (rlm_default_limiter m) = 4"
    using rate_limiter_map_refines [OF m0 r]
    by (auto simp: rate_limiter_create_def on_limiter_def rate_limiter_allow_def refill_tokens_def Let_def to_double_def
      eq_commute [of _ "rlm_default_limiter m"])
  then show ?thesis using m0 r by blast
qed

end
