(* ===== verification/Object_Pool.thy ===== *)
theory Object_Pool
  imports NL_Prelude "HOL-Library.Multiset"
begin

text \<open>
  The object pool of \<^verbatim>\<open>src/src/core/object_pool.c\<close> and the pools of events and of filter contexts built on
  it (\<^verbatim>\<open>event_pool.c\<close>, \<^verbatim>\<open>filter_pool.c\<close>). Memory is a map from the addresses of live objects to their
  contents; what \<open>calloc\<close> returns is an argument (\<open>None\<close>: NULL). Calls do not overlap here: each operation holds the
  mutex while it uses the free list, but zeroes the object and updates the counters of allocations outside of it (the
  counters atomically), so of concurrent calls the model describes the free list, not the intermediate values of
  those counters. Freeing a dead object is undefined.
\<close>

section \<open>Pool\<close>

type_synonym addr = nat

type_synonym 'c heap = "addr \<Rightarrow> 'c option"

record object_pool =
  op_objects :: "addr option list"
  op_object_size :: size_t
  op_capacity :: nat
  op_free_count :: nat
  op_allocated :: size_t
  op_peak_usage :: size_t
  op_total_allocs :: u64
  op_total_frees :: u64
  op_pool_hits :: u64
  op_pool_misses :: u64

text \<open>\<open>objs\<close>: the objects \<open>calloc\<close> gave, fewer than the capacity when one allocation failed.\<close>

definition object_pool_create :: "alloc \<Rightarrow> addr list \<Rightarrow> size_t \<Rightarrow> nat \<Rightarrow> object_pool option" where
  "object_pool_create mem objs object_size capacity =
     (if object_size = 0 \<or> capacity = 0 then None
      else if \<not> mem 120 \<or> \<not> mem (capacity * 8) then None
      else if length objs < capacity then None
      else Some \<lparr>op_objects = map Some (take capacity objs), op_object_size = object_size, op_capacity = capacity,
             op_free_count = capacity, op_allocated = 0, op_peak_usage = 0, op_total_allocs = 0,
             op_total_frees = 0, op_pool_hits = 0, op_pool_misses = 0\<rparr>)"

text \<open>Free a list of objects; NULL is skipped.\<close>

fun free_all :: "addr option list \<Rightarrow> 'c heap \<Rightarrow> 'c heap outcome" where
  "free_all [] heap = Ok heap"
| "free_all (None # objs) heap = free_all objs heap"
| "free_all (Some a # objs) heap = (if heap a = None then UB else free_all objs (heap(a := None)))"

definition object_pool_destroy :: "object_pool \<Rightarrow> 'c heap \<Rightarrow> 'c heap outcome" where
  "object_pool_destroy pool heap = free_all (take (op_capacity pool) (op_objects pool)) heap"

text \<open>\<open>zero\<close> is the content of a zeroed object; \<open>fresh\<close> what \<open>calloc\<close> returns when the pool is empty.\<close>

definition object_pool_alloc ::
  "'c \<Rightarrow> addr option \<Rightarrow> object_pool \<Rightarrow> 'c heap \<Rightarrow> addr option \<times> object_pool \<times> 'c heap" where
  "object_pool_alloc zero fresh pool heap =
     (let (obj, pool) =
        (if op_free_count pool > 0 then
           let free_count = op_free_count pool - 1
           in (op_objects pool ! free_count,
               pool\<lparr>op_objects := (op_objects pool)[free_count := None], op_free_count := free_count,
                    op_pool_hits := op_pool_hits pool + 1\<rparr>)
         else (fresh, pool\<lparr>op_pool_misses := op_pool_misses pool + 1\<rparr>))
      in case obj of
           None \<Rightarrow> (None, pool, heap)
         | Some a \<Rightarrow>
           let allocated = op_allocated pool + 1
           in (obj, pool\<lparr>op_allocated := allocated, op_total_allocs := op_total_allocs pool + 1,
                     op_peak_usage := (if allocated > op_peak_usage pool then allocated else op_peak_usage pool)\<rparr>,
               heap(a \<mapsto> zero)))"

definition object_pool_free ::
  "'c \<Rightarrow> object_pool \<Rightarrow> addr option \<Rightarrow> 'c heap \<Rightarrow> (object_pool \<times> 'c heap) outcome" where
  "object_pool_free zero pool obj heap =
     (case obj of None \<Rightarrow> Ok (pool, heap)
      | Some a \<Rightarrow>
        if heap a = None then UB
        else let heap = heap(a \<mapsto> zero);
                 (pool, heap) =
                   (if op_free_count pool < op_capacity pool
                    then (pool\<lparr>op_objects := (op_objects pool)[op_free_count pool := Some a],
                              op_free_count := op_free_count pool + 1\<rparr>, heap)
                    else (pool, heap(a := None)))
             in Ok (pool\<lparr>op_allocated := op_allocated pool - 1, op_total_frees := op_total_frees pool + 1\<rparr>, heap))"

record object_pool_stats =
  ops_capacity :: nat
  ops_allocated :: size_t
  ops_peak_usage :: size_t
  ops_total_allocs :: u64
  ops_total_frees :: u64
  ops_pool_hits :: u64
  ops_pool_misses :: u64

definition object_pool_get_stats :: "object_pool \<Rightarrow> object_pool_stats" where
  "object_pool_get_stats pool =
     \<lparr>ops_capacity = op_capacity pool, ops_allocated = op_allocated pool, ops_peak_usage = op_peak_usage pool,
      ops_total_allocs = op_total_allocs pool, ops_total_frees = op_total_frees pool,
      ops_pool_hits = op_pool_hits pool, ops_pool_misses = op_pool_misses pool\<rparr>"

definition object_pool_reset_stats :: "object_pool \<Rightarrow> object_pool" where
  "object_pool_reset_stats pool =
     pool\<lparr>op_total_allocs := 0, op_total_frees := 0, op_pool_hits := 0, op_pool_misses := 0\<rparr>"

definition object_pool_get_usage :: "object_pool \<Rightarrow> size_t" where
  "object_pool_get_usage pool = op_allocated pool"

definition object_pool_get_capacity :: "object_pool \<Rightarrow> nat" where
  "object_pool_get_capacity pool = op_capacity pool"

section \<open>Pools of events and of filters\<close>

text \<open>The parts of the pooled structures that freeing looks at: pointers to separately allocated data.\<close>

record nlmon_event_pooled =
  evp_timestamp :: u64
  evp_sequence :: u64
  evp_event_type :: u32
  evp_message_type :: u16
  evp_interface :: string
  evp_namespace :: string
  evp_data :: "addr option"
  evp_data_size :: size_t
  evp_user_data :: "addr option"

definition zero_event_pooled :: nlmon_event_pooled where
  "zero_event_pooled = \<lparr>evp_timestamp = 0, evp_sequence = 0, evp_event_type = 0, evp_message_type = 0,
     evp_interface = [], evp_namespace = [], evp_data = None, evp_data_size = 0, evp_user_data = None\<rparr>"

record filter_context =
  fc_expression :: "addr option"
  fc_compiled :: "addr option"
  fc_compiled_size :: size_t
  fc_ref_count :: i32

definition zero_filter_context :: filter_context where
  "zero_filter_context = \<lparr>fc_expression = None, fc_compiled = None, fc_compiled_size = 0, fc_ref_count = 0\<rparr>"

text \<open>Separately allocated data: the set of live addresses.\<close>

definition free_data :: "addr option \<Rightarrow> addr set \<Rightarrow> addr set outcome" where
  "free_data p live = (case p of None \<Rightarrow> Ok live | Some a \<Rightarrow> if a \<in> live then Ok (live - {a}) else UB)"

definition event_pool_create :: "alloc \<Rightarrow> addr list \<Rightarrow> nat \<Rightarrow> object_pool option" where
  "event_pool_create mem objs capacity = (if mem 8 then object_pool_create mem objs 320 capacity else None)"

definition event_pool_destroy :: "object_pool \<Rightarrow> nlmon_event_pooled heap \<Rightarrow> nlmon_event_pooled heap outcome" where
  "event_pool_destroy pool heap = object_pool_destroy pool heap"

definition event_pool_alloc ::
  "addr option \<Rightarrow> object_pool \<Rightarrow> nlmon_event_pooled heap \<Rightarrow> addr option \<times> object_pool \<times> nlmon_event_pooled heap" where
  "event_pool_alloc = object_pool_alloc zero_event_pooled"

definition event_pool_free ::
  "object_pool \<Rightarrow> addr option \<Rightarrow> nlmon_event_pooled heap \<Rightarrow> addr set \<Rightarrow>
     (object_pool \<times> nlmon_event_pooled heap \<times> addr set) outcome" where
  "event_pool_free pool event heap live =
     (case event of None \<Rightarrow> Ok (pool, heap, live)
      | Some a \<Rightarrow>
        (case heap a of None \<Rightarrow> UB
         | Some ev \<Rightarrow>
           bind_outcome (free_data (evp_data ev) live) (\<lambda>live.
           bind_outcome (object_pool_free zero_event_pooled pool event (heap(a \<mapsto> ev\<lparr>evp_data := None\<rparr>))) (\<lambda>(pool, heap).
             Ok (pool, heap, live)))))"

definition filter_pool_create :: "alloc \<Rightarrow> addr list \<Rightarrow> nat \<Rightarrow> object_pool option" where
  "filter_pool_create mem objs capacity = (if mem 8 then object_pool_create mem objs 32 capacity else None)"

definition event_pool_get_stats :: "object_pool \<Rightarrow> object_pool_stats" where
  "event_pool_get_stats pool = object_pool_get_stats pool"

definition event_pool_get_usage :: "object_pool \<Rightarrow> size_t" where
  "event_pool_get_usage pool = object_pool_get_usage pool"

definition filter_pool_destroy :: "object_pool \<Rightarrow> filter_context heap \<Rightarrow> filter_context heap outcome" where
  "filter_pool_destroy pool heap = object_pool_destroy pool heap"

definition filter_pool_get_stats :: "object_pool \<Rightarrow> object_pool_stats" where
  "filter_pool_get_stats pool = object_pool_get_stats pool"

definition filter_pool_get_usage :: "object_pool \<Rightarrow> size_t" where
  "filter_pool_get_usage pool = object_pool_get_usage pool"

definition filter_pool_alloc ::
  "addr option \<Rightarrow> object_pool \<Rightarrow> filter_context heap \<Rightarrow> addr option \<times> object_pool \<times> filter_context heap" where
  "filter_pool_alloc = object_pool_alloc zero_filter_context"

definition filter_pool_free ::
  "object_pool \<Rightarrow> addr option \<Rightarrow> filter_context heap \<Rightarrow> addr set \<Rightarrow>
     (object_pool \<times> filter_context heap \<times> addr set) outcome" where
  "filter_pool_free pool flt heap live =
     (case flt of None \<Rightarrow> Ok (pool, heap, live)
      | Some a \<Rightarrow>
        (case heap a of None \<Rightarrow> UB
         | Some fc \<Rightarrow>
           bind_outcome (free_data (fc_expression fc) live) (\<lambda>live.
           bind_outcome (free_data (fc_compiled fc) live) (\<lambda>live.
           bind_outcome (object_pool_free zero_filter_context pool flt
               (heap(a \<mapsto> fc\<lparr>fc_expression := None, fc_compiled := None\<rparr>))) (\<lambda>(pool, heap).
             Ok (pool, heap, live))))))"

section \<open>Who owns an object\<close>

text \<open>
  A client of the pool: the objects it holds, as a multiset so that handing one out twice would show.
  Steps: allocate (\<open>calloc\<close> returns an address that is not in use), write to a held object, give one
  back, reset the statistics.
\<close>

record 'c pool_sys =
  ps_pool :: object_pool
  ps_heap :: "'c heap"
  ps_held :: "addr multiset"

inductive pool_step :: "'c \<Rightarrow> 'c pool_sys \<Rightarrow> 'c pool_sys \<Rightarrow> bool" for zero where
  ps_alloc: "case fresh of None \<Rightarrow> True | Some a \<Rightarrow> ps_heap s a = None \<Longrightarrow>
    object_pool_alloc zero fresh (ps_pool s) (ps_heap s) = (obj, pool, heap) \<Longrightarrow>
    pool_step zero s (s\<lparr>ps_pool := pool, ps_heap := heap,
      ps_held := (case obj of None \<Rightarrow> ps_held s | Some a \<Rightarrow> add_mset a (ps_held s))\<rparr>)"
| ps_write: "a \<in># ps_held s \<Longrightarrow> pool_step zero s (s\<lparr>ps_heap := (ps_heap s)(a \<mapsto> c)\<rparr>)"
| ps_free: "a \<in># ps_held s \<Longrightarrow> object_pool_free zero (ps_pool s) (Some a) (ps_heap s) = Ok (pool, heap) \<Longrightarrow>
    pool_step zero s (s\<lparr>ps_pool := pool, ps_heap := heap, ps_held := ps_held s - {#a#}\<rparr>)"
| ps_reset: "pool_step zero s (s\<lparr>ps_pool := object_pool_reset_stats (ps_pool s)\<rparr>)"

definition free_list :: "object_pool \<Rightarrow> addr list" where
  "free_list pool = map the (take (op_free_count pool) (op_objects pool))"

text \<open>The first slots hold the free objects, the others are NULL.\<close>

definition pool_shape :: "object_pool \<Rightarrow> bool" where
  "pool_shape pool \<longleftrightarrow> op_free_count pool \<le> op_capacity pool \<and> length (op_objects pool) = op_capacity pool \<and>
     op_objects pool = map Some (free_list pool) @ replicate (op_capacity pool - op_free_count pool) None"

definition pool_inv :: "'c \<Rightarrow> 'c pool_sys \<Rightarrow> bool" where
  "pool_inv zero s \<longleftrightarrow> pool_shape (ps_pool s) \<and>
     (\<forall>a. count (mset (free_list (ps_pool s)) + ps_held s) a \<le> 1) \<and>
     (\<forall>a \<in># ps_held s. ps_heap s a \<noteq> None) \<and> (\<forall>a \<in> set (free_list (ps_pool s)). ps_heap s a = Some zero) \<and>
     op_allocated (ps_pool s) = of_nat (size (ps_held s))"

lemma length_free_list: "pool_shape pool \<Longrightarrow> length (free_list pool) = op_free_count pool"
  by (simp add: pool_shape_def free_list_def)

lemma pool_shapeI:
  "op_objects pool = map Some fs @ replicate (op_capacity pool - length fs) None \<Longrightarrow> op_free_count pool = length fs \<Longrightarrow>
     length fs \<le> op_capacity pool \<Longrightarrow> pool_shape pool \<and> free_list pool = fs"
  by (simp add: pool_shape_def free_list_def)

lemma pool_create_shape:
  "object_pool_create mem objs sz capacity = Some pool \<Longrightarrow> pool_shape pool \<and> free_list pool = take capacity objs \<and>
     op_allocated pool = 0 \<and> op_capacity pool = capacity"
  by (auto simp: object_pool_create_def pool_shape_def free_list_def split: if_splits)

lemma pool_alloc_cases:
  assumes "pool_shape pool" "object_pool_alloc zero fresh pool heap = (obj, pool', heap')"
  obtains (hit) fs a where "free_list pool = fs @ [a]" "obj = Some a" "pool_shape pool'" "free_list pool' = fs"
      "op_allocated pool' = op_allocated pool + 1" "heap' = heap(a \<mapsto> zero)"
  | (miss) a where "free_list pool = []" "fresh = Some a" "obj = Some a" "pool_shape pool'" "free_list pool' = []"
      "op_allocated pool' = op_allocated pool + 1" "heap' = heap(a \<mapsto> zero)"
  | (none) "free_list pool = []" "obj = None" "pool_shape pool'" "free_list pool' = []"
      "op_allocated pool' = op_allocated pool" "heap' = heap"
proof (cases "op_free_count pool > 0")
  case True
  then obtain fs a where fs: "free_list pool = fs @ [a]" "op_free_count pool = Suc (length fs)"
    using length_free_list [OF assms(1)] by (cases "free_list pool" rule: rev_cases) auto
  have o: "op_objects pool = map Some (fs @ [a]) @ replicate (op_capacity pool - Suc (length fs)) None"
    using assms(1) fs by (simp add: pool_shape_def)
  have cap: "Suc (length fs) \<le> op_capacity pool" using assms(1) fs by (simp add: pool_shape_def)
  have nth: "op_objects pool ! length fs = Some a" unfolding o by (simp add: nth_append)
  have "(op_objects pool)[length fs := None] = map Some fs @ replicate (op_capacity pool - length fs) None"
    unfolding o using cap by (simp add: list_update_append Suc_diff_Suc flip: replicate_Suc)
  moreover have r: "obj = Some a" "heap' = heap(a \<mapsto> zero)" "op_objects pool' = (op_objects pool)[length fs := None]"
    "op_free_count pool' = length fs" "op_capacity pool' = op_capacity pool" "op_allocated pool' = op_allocated pool + 1"
    using assms(2) fs(2) nth by (simp_all add: object_pool_alloc_def Let_def split: if_splits) force+
  ultimately have "pool_shape pool' \<and> free_list pool' = fs" using cap by (intro pool_shapeI) simp_all
  then show thesis using fs(1) r by (intro hit [of fs a]) simp_all
next
  case False
  then have e: "free_list pool = []" "op_free_count pool = 0" using length_free_list [OF assms(1)] by auto
  then have "op_objects pool = replicate (op_capacity pool) None" using assms(1) by (simp add: pool_shape_def)
  then have s: "pool_shape pool' \<and> free_list pool' = []"
    using assms(2) e(2) by (intro pool_shapeI) (auto simp: object_pool_alloc_def Let_def split: option.splits)
  show thesis
  proof (cases fresh)
    case None
    then show thesis using assms(2) e s by (intro none) (auto simp: object_pool_alloc_def Let_def)
  next
    case (Some a)
    then show thesis using assms(2) e s by (intro miss [of a]) (auto simp: object_pool_alloc_def Let_def)
  qed
qed

lemma pool_free_cases:
  assumes "pool_shape pool" "heap a \<noteq> None"
  obtains (kept) pool' where "object_pool_free zero pool (Some a) heap = Ok (pool', heap(a \<mapsto> zero))" "pool_shape pool'"
      "free_list pool' = free_list pool @ [a]" "op_allocated pool' = op_allocated pool - 1"
  | (released) pool' where "object_pool_free zero pool (Some a) heap = Ok (pool', heap(a := None))" "pool_shape pool'"
      "free_list pool' = free_list pool" "op_allocated pool' = op_allocated pool - 1"
proof (cases "op_free_count pool < op_capacity pool")
  case True
  let ?p = "pool\<lparr>op_objects := (op_objects pool)[op_free_count pool := Some a], op_free_count := op_free_count pool + 1,
    op_allocated := op_allocated pool - 1, op_total_frees := op_total_frees pool + 1\<rparr>"
  have o: "op_objects pool = map Some (free_list pool) @ replicate (op_capacity pool - op_free_count pool) None"
    using assms(1) by (simp add: pool_shape_def)
  have len: "length (free_list pool) = op_free_count pool" using assms(1) by (rule length_free_list)
  have "(op_objects pool)[op_free_count pool := Some a] =
      map Some (free_list pool @ [a]) @ replicate (op_capacity pool - Suc (op_free_count pool)) None"
  proof -
    obtain n where "op_capacity pool - op_free_count pool = Suc n" using True by (metis Suc_diff_Suc)
    moreover then have "op_capacity pool - Suc (op_free_count pool) = n" by simp
    ultimately show ?thesis using o len by (simp add: list_update_append)
  qed
  then have "pool_shape ?p \<and> free_list ?p = free_list pool @ [a]"
    using True len by (intro pool_shapeI) auto
  then show thesis using kept [of ?p] True assms(2) by (simp add: object_pool_free_def Let_def)
next
  case False
  let ?p = "pool\<lparr>op_allocated := op_allocated pool - 1, op_total_frees := op_total_frees pool + 1\<rparr>"
  have "pool_shape ?p" "free_list ?p = free_list pool" using assms(1) by (simp_all add: pool_shape_def free_list_def)
  then show thesis using released [of ?p] False assms(2) by (simp add: object_pool_free_def Let_def)
qed

lemma pool_inv_once:
  assumes "pool_inv zero s"
  shows "count (ps_held s) a \<le> 1" "count (mset (free_list (ps_pool s))) a \<le> 1"
    "a \<in># ps_held s \<Longrightarrow> a \<notin> set (free_list (ps_pool s))"
proof -
  have le: "count (mset (free_list (ps_pool s))) a + count (ps_held s) a \<le> 1"
    using assms by (simp add: pool_inv_def)
  from le show "count (ps_held s) a \<le> 1" "count (mset (free_list (ps_pool s))) a \<le> 1" by linarith+
  assume "a \<in># ps_held s"
  then have "0 < count (ps_held s) a" by simp
  then have "count (mset (free_list (ps_pool s))) a = 0" using le by linarith
  then show "a \<notin> set (free_list (ps_pool s))" by simp
qed

lemma pool_step_inv:
  assumes "pool_step zero s t" "pool_inv zero s"
  shows "pool_inv zero t"
  using assms(1)
proof cases
  case (ps_alloc fresh obj pool heap)
  note inv = assms(2) [unfolded pool_inv_def]
  have shape: "pool_shape (ps_pool s)" using inv by simp
  show ?thesis
  proof (cases rule: pool_alloc_cases [OF shape ps_alloc(3), case_names hit miss none])
    case (hit fs a)
    have "count (mset fs + ps_held s) b \<le> 1 \<and> (b = a \<longrightarrow> count (mset fs + ps_held s) b = 0)" for b
    proof -
      have "count (mset (fs @ [a]) + ps_held s) b \<le> 1" using inv hit(1) by metis
      then show ?thesis by (cases "b = a") (simp_all del: count_mset_0_iff add_is_0)
    qed
    moreover have "ps_heap s b = Some zero" if "b \<in> set fs" for b using inv hit(1) that by simp
    ultimately show ?thesis
      using inv ps_alloc(1) hit by (auto simp: pool_inv_def count_eq_zero_iff)
  next
    case (miss a)
    have "a \<notin># ps_held s" using inv ps_alloc(2) miss(2) by auto
    then show ?thesis
      using inv ps_alloc(1) miss by (auto simp: pool_inv_def not_in_iff)
  next
    case none
    then show ?thesis using inv ps_alloc(1) by (simp add: pool_inv_def)
  qed
next
  case (ps_write a c)
  then have "a \<notin> set (free_list (ps_pool s))" using pool_inv_once(3) [OF assms(2)] by simp
  then show ?thesis using ps_write assms(2) by (auto simp: pool_inv_def)
next
  case (ps_free a pool heap)
  note inv = assms(2) [unfolded pool_inv_def]
  have shape: "pool_shape (ps_pool s)" and live: "ps_heap s a \<noteq> None" using inv ps_free(2) by auto
  have na: "a \<notin> set (free_list (ps_pool s))" using pool_inv_once(3) [OF assms(2) ps_free(2)] .
  moreover have c1: "count (ps_held s) a = 1"
    using pool_inv_once(1) [OF assms(2), of a] ps_free(2) by (simp add: le_antisym Suc_leI)
  ultimately have one: "count (mset (free_list (ps_pool s))) a = 0" "count (ps_held s) a = 1" "a \<notin># ps_held s - {#a#}"
    by (simp_all add: not_in_iff)
  have sz: "of_nat (size (ps_held s - {#a#})) = (of_nat (size (ps_held s)) - 1 :: size_t)"
    using ps_free(2) by (metis add_diff_cancel_left' insert_DiffM of_nat_Suc size_add_mset)
  show ?thesis
  proof (cases rule: pool_free_cases [where heap = "ps_heap s" and a = a and zero = zero, OF shape live, case_names kept released])
    case (kept pool')
    then show ?thesis
      using inv ps_free one na sz by (auto simp: pool_inv_def dest: in_diffD)
  next
    case (released pool')
    then show ?thesis
      using inv ps_free one na sz by (auto simp: pool_inv_def le_diff_conv dest: in_diffD intro: le_SucI)
  qed
next
  case ps_reset
  then show ?thesis
    using assms(2) by (simp add: pool_inv_def pool_shape_def free_list_def object_pool_reset_stats_def)
qed

lemma free_all_ok:
  assumes "distinct fs" "\<forall>a \<in> set fs. heap a \<noteq> None"
  shows "free_all (map Some fs @ replicate n None) heap = Ok (\<lambda>a. if a \<in> set fs then None else heap a)"
  using assms
proof (induction fs arbitrary: heap)
  case Nil
  have "free_all (replicate n None) heap = Ok heap" by (induction n) auto
  then show ?case by simp
next
  case (Cons a fs)
  have "free_all (map Some fs @ replicate n None) (heap(a := None)) =
      Ok (\<lambda>b. if b \<in> set fs then None else (heap(a := None)) b)"
    using Cons.prems by (intro Cons.IH) auto
  then show ?case using Cons.prems by (auto simp: fun_eq_iff)
qed

lemma distinct_count_le: "distinct xs \<longleftrightarrow> (\<forall>a. count (mset xs) a \<le> 1)"
proof
  assume "distinct xs"
  then show "\<forall>a. count (mset xs) a \<le> 1" by (simp add: distinct_count_atmost_1)
next
  assume le: "\<forall>a. count (mset xs) a \<le> 1"
  then show "distinct xs"
  proof (induction xs)
    case (Cons x xs)
    have "count (mset xs) a \<le> 1" for a
      using Cons.prems [rule_format, of a] by (simp del: count_mset_0_iff split: if_splits)
    moreover have "x \<notin> set xs" using Cons.prems [rule_format, of x] by (simp add: count_mset_0_iff)
    ultimately show ?case using Cons.IH by simp
  qed simp
qed

text \<open>C18. The pool never hands out an object twice: starting from a new pool and through any sequence of
  allocations, writes and releases, the objects a client holds are pairwise different, live, and not in
  the free list; the next allocation (if it succeeds) gives a zeroed object that nobody holds; giving
  back a held object is never a double free; the usage count is the number of held objects; and
  destroying the pool frees each object of its free list exactly once and no held one.\<close>

theorem object_pool_exclusive:
  assumes "object_pool_create mem objs sz capacity = Some pool" "distinct objs" "\<forall>a \<in> set objs. heap a = Some zero"
    and "(pool_step zero)\<^sup>*\<^sup>* \<lparr>ps_pool = pool, ps_heap = heap, ps_held = {#}\<rparr> s"
  shows "(\<forall>a. count (ps_held s) a \<le> 1) \<and>
    (\<forall>a \<in># ps_held s. ps_heap s a \<noteq> None \<and> a \<notin> set (free_list (ps_pool s)) \<and>
       (\<exists>pool' heap'. object_pool_free zero (ps_pool s) (Some a) (ps_heap s) = Ok (pool', heap'))) \<and>
    (\<forall>fresh a pool' heap'. (case fresh of None \<Rightarrow> True | Some b \<Rightarrow> ps_heap s b = None) \<longrightarrow>
       object_pool_alloc zero fresh (ps_pool s) (ps_heap s) = (Some a, pool', heap') \<longrightarrow>
       a \<notin># ps_held s \<and> heap' a = Some zero) \<and>
    object_pool_get_usage (ps_pool s) = of_nat (size (ps_held s)) \<and>
    object_pool_destroy (ps_pool s) (ps_heap s) =
      Ok (\<lambda>a. if a \<in> set (free_list (ps_pool s)) then None else ps_heap s a)"
proof -
  have start: "pool_inv zero \<lparr>ps_pool = pool, ps_heap = heap, ps_held = {#}\<rparr>"
    using pool_create_shape [OF assms(1)] assms(3) distinct_take [OF assms(2), of capacity]
    by (auto simp: pool_inv_def distinct_count_le dest: in_set_takeD)
  have inv: "pool_inv zero s"
    using assms(4) start by (induction rule: rtranclp_induct) (auto intro: pool_step_inv)
  then have shape: "pool_shape (ps_pool s)" and live: "\<And>a. a \<in># ps_held s \<Longrightarrow> ps_heap s a \<noteq> None"
    and idle: "\<forall>a \<in> set (free_list (ps_pool s)). ps_heap s a \<noteq> None"
    and usage: "op_allocated (ps_pool s) = of_nat (size (ps_held s))"
    by (auto simp: pool_inv_def)
  note held = pool_inv_once [OF inv]
  have free: "\<exists>pool' heap'. object_pool_free zero (ps_pool s) (Some a) (ps_heap s) = Ok (pool', heap')" if "a \<in># ps_held s" for a
    by (cases rule: pool_free_cases [where heap = "ps_heap s" and a = a and zero = zero, OF shape live [OF that]]) blast+
  have alloc: "a \<notin># ps_held s \<and> heap' a = Some zero"
    if "case fresh of None \<Rightarrow> True | Some b \<Rightarrow> ps_heap s b = None"
      "object_pool_alloc zero fresh (ps_pool s) (ps_heap s) = (Some a, pool', heap')" for fresh a pool' heap'
  proof (cases rule: pool_alloc_cases [OF shape that(2), case_names hit miss none])
    case (hit fs a')
    then show ?thesis using held(3) [of a] by auto
  next
    case (miss a')
    then show ?thesis using live [of a] that(1) by auto
  qed simp
  have d: "distinct (free_list (ps_pool s))" using held(2) by (simp add: distinct_count_le)
  have "take (op_capacity (ps_pool s)) (op_objects (ps_pool s)) = op_objects (ps_pool s)"
    using shape unfolding pool_shape_def by (intro take_all) linarith
  moreover have "\<exists>n. op_objects (ps_pool s) = map Some (free_list (ps_pool s)) @ replicate n None"
    using shape unfolding pool_shape_def by blast
  ultimately have "object_pool_destroy (ps_pool s) (ps_heap s) =
      Ok (\<lambda>a. if a \<in> set (free_list (ps_pool s)) then None else ps_heap s a)"
    using free_all_ok [OF d idle] by (auto simp: object_pool_destroy_def)
  then show ?thesis
    using held(1,3) free alloc live usage unfolding object_pool_get_usage_def by blast
qed

theorem object_pool_exclusive_witness:
  "\<exists>pool s. object_pool_create (\<lambda>_. True) [10, 20] 8 2 = Some pool \<and>
     (pool_step 0)\<^sup>*\<^sup>* \<lparr>ps_pool = pool, ps_heap = (\<lambda>_. None)(10 \<mapsto> 0, 20 \<mapsto> 0), ps_held = {#}\<rparr> s \<and>
     ps_held s = {#20#} \<and> ps_heap s 20 = Some (7 :: nat) \<and> free_list (ps_pool s) = [10] \<and>
     object_pool_get_usage (ps_pool s) = 1"
proof -
  let ?heap = "(\<lambda>_. None)(10 \<mapsto> 0, 20 \<mapsto> 0 :: nat)"
  obtain pool where pool: "object_pool_create (\<lambda>_. True) [10, 20] 8 2 = Some pool"
    by (simp add: object_pool_create_def)
  let ?s0 = "\<lparr>ps_pool = pool, ps_heap = ?heap, ps_held = {#}\<rparr>"
  obtain pool' where alloc: "object_pool_alloc 0 None pool ?heap = (Some 20, pool', ?heap)" "free_list pool' = [10]"
    using pool by (auto simp: object_pool_create_def object_pool_alloc_def free_list_def fun_eq_iff Let_def)
  let ?s1 = "?s0\<lparr>ps_pool := pool', ps_heap := ?heap, ps_held := {#20#}\<rparr>"
  let ?s2 = "?s1\<lparr>ps_heap := ?heap(20 \<mapsto> 7)\<rparr>"
  have "pool_step 0 ?s0 ?s1" using pool_step.ps_alloc [where fresh = None and s = ?s0 and zero = 0] alloc by simp
  moreover have "pool_step 0 ?s1 ?s2" using pool_step.ps_write [where a = 20 and s = ?s1 and zero = 0 and c = 7] by simp
  ultimately have run: "(pool_step 0)\<^sup>*\<^sup>* ?s0 ?s2" by simp
  have "object_pool_get_usage (ps_pool ?s2) = of_nat (size (ps_held ?s2))"
    using object_pool_exclusive [OF pool _ _ run] by simp
  then show ?thesis using pool run alloc(2) by (intro exI [of _ pool] exI [of _ ?s2]) simp
qed

end
