(* ===== verification/Thread_Pool.thy ===== *)
theory Thread_Pool
  imports NL_Prelude "HOL-Library.Multiset"
begin

text \<open>
  The worker thread pool of \<^verbatim>\<open>src/src/core/thread_pool.c\<close>: the work queues, the operations on them, and the
  pool as a transition system in which the workers, the clients that submit work, the clients that wait for it and the
  thread that destroys the pool interleave between the places where they take or leave the mutex. The linked list
  of each priority is a list; \<open>queue_size\<close> and \<open>active_threads\<close> count objects and threads and are natural
  numbers, the statistics wrap at 64 bits. A work function returns.
\<close>

section \<open>Work queues\<close>

record 'w work_item =
  wi_work :: 'w
  wi_priority :: nat

abbreviation PRIORITY_NORMAL :: nat where "PRIORITY_NORMAL \<equiv> 1"

abbreviation PRIORITY_MAX :: nat where "PRIORITY_MAX \<equiv> 3"

record 'w thread_pool =
  tp_num_threads :: nat
  tp_queue :: "nat \<Rightarrow> 'w work_item list"
  tp_queue_size :: nat
  tp_max_queue_size :: nat
  tp_shutdown :: bool
  tp_immediate_shutdown :: bool
  tp_active_threads :: nat
  tp_submitted_count :: u64
  tp_completed_count :: u64
  tp_rejected_count :: u64

text \<open>\<open>nprocs\<close>: what \<open>sysconf\<close> returns.\<close>

definition get_cpu_count :: "int \<Rightarrow> nat" where
  "get_cpu_count nprocs = (if nprocs \<le> 0 then 1 else nat nprocs)"

text \<open>
  Up to the allocation of the thread handles; \<open>thread_pool_start\<close> and \<open>thread_pool_start_failed\<close> below are the loop that starts
  the threads. Initialising mutex and condition variables with default attributes does not fail in glibc.
\<close>

definition thread_pool_create :: "alloc \<Rightarrow> int \<Rightarrow> nat \<Rightarrow> nat \<Rightarrow> 'w thread_pool option" where
  "thread_pool_create mem nprocs num_threads queue_size =
     (if \<not> mem 256 then None
      else let num_threads = (if num_threads = 0 then get_cpu_count nprocs else num_threads)
        in if \<not> mem (num_threads * 8) then None
           else Some \<lparr>tp_num_threads = num_threads, tp_queue = (\<lambda>_. []), tp_queue_size = 0,
                  tp_max_queue_size = queue_size, tp_shutdown = False, tp_immediate_shutdown = False,
                  tp_active_threads = 0, tp_submitted_count = 0, tp_completed_count = 0, tp_rejected_count = 0\<rparr>)"

text \<open>The search for the first queue with work, from priority \<open>p - 1\<close> down.\<close>

fun take_from :: "nat \<Rightarrow> 'w thread_pool \<Rightarrow> 'w work_item option \<times> 'w thread_pool" where
  "take_from 0 pool = (None, pool)"
| "take_from (Suc p) pool =
     (case tp_queue pool p of
        [] \<Rightarrow> take_from p pool
      | w # ws \<Rightarrow> (Some w, pool\<lparr>tp_queue := (tp_queue pool)(p := ws), tp_queue_size := tp_queue_size pool - 1\<rparr>))"

text \<open>What a worker that holds the mutex does: wait, leave, or take work.\<close>

datatype 'w decision = Do_Wait | Do_Leave | Do_Work "'w work_item option"

definition worker_locked :: "'w thread_pool \<Rightarrow> 'w decision \<times> 'w thread_pool" where
  "worker_locked pool =
     (if tp_queue_size pool = 0 \<and> \<not> tp_shutdown pool then (Do_Wait, pool)
      else if tp_immediate_shutdown pool then (Do_Leave, pool)
      else if tp_shutdown pool \<and> tp_queue_size pool = 0 then (Do_Leave, pool)
      else map_prod Do_Work id (take_from PRIORITY_MAX pool))"

definition normal_priority :: "u32 \<Rightarrow> nat" where
  "normal_priority priority = (if priority \<ge> 3 then PRIORITY_NORMAL else unat priority)"

text \<open>
  The parts of a submission between which other threads may run: reading the shutdown flag, without the mutex; the first
  critical section, which checks the size; and, after the allocation, the second one, which inserts.
\<close>

definition submit_open :: "'w thread_pool \<Rightarrow> bool" where
  "submit_open pool \<longleftrightarrow> \<not> tp_shutdown pool"

definition submit_check :: "'w thread_pool \<Rightarrow> bool \<times> 'w thread_pool" where
  "submit_check pool =
     (if tp_max_queue_size pool > 0 \<and> tp_queue_size pool \<ge> tp_max_queue_size pool
      then (False, pool\<lparr>tp_rejected_count := tp_rejected_count pool + 1\<rparr>)
      else (True, pool))"

definition submit_enqueue :: "'w work_item \<Rightarrow> 'w thread_pool \<Rightarrow> 'w thread_pool" where
  "submit_enqueue work pool =
     pool\<lparr>tp_queue := (tp_queue pool)(wi_priority work := tp_queue pool (wi_priority work) @ [work]),
       tp_queue_size := tp_queue_size pool + 1, tp_submitted_count := tp_submitted_count pool + 1\<rparr>"

text \<open>A submission with no other thread in between.\<close>

definition thread_pool_submit :: "alloc \<Rightarrow> 'w option \<Rightarrow> u32 \<Rightarrow> 'w thread_pool \<Rightarrow> bool \<times> 'w thread_pool" where
  "thread_pool_submit mem func priority pool =
     (case func of
        None \<Rightarrow> (False, pool)
      | Some f \<Rightarrow>
        if \<not> submit_open pool then (False, pool)
        else (case submit_check pool of
           (False, pool) \<Rightarrow> (False, pool)
         | (True, pool) \<Rightarrow>
           if \<not> mem 32 then (False, pool\<lparr>tp_rejected_count := tp_rejected_count pool + 1\<rparr>)
           else (True, submit_enqueue \<lparr>wi_work = f, wi_priority = normal_priority priority\<rparr> pool)))"

text \<open>The condition under which the loop of \<open>thread_pool_wait\<close> ends.\<close>

definition thread_pool_wait_done :: "'w thread_pool \<Rightarrow> bool" where
  "thread_pool_wait_done pool \<longleftrightarrow> \<not> (tp_queue_size pool > 0 \<or> tp_active_threads pool > 0)"

definition thread_pool_get_thread_count :: "'w thread_pool \<Rightarrow> nat" where
  "thread_pool_get_thread_count pool = tp_num_threads pool"

definition thread_pool_get_pending_count :: "'w thread_pool \<Rightarrow> nat" where
  "thread_pool_get_pending_count pool = tp_queue_size pool"

definition thread_pool_stats :: "'w thread_pool \<Rightarrow> u64 \<times> u64 \<times> u64" where
  "thread_pool_stats pool = (tp_submitted_count pool, tp_completed_count pool, tp_rejected_count pool)"

section \<open>The pool with its threads\<close>

text \<open>
  Where a worker is: before the mutex, blocked on \<open>work_available\<close>, with a work item it took, running
  it, back from it, with \<open>active_threads\<close> decremented, with the completion counted, gone.
\<close>

datatype 'w worker = W_Lock | W_Wait | W_Got "'w work_item" | W_Running "'w work_item" | W_Ran | W_Left | W_Counted | W_Exit

text \<open>Where the thread that destroys the pool is: not called, flag stored, all workers woken, all joined and freed.\<close>

datatype destroyer = D_None | D_Flagged | D_Joining | D_Finished

text \<open>A submission under way: it has read the flag, or it has also passed the check of the size.\<close>

datatype 'w submission = S_Open (sub_item: "'w work_item") | S_Checked (sub_item: "'w work_item")

text \<open>Where a thread that called \<open>thread_pool_wait\<close> is: before the mutex, blocked on \<open>work_done\<close>, returned.\<close>

datatype waiter = T_Lock | T_Wait | T_Returned

text \<open>
  The state: the pool, the workers, the submissions under way, the waiting threads, the destroying thread, and the history
  of the items inserted, taken, executed and freed.
\<close>

record 'w tp_sys =
  sys_pool :: "'w thread_pool"
  sys_workers :: "'w worker multiset"
  sys_submitting :: "'w submission multiset"
  sys_waiters :: "waiter multiset"
  sys_destroyer :: destroyer
  log_submitted :: "'w work_item list"
  log_taken :: "'w work_item list"
  log_executed :: "'w work_item list"
  log_freed :: "'w work_item list"

definition thread_pool_start :: "'w thread_pool \<Rightarrow> 'w tp_sys" where
  "thread_pool_start pool =
     \<lparr>sys_pool = pool, sys_workers = replicate_mset (tp_num_threads pool) W_Lock, sys_submitting = {#}, sys_waiters = {#},
       sys_destroyer = D_None, log_submitted = [], log_taken = [], log_executed = [], log_freed = []\<rparr>"

text \<open>
  When a thread cannot be started after \<open>started\<close> ones: \<open>thread_pool_create\<close> stores the flag for immediate shutdown, wakes
  and joins the started threads and frees the pool, as \<open>thread_pool_destroy\<close> does from its flag on.
\<close>

definition thread_pool_start_failed :: "'w thread_pool \<Rightarrow> nat \<Rightarrow> 'w tp_sys" where
  "thread_pool_start_failed pool started =
     (thread_pool_start pool)\<lparr>sys_workers := replicate_mset started W_Lock, sys_destroyer := D_Flagged,
       sys_pool := pool\<lparr>tp_immediate_shutdown := True\<rparr>\<rparr>"

text \<open>The steps of \<open>worker_thread\<close>; the broadcast at the end wakes every waiting thread.\<close>

definition wake_waiters :: "waiter multiset \<Rightarrow> waiter multiset" where
  "wake_waiters ts = image_mset (\<lambda>t. if t = T_Wait then T_Lock else t) ts"

inductive worker_step :: "'w tp_sys \<Rightarrow> 'w tp_sys \<Rightarrow> bool" where
  ws_wait: "sys_workers s = add_mset W_Lock ws \<Longrightarrow> worker_locked (sys_pool s) = (Do_Wait, pool) \<Longrightarrow>
    worker_step s (s\<lparr>sys_workers := add_mset W_Wait ws, sys_pool := pool\<rparr>)"
| ws_leave: "sys_workers s = add_mset W_Lock ws \<Longrightarrow> worker_locked (sys_pool s) = (Do_Leave, pool) \<Longrightarrow>
    worker_step s (s\<lparr>sys_workers := add_mset W_Exit ws, sys_pool := pool\<rparr>)"
| ws_none: "sys_workers s = add_mset W_Lock ws \<Longrightarrow> worker_locked (sys_pool s) = (Do_Work None, pool) \<Longrightarrow>
    worker_step s (s\<lparr>sys_workers := add_mset W_Lock ws, sys_pool := pool\<rparr>)"
| ws_take: "sys_workers s = add_mset W_Lock ws \<Longrightarrow> worker_locked (sys_pool s) = (Do_Work (Some w), pool) \<Longrightarrow>
    worker_step s (s\<lparr>sys_workers := add_mset (W_Got w) ws, sys_pool := pool, log_taken := log_taken s @ [w]\<rparr>)"
| ws_enter: "sys_workers s = add_mset (W_Got w) ws \<Longrightarrow>
    worker_step s (s\<lparr>sys_workers := add_mset (W_Running w) ws,
      sys_pool := (sys_pool s)\<lparr>tp_active_threads := tp_active_threads (sys_pool s) + 1\<rparr>\<rparr>)"
| ws_run: "sys_workers s = add_mset (W_Running w) ws \<Longrightarrow>
    worker_step s (s\<lparr>sys_workers := add_mset W_Ran ws, log_executed := log_executed s @ [w]\<rparr>)"
| ws_exit: "sys_workers s = add_mset W_Ran ws \<Longrightarrow>
    worker_step s (s\<lparr>sys_workers := add_mset W_Left ws,
      sys_pool := (sys_pool s)\<lparr>tp_active_threads := tp_active_threads (sys_pool s) - 1\<rparr>\<rparr>)"
| ws_count: "sys_workers s = add_mset W_Left ws \<Longrightarrow>
    worker_step s (s\<lparr>sys_workers := add_mset W_Counted ws,
      sys_pool := (sys_pool s)\<lparr>tp_completed_count := tp_completed_count (sys_pool s) + 1\<rparr>\<rparr>)"
| ws_signal: "sys_workers s = add_mset W_Counted ws \<Longrightarrow>
    worker_step s (s\<lparr>sys_workers := add_mset W_Lock ws, sys_waiters := wake_waiters (sys_waiters s)\<rparr>)"

text \<open>A blocked worker may wake up without a signal.\<close>

inductive wake_step :: "'w tp_sys \<Rightarrow> 'w tp_sys \<Rightarrow> bool" where
  wk_spurious: "sys_workers s = add_mset W_Wait ws \<Longrightarrow> wake_step s (s\<lparr>sys_workers := add_mset W_Lock ws\<rparr>)"

text \<open>The steps of \<open>thread_pool_submit\<close>; the signal wakes one blocked worker, if there is one.\<close>

inductive submit_step :: "'w tp_sys \<Rightarrow> 'w tp_sys \<Rightarrow> bool" where
  ss_closed: "sys_destroyer s \<noteq> D_Finished \<Longrightarrow> \<not> submit_open (sys_pool s) \<Longrightarrow> submit_step s s"
| ss_open: "sys_destroyer s \<noteq> D_Finished \<Longrightarrow> submit_open (sys_pool s) \<Longrightarrow>
    w = \<lparr>wi_work = f, wi_priority = normal_priority priority\<rparr> \<Longrightarrow>
    submit_step s (s\<lparr>sys_submitting := add_mset (S_Open w) (sys_submitting s)\<rparr>)"
| ss_refused: "sys_destroyer s \<noteq> D_Finished \<Longrightarrow> sys_submitting s = add_mset (S_Open w) sub \<Longrightarrow>
    submit_check (sys_pool s) = (False, pool) \<Longrightarrow>
    submit_step s (s\<lparr>sys_pool := pool, sys_submitting := sub\<rparr>)"
| ss_checked: "sys_destroyer s \<noteq> D_Finished \<Longrightarrow> sys_submitting s = add_mset (S_Open w) sub \<Longrightarrow>
    submit_check (sys_pool s) = (True, pool) \<Longrightarrow>
    submit_step s (s\<lparr>sys_pool := pool, sys_submitting := add_mset (S_Checked w) sub\<rparr>)"
| ss_no_memory: "sys_destroyer s \<noteq> D_Finished \<Longrightarrow> sys_submitting s = add_mset (S_Checked w) sub \<Longrightarrow>
    submit_step s (s\<lparr>sys_submitting := sub,
      sys_pool := (sys_pool s)\<lparr>tp_rejected_count := tp_rejected_count (sys_pool s) + 1\<rparr>\<rparr>)"
| ss_insert: "sys_destroyer s \<noteq> D_Finished \<Longrightarrow> sys_submitting s = add_mset (S_Checked w) sub \<Longrightarrow>
    (if W_Wait \<in># sys_workers s then ws = add_mset W_Lock (sys_workers s - {#W_Wait#}) else ws = sys_workers s) \<Longrightarrow>
    submit_step s (s\<lparr>sys_submitting := sub, sys_pool := submit_enqueue w (sys_pool s), sys_workers := ws,
      log_submitted := log_submitted s @ [w]\<rparr>)"

text \<open>The steps of \<open>thread_pool_wait\<close>: the call, the test of the loop, which blocks or returns, and a wake-up without a signal.\<close>

inductive wait_step :: "'w tp_sys \<Rightarrow> 'w tp_sys \<Rightarrow> bool" where
  wt_call: "sys_destroyer s \<noteq> D_Finished \<Longrightarrow> wait_step s (s\<lparr>sys_waiters := add_mset T_Lock (sys_waiters s)\<rparr>)"
| wt_return: "sys_waiters s = add_mset T_Lock ts \<Longrightarrow> thread_pool_wait_done (sys_pool s) \<Longrightarrow>
    wait_step s (s\<lparr>sys_waiters := add_mset T_Returned ts\<rparr>)"
| wt_block: "sys_waiters s = add_mset T_Lock ts \<Longrightarrow> \<not> thread_pool_wait_done (sys_pool s) \<Longrightarrow>
    wait_step s (s\<lparr>sys_waiters := add_mset T_Wait ts\<rparr>)"
| wt_spurious: "sys_waiters s = add_mset T_Wait ts \<Longrightarrow> wait_step s (s\<lparr>sys_waiters := add_mset T_Lock ts\<rparr>)"

text \<open>The steps of \<open>thread_pool_destroy\<close>: store the flag, wake everybody, join everybody and free what is queued.\<close>

definition wake_all :: "'w worker multiset \<Rightarrow> 'w worker multiset" where
  "wake_all ws = image_mset (\<lambda>w. if w = W_Wait then W_Lock else w) ws"

inductive destroy_step :: "bool \<Rightarrow> 'w tp_sys \<Rightarrow> 'w tp_sys \<Rightarrow> bool" for wait where
  ds_flag: "sys_destroyer s = D_None \<Longrightarrow>
    destroy_step wait s (s\<lparr>sys_destroyer := D_Flagged,
      sys_pool := (if wait then (sys_pool s)\<lparr>tp_shutdown := True\<rparr> else (sys_pool s)\<lparr>tp_immediate_shutdown := True\<rparr>)\<rparr>)"
| ds_broadcast: "sys_destroyer s = D_Flagged \<Longrightarrow>
    destroy_step wait s (s\<lparr>sys_destroyer := D_Joining, sys_workers := wake_all (sys_workers s)\<rparr>)"
| ds_join: "sys_destroyer s = D_Joining \<Longrightarrow> sys_workers s = replicate_mset (size (sys_workers s)) W_Exit \<Longrightarrow>
    destroy_step wait s (s\<lparr>sys_destroyer := D_Finished,
      log_freed := concat (map (tp_queue (sys_pool s)) [0..<PRIORITY_MAX]),
      sys_pool := (sys_pool s)\<lparr>tp_queue := (\<lambda>_. []), tp_queue_size := 0\<rparr>\<rparr>)"

definition tp_step :: "'w tp_sys \<Rightarrow> 'w tp_sys \<Rightarrow> bool" where
  "tp_step s t \<longleftrightarrow> worker_step s t \<or> wake_step s t \<or> submit_step s t \<or> wait_step s t \<or> (\<exists>wait. destroy_step wait s t)"

section \<open>Invariant\<close>

definition of_priority :: "nat \<Rightarrow> 'w work_item list \<Rightarrow> 'w work_item list" where
  "of_priority p ws = filter (\<lambda>w. wi_priority w = p) ws"

fun held_item :: "'w worker \<Rightarrow> 'w work_item multiset" where
  "held_item (W_Got w) = {#w#}"
| "held_item (W_Running w) = {#w#}"
| "held_item _ = {#}"

definition held :: "'w worker multiset \<Rightarrow> 'w work_item multiset" where
  "held ws = \<Sum>\<^sub># (image_mset held_item ws)"

fun active :: "'w worker \<Rightarrow> nat" where
  "active (W_Running w) = 1"
| "active W_Ran = 1"
| "active _ = 0"

fun uncounted :: "'w worker \<Rightarrow> nat" where
  "uncounted W_Ran = 1"
| "uncounted W_Left = 1"
| "uncounted _ = 0"

definition num_active :: "'w worker multiset \<Rightarrow> nat" where
  "num_active ws = \<Sum>\<^sub># (image_mset active ws)"

definition num_uncounted :: "'w worker multiset \<Rightarrow> nat" where
  "num_uncounted ws = \<Sum>\<^sub># (image_mset uncounted ws)"

definition queue_inv :: "'w thread_pool \<Rightarrow> bool" where
  "queue_inv pool \<longleftrightarrow> (\<forall>p. \<forall>w \<in> set (tp_queue pool p). wi_priority w = p) \<and> (\<forall>p \<ge> PRIORITY_MAX. tp_queue pool p = []) \<and>
     tp_queue_size pool = (\<Sum>p < PRIORITY_MAX. length (tp_queue pool p))"

definition counts_inv :: "'w tp_sys \<Rightarrow> bool" where
  "counts_inv s \<longleftrightarrow> mset (log_taken s) = mset (log_executed s) + held (sys_workers s) \<and>
     tp_active_threads (sys_pool s) = num_active (sys_workers s) \<and>
     tp_submitted_count (sys_pool s) = of_nat (length (log_submitted s)) \<and>
     of_nat (length (log_executed s)) = tp_completed_count (sys_pool s) + of_nat (num_uncounted (sys_workers s))"

definition order_inv :: "'w tp_sys \<Rightarrow> bool" where
  "order_inv s \<longleftrightarrow> queue_inv (sys_pool s) \<and> (\<forall>x \<in># sys_submitting s. wi_priority (sub_item x) < PRIORITY_MAX) \<and>
     (if sys_destroyer s = D_Finished then \<forall>p. tp_queue (sys_pool s) p = [] else log_freed s = []) \<and>
     (\<forall>p. of_priority p (log_submitted s) =
        of_priority p (log_taken s) @ of_priority p (log_freed s) @ tp_queue (sys_pool s) p)"

lemma of_priority_simps [simp]:
  "of_priority p [] = []"
  "of_priority p (xs @ ys) = of_priority p xs @ of_priority p ys"
  "of_priority p (w # ws) = (if wi_priority w = p then w # of_priority p ws else of_priority p ws)"
  by (simp_all add: of_priority_def)

lemma held_simps [simp]: "held {#} = {#}" "held (add_mset w ws) = held_item w + held ws"
  by (simp_all add: held_def)

lemma num_simps [simp]:
  "num_active {#} = 0" "num_active (add_mset w ws) = active w + num_active ws"
  "num_uncounted {#} = 0" "num_uncounted (add_mset w ws) = uncounted w + num_uncounted ws"
  by (simp_all add: num_active_def num_uncounted_def)

lemma take_from_cases:
  assumes "queue_inv pool" "take_from n pool = (r, pool')"
  obtains (none) "r = None" "pool' = pool" "\<And>p. p < n \<Longrightarrow> tp_queue pool p = []"
  | (some) w ws where "r = Some w" "wi_priority w < n" "tp_queue pool (wi_priority w) = w # ws"
      "\<And>p. wi_priority w < p \<Longrightarrow> p < n \<Longrightarrow> tp_queue pool p = []"
      "pool' = pool\<lparr>tp_queue := (tp_queue pool)(wi_priority w := ws), tp_queue_size := tp_queue_size pool - 1\<rparr>"
  using assms(2)
proof (induction n arbitrary: thesis)
  case (Suc n)
  show ?case
  proof (cases "tp_queue pool n")
    case Nil
    then have t: "take_from n pool = (r, pool')" using Suc.prems(3) by simp
    show ?thesis
    proof (rule Suc.IH [OF _ _ t])
      assume "r = None" "pool' = pool" "\<And>p. p < n \<Longrightarrow> tp_queue pool p = []"
      then show ?thesis using Suc.prems(1) Nil by (metis less_SucE)
    next
      fix w ws
      assume "r = Some w" "wi_priority w < n" "tp_queue pool (wi_priority w) = w # ws"
        "\<And>p. wi_priority w < p \<Longrightarrow> p < n \<Longrightarrow> tp_queue pool p = []"
        "pool' = pool\<lparr>tp_queue := (tp_queue pool)(wi_priority w := ws), tp_queue_size := tp_queue_size pool - 1\<rparr>"
      then show ?thesis using Suc.prems(2) [of w ws] Nil by (metis less_SucE less_SucI)
    qed
  next
    case (Cons w ws)
    then have "wi_priority w = n" using assms(1) by (simp add: queue_inv_def)
    then show ?thesis using Suc.prems(3) Cons by (intro Suc.prems(2) [of w ws]) (auto simp: fun_upd_def)
  qed
qed simp

lemma queue_inv_take:
  assumes "queue_inv pool" "tp_queue pool q = w # ws"
  shows "queue_inv (pool\<lparr>tp_queue := (tp_queue pool)(q := ws), tp_queue_size := tp_queue_size pool - 1\<rparr>)"
proof -
  have q: "q < PRIORITY_MAX" using assms by (metis list.distinct(1) not_le queue_inv_def)
  have "(\<Sum>p < PRIORITY_MAX. length (tp_queue pool p)) =
      Suc (\<Sum>p < PRIORITY_MAX. length (((tp_queue pool)(q := ws)) p))"
    using q assms(2) by (simp add: sum.remove [of _ q])
  then show ?thesis using assms q by (auto simp: queue_inv_def)
qed

lemma queue_inv_insert:
  assumes "queue_inv pool" "wi_priority w < PRIORITY_MAX"
  shows "queue_inv (submit_enqueue w pool)"
proof -
  have "(\<Sum>p < PRIORITY_MAX. length (((tp_queue pool)(wi_priority w := tp_queue pool (wi_priority w) @ [w])) p)) =
      Suc (\<Sum>p < PRIORITY_MAX. length (tp_queue pool p))"
    using assms(2) by (simp add: sum.remove [of _ "wi_priority w"])
  then show ?thesis using assms by (auto simp: queue_inv_def submit_enqueue_def)
qed

lemma worker_locked_cases:
  assumes "queue_inv pool" "worker_locked pool = (d, pool')"
  obtains (wait) "d = Do_Wait" "pool' = pool" "tp_queue_size pool = 0" "\<not> tp_shutdown pool"
  | (leave) "d = Do_Leave" "pool' = pool" "tp_immediate_shutdown pool \<or> (tp_shutdown pool \<and> tp_queue_size pool = 0)"
      "tp_queue_size pool > 0 \<or> tp_shutdown pool"
  | (work) w ws where "d = Do_Work (Some w)" "tp_queue pool (wi_priority w) = w # ws" "tp_queue_size pool > 0"
      "\<not> tp_immediate_shutdown pool" "\<And>p. wi_priority w < p \<Longrightarrow> tp_queue pool p = []"
      "pool' = pool\<lparr>tp_queue := (tp_queue pool)(wi_priority w := ws), tp_queue_size := tp_queue_size pool - 1\<rparr>"
proof (cases "tp_queue_size pool > 0 \<and> \<not> tp_immediate_shutdown pool")
  case True
  obtain r where r: "take_from PRIORITY_MAX pool = (r, pool')" "d = Do_Work r"
    using assms(2) True by (cases "take_from PRIORITY_MAX pool") (auto simp: worker_locked_def)
  show ?thesis
  proof (cases rule: take_from_cases [OF assms(1) r(1), case_names none some])
    case none
    then have "(\<Sum>p < PRIORITY_MAX. length (tp_queue pool p)) = 0" by simp
    then show ?thesis using True assms(1) unfolding queue_inv_def by linarith
  next
    case (some w ws)
    have "tp_queue pool p = []" if "wi_priority w < p" for p
      using some(4) [OF that] assms(1) by (metis not_le queue_inv_def)
    then show ?thesis using some r(2) True by (intro work [of w ws]) auto
  qed
next
  case False
  then show ?thesis using assms(2) wait leave by (auto simp: worker_locked_def split: if_splits)
qed

lemma order_inv_worker_step:
  assumes "worker_step s t" "order_inv s"
  shows "order_inv t"
  using assms(1)
proof cases
  case (ws_take ws w pool)
  have q: "queue_inv (sys_pool s)" using assms(2) by (simp add: order_inv_def)
  show ?thesis
  proof (cases rule: worker_locked_cases [OF q ws_take(3), case_names wait leave work])
    case (work w' ws')
    then have "queue_inv pool" using queue_inv_take [OF q work(2)] by simp
    moreover have "sys_destroyer s \<noteq> D_Finished" using assms(2) work(2) by (auto simp: order_inv_def)
    ultimately show ?thesis using assms(2) ws_take(1) work by (auto simp: order_inv_def)
  qed simp_all
next
  case (ws_wait ws pool)
  have q: "queue_inv (sys_pool s)" using assms(2) by (simp add: order_inv_def)
  show ?thesis
    by (cases rule: worker_locked_cases [OF q ws_wait(3)]) (use assms(2) ws_wait(1) in \<open>simp_all add: order_inv_def\<close>)
next
  case (ws_leave ws pool)
  have q: "queue_inv (sys_pool s)" using assms(2) by (simp add: order_inv_def)
  show ?thesis
    by (cases rule: worker_locked_cases [OF q ws_leave(3)]) (use assms(2) ws_leave(1) in \<open>simp_all add: order_inv_def\<close>)
next
  case (ws_none ws pool)
  have q: "queue_inv (sys_pool s)" using assms(2) by (simp add: order_inv_def)
  show ?thesis
    by (cases rule: worker_locked_cases [OF q ws_none(3)]) simp_all
qed (use assms(2) in \<open>simp_all add: order_inv_def queue_inv_def\<close>)

lemma order_inv_wake_step: "wake_step s t \<Longrightarrow> order_inv s \<Longrightarrow> order_inv t"
  by (auto elim!: wake_step.cases simp: order_inv_def)

lemma submit_check_same:
  assumes "submit_check pool = (ok, pool')"
  shows "\<exists>r. pool' = pool\<lparr>tp_rejected_count := r\<rparr>"
proof -
  have "pool = pool\<lparr>tp_rejected_count := tp_rejected_count pool\<rparr>" by simp
  then show ?thesis using assms unfolding submit_check_def by (metis prod.inject)
qed

lemma normal_priority_less [simp]: "normal_priority p < PRIORITY_MAX"
proof (cases "p \<ge> 3")
  case False
  then have "unat p < unat (3 :: u32)" by (simp add: word_less_nat_alt not_le)
  then show ?thesis using False by (simp add: normal_priority_def)
qed (simp add: normal_priority_def)

lemma order_inv_submit_step:
  assumes "submit_step s t" "order_inv s"
  shows "order_inv t"
  using assms(1)
proof cases
  case ss_closed
  then show ?thesis using assms(2) by simp
next
  case (ss_open w f priority)
  then show ?thesis using assms(2) normal_priority_less [of priority] by (auto simp: order_inv_def queue_inv_def)
next
  case (ss_refused w sub pool)
  then show ?thesis using assms(2) submit_check_same [OF ss_refused(4)] by (auto simp: order_inv_def queue_inv_def)
next
  case (ss_checked w sub pool)
  then show ?thesis using assms(2) submit_check_same [OF ss_checked(4)] by (auto simp: order_inv_def queue_inv_def)
next
  case (ss_no_memory w sub)
  then show ?thesis using assms(2) by (auto simp: order_inv_def queue_inv_def)
next
  case (ss_insert w sub ws)
  have "queue_inv (submit_enqueue w (sys_pool s))"
    using assms(2) ss_insert(3) by (intro queue_inv_insert) (auto simp: order_inv_def)
  then show ?thesis using assms(2) ss_insert by (auto simp: order_inv_def submit_enqueue_def)
qed

lemma of_priority_queues:
  assumes "queue_inv pool"
  shows "of_priority p (concat (map (tp_queue pool) [0..<PRIORITY_MAX])) = tp_queue pool p"
proof -
  have one: "of_priority p (tp_queue pool q) = (if q = p then tp_queue pool p else [])" for q
    using assms by (auto simp: queue_inv_def of_priority_def filter_empty_conv filter_id_conv)
  have "p = 0 \<or> p = 1 \<or> p = 2 \<or> PRIORITY_MAX \<le> p" by arith
  moreover have "[0..<PRIORITY_MAX] = [0, 1, 2]" by (simp add: upt_rec)
  ultimately show ?thesis using assms by (auto simp: one queue_inv_def)
qed

lemma order_inv_destroy_step:
  assumes "destroy_step wait s t" "order_inv s"
  shows "order_inv t"
  using assms(1)
proof cases
  case ds_join
  then show ?thesis using assms(2) of_priority_queues [of "sys_pool s"]
    by (auto simp: order_inv_def queue_inv_def)
qed (use assms(2) in \<open>simp_all add: order_inv_def queue_inv_def\<close>)

lemma counts_inv_worker_step:
  assumes "worker_step s t" "counts_inv s" "order_inv s"
  shows "counts_inv t"
proof -
  have q: "queue_inv (sys_pool s)" using assms(3) by (simp add: order_inv_def)
  have locked: "tp_active_threads pool = tp_active_threads (sys_pool s) \<and>
      tp_submitted_count pool = tp_submitted_count (sys_pool s) \<and>
      tp_completed_count pool = tp_completed_count (sys_pool s)"
    if "worker_locked (sys_pool s) = (d, pool)" for d pool
    by (cases rule: worker_locked_cases [OF q that]) simp_all
  show ?thesis
    using assms(1)
  proof cases
    case (ws_count ws)
    then show ?thesis using assms(2) by (simp add: counts_inv_def algebra_simps)
  qed (use assms(2) locked in \<open>auto simp: counts_inv_def\<close>)
qed

text \<open>A waiting thread changes nothing but itself.\<close>

lemma wait_step_frame: "wait_step s t \<Longrightarrow> \<exists>ts. t = s\<lparr>sys_waiters := ts\<rparr>"
  by (auto elim!: wait_step.cases)

lemma order_inv_wait_step: "wait_step s t \<Longrightarrow> order_inv s \<Longrightarrow> order_inv t"
  by (auto dest!: wait_step_frame simp: order_inv_def)

lemma counts_inv_wait_step: "wait_step s t \<Longrightarrow> counts_inv s \<Longrightarrow> counts_inv t"
  by (auto dest!: wait_step_frame simp: counts_inv_def)

lemma counts_inv_wake_step: "wake_step s t \<Longrightarrow> counts_inv s \<Longrightarrow> counts_inv t"
  by (auto elim!: wake_step.cases simp: counts_inv_def)

lemma counts_inv_submit_step:
  assumes "submit_step s t" "counts_inv s"
  shows "counts_inv t"
  using assms(1)
proof cases
  case ss_closed
  then show ?thesis using assms(2) by simp
next
  case (ss_open w f priority)
  then show ?thesis using assms(2) by (auto simp: counts_inv_def)
next
  case (ss_refused w sub pool)
  then show ?thesis using assms(2) submit_check_same [OF ss_refused(4)] by (auto simp: counts_inv_def)
next
  case (ss_checked w sub pool)
  then show ?thesis using assms(2) submit_check_same [OF ss_checked(4)] by (auto simp: counts_inv_def)
next
  case (ss_no_memory w sub)
  then show ?thesis using assms(2) by (auto simp: counts_inv_def)
next
  case (ss_insert w sub ws)
  have "held ws = held (sys_workers s) \<and> num_active ws = num_active (sys_workers s) \<and>
      num_uncounted ws = num_uncounted (sys_workers s)"
  proof (cases "W_Wait \<in># sys_workers s")
    case True
    then obtain r where "sys_workers s = add_mset W_Wait r" by (metis insert_DiffM)
    then show ?thesis using ss_insert(4) by simp
  qed (use ss_insert(4) in simp)
  then show ?thesis using assms(2) ss_insert(1) by (simp add: counts_inv_def submit_enqueue_def)
qed

lemma wake_all_sums:
  "held (wake_all ws) = held ws" "num_active (wake_all ws) = num_active ws"
  "num_uncounted (wake_all ws) = num_uncounted ws"
  by (induction ws) (auto simp: wake_all_def)

lemma counts_inv_destroy_step: "destroy_step wait s t \<Longrightarrow> counts_inv s \<Longrightarrow> counts_inv t"
  by (auto elim!: destroy_step.cases simp: counts_inv_def wake_all_sums)

definition tp_inv :: "'w tp_sys \<Rightarrow> bool" where
  "tp_inv s \<longleftrightarrow> order_inv s \<and> counts_inv s"

lemma tp_step_cases:
  assumes "tp_step s t"
  obtains (worker) "worker_step s t" | (wake) "wake_step s t" | (submit) "submit_step s t" | (wait) "wait_step s t"
    | (destroy) graceful where "destroy_step graceful s t"
  using assms by (auto simp: tp_step_def)

lemma tp_inv_step:
  assumes "tp_step s t" "tp_inv s"
  shows "tp_inv t"
proof -
  have inv: "order_inv s" "counts_inv s" using assms(2) by (simp_all add: tp_inv_def)
  from assms(1) show ?thesis
  proof (cases rule: tp_step_cases)
    case worker
    then show ?thesis using order_inv_worker_step [of s t] counts_inv_worker_step [of s t] inv by (simp add: tp_inv_def)
  next
    case wake
    then show ?thesis using order_inv_wake_step [of s t] counts_inv_wake_step [of s t] inv by (simp add: tp_inv_def)
  next
    case submit
    then show ?thesis using order_inv_submit_step [of s t] counts_inv_submit_step [of s t] inv by (simp add: tp_inv_def)
  next
    case wait
    then show ?thesis using order_inv_wait_step [of s t] counts_inv_wait_step [of s t] inv by (simp add: tp_inv_def)
  next
    case destroy
    then show ?thesis using order_inv_destroy_step counts_inv_destroy_step inv unfolding tp_inv_def by blast
  qed
qed

lemma tp_inv_start:
  assumes "thread_pool_create mem nprocs n q = Some pool"
  shows "tp_inv (thread_pool_start pool)"
proof -
  have zero: "num_active (replicate_mset n W_Lock) = 0" "num_uncounted (replicate_mset n W_Lock) = 0"
    "held (replicate_mset n W_Lock) = {#}" for n
    by (induction n) auto
  show ?thesis
    using assms by (auto simp: thread_pool_create_def thread_pool_start_def tp_inv_def order_inv_def counts_inv_def
        queue_inv_def zero Let_def split: if_splits)
qed

lemma tp_inv_reach:
  assumes "thread_pool_create mem nprocs n q = Some pool" "tp_step\<^sup>*\<^sup>* (thread_pool_start pool) s"
  shows "tp_inv s"
  using assms(2) tp_inv_start [OF assms(1)] by (induction rule: rtranclp_induct) (auto intro: tp_inv_step)

section \<open>Exactly once, in order\<close>

lemma worker_step_takes:
  assumes "worker_step s t" "order_inv s" "log_taken t = log_taken s @ [w]" "wi_priority w < p"
  shows "tp_queue (sys_pool s) p = []"
  using assms(1)
proof cases
  case (ws_take ws w' pool)
  have q: "queue_inv (sys_pool s)" using assms(2) by (simp add: order_inv_def)
  show ?thesis
    by (cases rule: worker_locked_cases [OF q ws_take(3)]) (use assms(3,4) ws_take(1) in auto)
qed (use assms(3) in auto)

text \<open>C5. Every work item that was submitted is run exactly once and in order, however workers, clients and the
  destroying thread interleave. In every reachable state and for each priority, the items inserted are
  the items taken, followed by those freed unrun by the destruction and those still queued, in
  that order; the items taken are those executed and those that a worker holds now; a worker
  only takes an item when no item of higher priority is queued; and the counters (queue size, submitted,
  completed, active) agree with that history up to the workers between two counter updates.\<close>

theorem thread_pool_exactly_once:
  assumes "thread_pool_create mem nprocs n q = Some pool" "tp_step\<^sup>*\<^sup>* (thread_pool_start pool) s"
  shows "(\<forall>p. of_priority p (log_submitted s) =
        of_priority p (log_taken s) @ of_priority p (log_freed s) @ tp_queue (sys_pool s) p) \<and>
    mset (log_taken s) = mset (log_executed s) + held (sys_workers s) \<and>
    (\<forall>t w p. worker_step s t \<and> log_taken t = log_taken s @ [w] \<and> wi_priority w < p \<longrightarrow> tp_queue (sys_pool s) p = []) \<and>
    thread_pool_get_pending_count (sys_pool s) = (\<Sum>p < PRIORITY_MAX. length (tp_queue (sys_pool s) p)) \<and>
    (case thread_pool_stats (sys_pool s) of (submitted, completed, rejected) \<Rightarrow>
       submitted = of_nat (length (log_submitted s)) \<and>
       completed + of_nat (num_uncounted (sys_workers s)) = of_nat (length (log_executed s))) \<and>
    tp_active_threads (sys_pool s) = num_active (sys_workers s)"
proof -
  have "order_inv s" "counts_inv s" using tp_inv_reach [OF assms] by (simp_all add: tp_inv_def)
  then show ?thesis
    using worker_step_takes [of s] unfolding order_inv_def counts_inv_def queue_inv_def thread_pool_stats_def
      thread_pool_get_pending_count_def by auto
qed

section \<open>Graceful shutdown\<close>

text \<open>How many steps a worker has left once no new work arrives.\<close>

fun rank :: "'w worker \<Rightarrow> nat" where
  "rank W_Exit = 0"
| "rank W_Lock = 1"
| "rank W_Wait = 2"
| "rank W_Counted = 2"
| "rank W_Left = 3"
| "rank W_Ran = 4"
| "rank (W_Running w) = 5"
| "rank (W_Got w) = 6"

definition work_left :: "'w tp_sys \<Rightarrow> nat" where
  "work_left s = 6 * tp_queue_size (sys_pool s) + \<Sum>\<^sub># (image_mset rank (sys_workers s))"

text \<open>What holds from the moment the shutdown flag is stored while no submission is under way.\<close>

definition draining :: "'w tp_sys \<Rightarrow> bool" where
  "draining s \<longleftrightarrow> order_inv s \<and> counts_inv s \<and> tp_shutdown (sys_pool s) \<and> \<not> tp_immediate_shutdown (sys_pool s) \<and>
     sys_submitting s = {#} \<and> sys_destroyer s \<noteq> D_None \<and> sys_workers s \<noteq> {#} \<and> log_freed s = [] \<and>
     (W_Exit \<in># sys_workers s \<longrightarrow> tp_queue_size (sys_pool s) = 0) \<and>
     (sys_destroyer s \<noteq> D_Flagged \<longrightarrow> W_Wait \<notin># sys_workers s)"

lemma worker_step_draining:
  assumes "worker_step s t" "draining s"
  shows "draining t \<and> work_left t < work_left s"
proof -
  have inv: "order_inv t" "counts_inv t"
    using assms order_inv_worker_step counts_inv_worker_step unfolding draining_def by blast+
  have q: "queue_inv (sys_pool s)" using assms(2) by (simp add: order_inv_def draining_def)
  note d = assms(2) [unfolded draining_def]
  show ?thesis
    using assms(1)
  proof cases
    case (ws_take ws w pool)
    show ?thesis
      by (cases rule: worker_locked_cases [OF q ws_take(3)]) (use d inv ws_take in \<open>auto simp: draining_def work_left_def\<close>)
  next
    case (ws_wait ws pool)
    show ?thesis
      by (cases rule: worker_locked_cases [OF q ws_wait(3)]) (use d in auto)
  next
    case (ws_leave ws pool)
    show ?thesis
      by (cases rule: worker_locked_cases [OF q ws_leave(3)]) (use d inv ws_leave in \<open>auto simp: draining_def work_left_def\<close>)
  next
    case (ws_none ws pool)
    show ?thesis
      by (cases rule: worker_locked_cases [OF q ws_none(3)]) auto
  qed (use d inv in \<open>auto simp: draining_def work_left_def\<close>)
qed

lemma wake_step_draining:
  assumes "wake_step s t" "draining s"
  shows "draining t \<and> work_left t < work_left s"
  using assms order_inv_wake_step [OF assms(1)] counts_inv_wake_step [OF assms(1)]
  by (auto elim!: wake_step.cases simp: draining_def work_left_def)

lemma submit_step_draining:
  assumes "submit_step s t" "draining s"
  shows "draining t \<and> work_left t = work_left s"
proof -
  have "t = s"
    using assms(1) by cases (use assms(2) in \<open>auto simp: draining_def submit_open_def\<close>)
  then show ?thesis using assms(2) by simp
qed

lemma wait_step_draining: "wait_step s t \<Longrightarrow> draining s \<Longrightarrow> draining t"
  using order_inv_wait_step counts_inv_wait_step by (fastforce dest: wait_step_frame simp: draining_def)

lemma queues_empty: "queue_inv pool \<Longrightarrow> tp_queue_size pool = 0 \<Longrightarrow> tp_queue pool p = []"
  by (cases "p < PRIORITY_MAX") (auto simp: queue_inv_def)

lemma all_exited:
  assumes "\<forall>w \<in># ws. w = W_Exit"
  shows "ws = replicate_mset (size ws) W_Exit"
  using assms by (induction ws) auto

lemma destroy_step_draining:
  assumes "destroy_step wait s t" "draining s"
  shows "draining t"
proof -
  have inv: "order_inv t" "counts_inv t"
    using assms order_inv_destroy_step counts_inv_destroy_step unfolding draining_def by blast+
  note d = assms(2) [unfolded draining_def]
  show ?thesis
    using assms(1)
  proof cases
    case ds_broadcast
    then show ?thesis using d inv by (auto simp: draining_def wake_all_def split: if_splits)
  next
    case ds_join
    then have "W_Exit \<in># sys_workers s" using d by (metis in_replicate_mset nonempty_has_size)
    then have "tp_queue_size (sys_pool s) = 0" using d by simp
    then have "tp_queue (sys_pool s) p = []" for p using d queues_empty by (auto simp: order_inv_def)
    then show ?thesis using d inv ds_join(1,2) by (simp add: draining_def)
  qed (use d in simp)
qed

lemma draining_stuck:
  assumes "draining s" "sys_destroyer s \<noteq> D_Flagged" "\<nexists>t. worker_step s t"
  shows "\<forall>w \<in># sys_workers s. w = W_Exit"
proof
  fix w
  assume "w \<in># sys_workers s"
  then obtain ws where ws: "sys_workers s = add_mset w ws" by (metis insert_DiffM)
  have "w \<noteq> W_Lock"
  proof
    assume w: "w = W_Lock"
    obtain d pool where "worker_locked (sys_pool s) = (d, pool)" by fastforce
    then show False using assms(3) ws w worker_step.intros(1-4) [of s ws]
      by (metis decision.exhaust option.exhaust)
  qed
  moreover have "w \<noteq> W_Wait" using assms(1,2) \<open>w \<in># sys_workers s\<close> by (auto simp: draining_def)
  ultimately show "w = W_Exit"
    using assms(3) ws worker_step.intros(5-9) [of s] by (cases w) blast+
qed

lemma mset_of_priority:
  fixes xs :: "'w work_item list"
  assumes "\<And>p. of_priority p xs = of_priority p ys"
  shows "mset xs = mset ys"
proof (rule multiset_eqI)
  fix w :: "'w work_item"
  have "count (mset zs) w = count (mset (of_priority (wi_priority w) zs)) w" for zs
    by (simp add: of_priority_def)
  then show "count (mset xs) w = count (mset ys) w" using assms by metis
qed

lemma drained:
  assumes "draining s" "\<forall>w \<in># sys_workers s. w = W_Exit"
  shows "mset (log_executed s) = mset (log_submitted s)"
    "tp_completed_count (sys_pool s) = tp_submitted_count (sys_pool s)"
proof -
  note d = assms(1) [unfolded draining_def order_inv_def counts_inv_def]
  have "W_Exit \<in># sys_workers s" using d assms(2) by (metis multiset_nonemptyE)
  then have q: "tp_queue (sys_pool s) p = []" for p using d queues_empty by blast
  have n: "held ws = {#} \<and> num_uncounted ws = 0" if "\<forall>w \<in># ws. w = W_Exit" for ws :: "'a worker multiset"
    using that by (induction ws) auto
  have "mset (log_submitted s) = mset (log_taken s)"
    by (rule mset_of_priority) (use d q in simp)
  then show e: "mset (log_executed s) = mset (log_submitted s)" using d n [OF assms(2)] by simp
  show "tp_completed_count (sys_pool s) = tp_submitted_count (sys_pool s)"
    using d n [OF assms(2)] mset_eq_length [OF e] by simp
qed

definition running_inv :: "'w tp_sys \<Rightarrow> bool" where
  "running_inv s \<longleftrightarrow> sys_workers s \<noteq> {#} \<and> (sys_destroyer s = D_None \<longrightarrow>
     \<not> tp_shutdown (sys_pool s) \<and> \<not> tp_immediate_shutdown (sys_pool s) \<and> W_Exit \<notin># sys_workers s)"

lemma running_inv_step:
  assumes "tp_step s t" "running_inv s" "order_inv s"
  shows "running_inv t"
proof -
  have q: "queue_inv (sys_pool s)" using assms(3) by (simp add: order_inv_def)
  have flags: "tp_shutdown pool = tp_shutdown (sys_pool s) \<and> tp_immediate_shutdown pool = tp_immediate_shutdown (sys_pool s) \<and>
      (d = Do_Leave \<longrightarrow> tp_shutdown (sys_pool s) \<or> tp_immediate_shutdown (sys_pool s))"
    if "worker_locked (sys_pool s) = (d, pool)" for d pool
    by (cases rule: worker_locked_cases [OF q that]) auto
  have check: "tp_shutdown pool = tp_shutdown (sys_pool s) \<and> tp_immediate_shutdown pool = tp_immediate_shutdown (sys_pool s)"
    if "submit_check (sys_pool s) = (ok, pool)" for ok pool
    using submit_check_same [OF that] by auto
  from assms(1) show ?thesis
  proof (cases rule: tp_step_cases)
    case worker
    then show ?thesis by cases (use assms(2) flags in \<open>auto simp: running_inv_def\<close>)
  next
    case wake
    then show ?thesis by cases (use assms(2) in \<open>auto simp: running_inv_def\<close>)
  next
    case submit
    then show ?thesis
      by cases (use assms(2) check in \<open>auto simp: running_inv_def submit_enqueue_def split: if_splits dest: in_diffD\<close>)
  next
    case destroy
    then show ?thesis by cases (use assms(2) in \<open>auto simp: running_inv_def wake_all_def\<close>)
  next
    case wait
    then show ?thesis using assms(2) by (auto dest!: wait_step_frame simp: running_inv_def)
  qed
qed

lemma running_inv_reach:
  assumes "thread_pool_create mem nprocs n q = Some pool" "tp_step\<^sup>*\<^sup>* (thread_pool_start pool) s"
  shows "running_inv s"
  using assms(2)
proof (induction rule: rtranclp_induct)
  case base
  have "tp_num_threads pool > 0 \<and> \<not> tp_shutdown pool \<and> \<not> tp_immediate_shutdown pool"
    using assms(1) by (auto simp: thread_pool_create_def get_cpu_count_def Let_def split: if_splits)
  then show ?case by (auto simp: running_inv_def thread_pool_start_def)
next
  case (step s t)
  then show ?case using running_inv_step tp_inv_reach [OF assms(1) step(1)] by (auto simp: tp_inv_def)
qed

lemma draining_start:
  assumes "tp_inv s0" "running_inv s0" "sys_destroyer s0 = D_None" "sys_submitting s0 = {#}" "destroy_step True s0 s1"
  shows "draining s1"
proof -
  have "order_inv s1 \<and> counts_inv s1"
    using assms(1,5) order_inv_destroy_step counts_inv_destroy_step by (auto simp: tp_inv_def)
  moreover have "log_freed s0 = []" using assms(1,3) by (simp add: tp_inv_def order_inv_def)
  moreover have "sys_workers s0 \<noteq> {#}" "W_Exit \<notin># sys_workers s0" "\<not> tp_immediate_shutdown (sys_pool s0)"
    using assms(2,3) by (simp_all add: running_inv_def)
  moreover have "s1 = s0\<lparr>sys_destroyer := D_Flagged, sys_pool := (sys_pool s0)\<lparr>tp_shutdown := True\<rparr>\<rparr>"
    using assms(5) by cases (use assms(3) in simp_all)
  ultimately show ?thesis using assms(3,4) by (simp add: draining_def)
qed

lemma draining_step:
  assumes "tp_step s t" "draining s"
  shows "draining t"
  using assms(1)
proof (cases rule: tp_step_cases)
  case worker
  then show ?thesis using assms(2) worker_step_draining by blast
next
  case wake
  then show ?thesis using assms(2) wake_step_draining by blast
next
  case submit
  then show ?thesis using assms(2) submit_step_draining by blast
next
  case wait
  then show ?thesis using assms(2) by (rule wait_step_draining)
next
  case destroy
  then show ?thesis using assms(2) by (rule destroy_step_draining)
qed

lemma draining_run:
  assumes "draining s1" "tp_step\<^sup>*\<^sup>* s1 s"
  shows "draining s"
  using assms(2,1) by (induction rule: rtranclp_induct) (auto intro: draining_step)

lemma draining_finite:
  assumes "draining s" "f 0 = s" "\<And>i. worker_step (f i) (f (Suc i)) \<or> wake_step (f i) (f (Suc i))"
  shows False
proof -
  have d: "draining (f i)" for i
    by (induction i) (use assms worker_step_draining wake_step_draining in blast)+
  then have "work_left (f (Suc i)) < work_left (f i)" for i
    using assms(3) [of i] worker_step_draining wake_step_draining by blast
  moreover have "wf (measure work_left)" by simp
  ultimately show False unfolding wf_iff_no_infinite_down_chain by (metis in_measure)
qed

text \<open>C6. A graceful destruction ends with all work done. If no submission is under way when
  \<open>thread_pool_destroy(pool, true)\<close> stores its flag, then from then on, whatever the interleaving: the workers
  cannot run forever (spurious wake-ups included); once everybody was woken, a state in which no worker can
  move is one in which all workers have returned, so that the join succeeds; every submitted item was
  executed exactly once, the completed and the submitted counter agree, and nothing was freed unrun.\<close>

theorem thread_pool_graceful_shutdown:
  assumes "thread_pool_create mem nprocs n q = Some pool" "tp_step\<^sup>*\<^sup>* (thread_pool_start pool) s0"
    and "sys_destroyer s0 = D_None" "sys_submitting s0 = {#}" "destroy_step True s0 s1" "tp_step\<^sup>*\<^sup>* s1 s"
  shows "(\<nexists>f. f 0 = s \<and> (\<forall>i. worker_step (f i) (f (Suc i)) \<or> wake_step (f i) (f (Suc i)))) \<and>
    (sys_destroyer s = D_Flagged \<longrightarrow> (\<exists>t. destroy_step True s t)) \<and>
    (sys_destroyer s = D_Joining \<and> (\<nexists>t. worker_step s t) \<longrightarrow>
       (\<exists>t. destroy_step True s t \<and> sys_destroyer t = D_Finished) \<and>
       mset (log_executed s) = mset (log_submitted s) \<and>
       tp_completed_count (sys_pool s) = tp_submitted_count (sys_pool s)) \<and>
    log_freed s = []"
proof -
  have d: "draining s"
    using draining_run [OF draining_start assms(6)] tp_inv_reach running_inv_reach assms(1-5) by metis
  have stuck: "(\<exists>t. destroy_step True s t \<and> sys_destroyer t = D_Finished) \<and>
      mset (log_executed s) = mset (log_submitted s) \<and> tp_completed_count (sys_pool s) = tp_submitted_count (sys_pool s)"
    if "sys_destroyer s = D_Joining" "\<nexists>t. worker_step s t"
  proof -
    have e: "\<forall>w \<in># sys_workers s. w = W_Exit" using draining_stuck [OF d _ that(2)] that(1) by simp
    show ?thesis using drained [OF d e] ds_join [OF that(1) all_exited [OF e], of True] by fastforce
  qed
  have flagged: "\<exists>t. destroy_step True s t" if "sys_destroyer s = D_Flagged"
    using ds_broadcast [OF that, of True] by blast
  have "log_freed s = []" using d by (simp add: draining_def)
  then show ?thesis using draining_finite [OF d] stuck flagged by blast
qed

section \<open>Immediate shutdown\<close>

definition no_work :: "'w tp_sys \<Rightarrow> bool" where
  "no_work s \<longleftrightarrow> order_inv s \<and> tp_queue_size (sys_pool s) = 0 \<and> \<not> tp_shutdown (sys_pool s) \<and>
     sys_destroyer s \<noteq> D_None \<and> sys_destroyer s \<noteq> D_Finished \<and> (W_Wait \<in># sys_workers s \<or> W_Lock \<in># sys_workers s)"

lemma no_work_worker_step:
  assumes "worker_step s t" "no_work s"
  shows "no_work t"
proof -
  have inv: "order_inv t" using assms order_inv_worker_step unfolding no_work_def by blast
  have q: "queue_inv (sys_pool s)" using assms(2) by (simp add: order_inv_def no_work_def)
  have locked: "d = Do_Wait \<and> pool = sys_pool s" if "worker_locked (sys_pool s) = (d, pool)" for d pool
    by (cases rule: worker_locked_cases [OF q that]) (use assms(2) in \<open>auto simp: no_work_def\<close>)
  show ?thesis
    using assms(1) by cases (use assms(2) inv locked in \<open>auto simp: no_work_def\<close>)
qed

lemma no_work_other_step:
  assumes "wake_step s t \<or> destroy_step wait s t" "no_work s"
  shows "no_work t"
proof -
  have inv: "order_inv t" using assms order_inv_wake_step order_inv_destroy_step unfolding no_work_def by blast
  from assms(1) show ?thesis
  proof
    assume "wake_step s t"
    then show ?thesis by cases (use assms(2) inv in \<open>auto simp: no_work_def\<close>)
  next
    assume "destroy_step wait s t"
    then show ?thesis
    proof cases
      case ds_join
      then show ?thesis using assms(2) unfolding no_work_def by (metis in_replicate_mset worker.distinct)
    qed (use assms(2) inv in \<open>auto simp: no_work_def wake_all_def\<close>)
  qed
qed

text \<open>C36. An immediate destruction of an idle pool never returns. If the queue is empty and a worker is
  blocked on the condition variable (or about to look at the queue) when \<open>thread_pool_destroy(pool, false)\<close>
  stores its flag, and nothing is submitted afterwards, then whatever the workers and the destroying
  thread do, some worker is still waiting and the join has not returned: the loop condition
  reads \<open>shutdown\<close>, which the immediate variant does not set.\<close>

theorem thread_pool_immediate_hang:
  assumes "thread_pool_create mem nprocs n q = Some pool" "tp_step\<^sup>*\<^sup>* (thread_pool_start pool) s0"
    and "sys_destroyer s0 = D_None" "tp_queue_size (sys_pool s0) = 0"
    and "W_Wait \<in># sys_workers s0 \<or> W_Lock \<in># sys_workers s0" "destroy_step False s0 s1"
    and "(\<lambda>s t. worker_step s t \<or> wake_step s t \<or> (\<exists>wait. destroy_step wait s t))\<^sup>*\<^sup>* s1 s"
  shows "sys_destroyer s \<noteq> D_Finished \<and> (W_Wait \<in># sys_workers s \<or> W_Lock \<in># sys_workers s)"
proof -
  have inv: "order_inv s0" "running_inv s0"
    using tp_inv_reach [OF assms(1,2)] running_inv_reach [OF assms(1,2)] by (simp_all add: tp_inv_def)
  have s1: "s1 = s0\<lparr>sys_destroyer := D_Flagged, sys_pool := (sys_pool s0)\<lparr>tp_immediate_shutdown := True\<rparr>\<rparr>"
    using assms(6) by cases (use assms(3) in simp_all)
  have "no_work s1"
    using order_inv_destroy_step [OF assms(6) inv(1)] inv(2) assms(3-5) by (simp add: no_work_def s1 running_inv_def)
  have "no_work s"
    using assms(7)
  proof (induction rule: rtranclp_induct)
    case base
    show ?case using \<open>no_work s1\<close> .
  next
    case (step s t)
    then show ?case using no_work_worker_step no_work_other_step by blast
  qed
  then show ?thesis by (simp add: no_work_def)
qed

text \<open>
  The same happens in \<open>thread_pool_create\<close> when a thread cannot be started after others: it stores the same flag, and joining
  the started threads never ends.
\<close>

lemma thread_pool_create_hang:
  assumes "thread_pool_create mem nprocs n q = Some pool" "0 < started"
    and "(\<lambda>s t. worker_step s t \<or> wake_step s t \<or> (\<exists>wait. destroy_step wait s t))\<^sup>*\<^sup>* (thread_pool_start_failed pool started) s"
  shows "sys_destroyer s \<noteq> D_Finished"
proof -
  have "no_work (thread_pool_start_failed pool started)"
    using assms(1,2) tp_inv_start [OF assms(1)]
    by (auto simp: no_work_def thread_pool_start_failed_def thread_pool_start_def thread_pool_create_def tp_inv_def order_inv_def queue_inv_def Let_def
      split: if_splits)
  from assms(3) this have "no_work s"
  proof (induction rule: rtranclp_induct)
    case (step s t)
    then show ?case using no_work_worker_step no_work_other_step by blast
  qed
  then show ?thesis by (simp add: no_work_def)
qed

section \<open>Windows between the critical sections\<close>

text \<open>A submission that is not disturbed, up to its second critical section and through it.\<close>

lemma submit_to_check:
  assumes "sys_destroyer s \<noteq> D_Finished" "submit_open (sys_pool s)" "submit_check (sys_pool s) = (True, sys_pool s)"
    and "w = \<lparr>wi_work = f, wi_priority = normal_priority priority\<rparr>"
  shows "tp_step\<^sup>*\<^sup>* s (s\<lparr>sys_submitting := add_mset (S_Checked w) (sys_submitting s)\<rparr>)"
proof -
  let ?s = "s\<lparr>sys_submitting := add_mset (S_Open w) (sys_submitting s)\<rparr>"
  have "submit_step s ?s" by (rule ss_open [OF assms(1,2,4)])
  moreover have "submit_step ?s (s\<lparr>sys_submitting := add_mset (S_Checked w) (sys_submitting s)\<rparr>)"
    using ss_checked [where s = ?s and w = w and sub = "sys_submitting s" and pool = "sys_pool s"] assms(1,3) by simp
  ultimately show ?thesis by (meson converse_rtranclp_into_rtranclp r_into_rtranclp tp_step_def)
qed

definition signal_worker :: "'w worker multiset \<Rightarrow> 'w worker multiset" where
  "signal_worker ws = (if W_Wait \<in># ws then add_mset W_Lock (ws - {#W_Wait#}) else ws)"

lemma insert_step:
  assumes "sys_destroyer s \<noteq> D_Finished" "sys_submitting s = add_mset (S_Checked w) sub"
  shows "tp_step s (s\<lparr>sys_submitting := sub, sys_pool := submit_enqueue w (sys_pool s), sys_workers := signal_worker (sys_workers s),
    log_submitted := log_submitted s @ [w]\<rparr>)"
proof -
  have "submit_step s (s\<lparr>sys_submitting := sub, sys_pool := submit_enqueue w (sys_pool s), sys_workers := signal_worker (sys_workers s),
      log_submitted := log_submitted s @ [w]\<rparr>)"
    by (rule ss_insert [OF assms]) (simp add: signal_worker_def)
  then show ?thesis by (simp add: tp_step_def)
qed

lemma submit_to_insert:
  assumes "sys_destroyer s \<noteq> D_Finished" "submit_open (sys_pool s)" "submit_check (sys_pool s) = (True, sys_pool s)"
    and "w = \<lparr>wi_work = f, wi_priority = normal_priority priority\<rparr>"
  shows "tp_step\<^sup>*\<^sup>* s (s\<lparr>sys_pool := submit_enqueue w (sys_pool s), sys_workers := signal_worker (sys_workers s),
    log_submitted := log_submitted s @ [w]\<rparr>)"
proof -
  let ?s = "s\<lparr>sys_submitting := add_mset (S_Checked w) (sys_submitting s)\<rparr>"
  have "tp_step ?s (?s\<lparr>sys_submitting := sys_submitting s, sys_pool := submit_enqueue w (sys_pool ?s),
      sys_workers := signal_worker (sys_workers ?s), log_submitted := log_submitted ?s @ [w]\<rparr>)"
    by (rule insert_step) (use assms(1) in simp_all)
  then have "tp_step ?s (s\<lparr>sys_pool := submit_enqueue w (sys_pool s), sys_workers := signal_worker (sys_workers s),
      log_submitted := log_submitted s @ [w]\<rparr>)" by simp
  then show ?thesis using submit_to_check [OF assms] by simp
qed

text \<open>With the only queued item, a worker at the mutex takes it.\<close>

lemma take_only_item:
  assumes "order_inv s" "sys_workers s = add_mset W_Lock ws" "tp_queue (sys_pool s) = (\<lambda>_. [])(wi_priority w := [w])"
    and "\<not> tp_immediate_shutdown (sys_pool s)" "0 < tp_queue_size (sys_pool s)"
  shows "tp_step s (s\<lparr>sys_workers := add_mset (W_Got w) ws,
    sys_pool := (sys_pool s)\<lparr>tp_queue := (\<lambda>_. []), tp_queue_size := tp_queue_size (sys_pool s) - 1\<rparr>, log_taken := log_taken s @ [w]\<rparr>)"
proof -
  have q: "queue_inv (sys_pool s)" using assms(1) by (simp add: order_inv_def)
  obtain d pool where l: "worker_locked (sys_pool s) = (d, pool)" by fastforce
  show ?thesis
  proof (cases rule: worker_locked_cases [OF q l, case_names wait leave work])
    case (work w' ws')
    have w: "w' = w" "ws' = []" using work(2) unfolding assms(3) by (simp_all split: if_splits)
    have "(tp_queue (sys_pool s))(wi_priority w := []) = (\<lambda>_. [])" unfolding assms(3) by (simp add: fun_eq_iff)
    then have "worker_locked (sys_pool s) = (Do_Work (Some w), (sys_pool s)\<lparr>tp_queue := (\<lambda>_. []), tp_queue_size := tp_queue_size (sys_pool s) - 1\<rparr>)"
      using work(1,6) l unfolding w by simp
    from ws_take [OF assms(2) this] show ?thesis by (simp add: tp_step_def)
  qed (use assms(4,5) in auto)
qed

text \<open>C37. \<open>thread_pool_wait\<close> can return before submitted work was run. From every reachable state of every pool in which the
  queue is empty, no thread is active and a worker is idle, and for every work item: a client may submit the item
  and, after the submission has returned, call \<open>thread_pool_wait\<close>, so that this call returns while the item is not executed and
  a worker holds it. A worker counts itself as active only after it has left the critical section in which it
  took the item out of the queue.\<close>

theorem thread_pool_wait_early:
  assumes "thread_pool_create mem nprocs n q = Some pool" "tp_step\<^sup>*\<^sup>* (thread_pool_start pool) s0"
    and "sys_destroyer s0 = D_None" "tp_queue_size (sys_pool s0) = 0" "tp_active_threads (sys_pool s0) = 0"
    and "W_Wait \<in># sys_workers s0 \<or> W_Lock \<in># sys_workers s0" "w = \<lparr>wi_work = f, wi_priority = normal_priority priority\<rparr>"
  shows "\<exists>s1 s2. tp_step\<^sup>*\<^sup>* s0 s1 \<and> log_submitted s1 = log_submitted s0 @ [w] \<and> sys_submitting s1 = sys_submitting s0 \<and>
    sys_waiters s1 = sys_waiters s0 \<and> tp_step\<^sup>*\<^sup>* s1 s2 \<and> sys_waiters s2 = add_mset T_Returned (sys_waiters s0) \<and>
    log_executed s2 = log_executed s0 \<and> w \<in># held (sys_workers s2)"
proof -
  have inv: "order_inv s0" "running_inv s0"
    using tp_inv_reach [OF assms(1,2)] running_inv_reach [OF assms(1,2)] by (simp_all add: tp_inv_def)
  have passes: "submit_open (sys_pool s0)" "submit_check (sys_pool s0) = (True, sys_pool s0)"
    using inv(2) assms(3,4) by (auto simp: running_inv_def submit_open_def submit_check_def)
  define s1 where "s1 = s0\<lparr>sys_pool := submit_enqueue w (sys_pool s0), sys_workers := signal_worker (sys_workers s0),
    log_submitted := log_submitted s0 @ [w]\<rparr>"
  have r1: "tp_step\<^sup>*\<^sup>* s0 s1" unfolding s1_def by (rule submit_to_insert [OF _ passes assms(7)]) (simp add: assms(3))
  have inv1: "order_inv s1"
    using tp_inv_reach [OF assms(1) rtranclp_trans [OF assms(2) r1]] by (simp add: tp_inv_def)
  have "W_Lock \<in># sys_workers s1" using assms(6) by (auto simp: s1_def signal_worker_def)
  then obtain ws where ws: "sys_workers s1 = add_mset W_Lock ws" by (metis insert_DiffM)
  have "queue_inv (sys_pool s0)" using inv(1) by (simp add: order_inv_def)
  then have "tp_queue (sys_pool s0) = (\<lambda>_. [])" using queues_empty assms(4) by blast
  then have q1: "tp_queue (sys_pool s1) = (\<lambda>_. [])(wi_priority w := [w])" "tp_queue_size (sys_pool s1) = 1"
    "\<not> tp_immediate_shutdown (sys_pool s1)" "tp_active_threads (sys_pool s1) = 0"
    using assms(3-5) inv(2) by (simp_all add: s1_def submit_enqueue_def running_inv_def)
  define s2 where "s2 = s1\<lparr>sys_workers := add_mset (W_Got w) ws,
    sys_pool := (sys_pool s1)\<lparr>tp_queue := (\<lambda>_. []), tp_queue_size := tp_queue_size (sys_pool s1) - 1\<rparr>, log_taken := log_taken s1 @ [w]\<rparr>"
  have "tp_step s1 s2" unfolding s2_def by (rule take_only_item [OF inv1 ws q1(1,3)]) (simp add: q1(2))
  moreover have "tp_step s2 (s2\<lparr>sys_waiters := add_mset T_Lock (sys_waiters s2)\<rparr>)"
    using wt_call [of s2] assms(3) by (simp add: tp_step_def s2_def s1_def)
  moreover have "thread_pool_wait_done (sys_pool s2)" using q1(2,4) by (simp add: thread_pool_wait_done_def s2_def)
  then have "tp_step (s2\<lparr>sys_waiters := add_mset T_Lock (sys_waiters s2)\<rparr>) (s2\<lparr>sys_waiters := add_mset T_Returned (sys_waiters s2)\<rparr>)"
    using wt_return [of "s2\<lparr>sys_waiters := add_mset T_Lock (sys_waiters s2)\<rparr>" "sys_waiters s2"] by (simp add: tp_step_def)
  ultimately have r2: "tp_step\<^sup>*\<^sup>* s1 (s2\<lparr>sys_waiters := add_mset T_Returned (sys_waiters s2)\<rparr>)" by auto
  show ?thesis
    using r1 r2 by (intro exI [of _ s1] exI [of _ "s2\<lparr>sys_waiters := add_mset T_Returned (sys_waiters s2)\<rparr>"]) (auto simp: s1_def s2_def)
qed

definition example_pool :: "nat thread_pool" where
  "example_pool = \<lparr>tp_num_threads = 1, tp_queue = (\<lambda>_. []), tp_queue_size = 0, tp_max_queue_size = 1,
     tp_shutdown = False, tp_immediate_shutdown = False, tp_active_threads = 0, tp_submitted_count = 0,
     tp_completed_count = 0, tp_rejected_count = 0\<rparr>"

definition example_work :: "nat work_item" where
  "example_work = \<lparr>wi_work = 42, wi_priority = 1\<rparr>"

lemma example_work_submitted: "example_work = \<lparr>wi_work = 42, wi_priority = normal_priority 1\<rparr>"
  by (simp add: example_work_def normal_priority_def)

lemma example_pool_created: "thread_pool_create (\<lambda>_. True) 4 1 1 = Some example_pool"
  by (simp add: thread_pool_create_def example_pool_def)

lemma example_idle:
  "sys_destroyer (thread_pool_start example_pool) = D_None" "tp_queue_size (sys_pool (thread_pool_start example_pool)) = 0"
  "tp_active_threads (sys_pool (thread_pool_start example_pool)) = 0"
  "W_Wait \<in># sys_workers (thread_pool_start example_pool) \<or> W_Lock \<in># sys_workers (thread_pool_start example_pool)"
  "sys_submitting (thread_pool_start example_pool) = {#}" "sys_waiters (thread_pool_start example_pool) = {#}"
  "log_submitted (thread_pool_start example_pool) = []" "log_executed (thread_pool_start example_pool) = []"
  by (simp_all add: thread_pool_start_def example_pool_def)

text \<open>Two clients pass the check of the same empty queue of size one, and both insert: the queue holds more than its maximum.\<close>

lemma submit_over_limit:
  "\<exists>s. tp_step\<^sup>*\<^sup>* (thread_pool_start example_pool) s \<and> tp_max_queue_size (sys_pool s) = 1 \<and> tp_queue_size (sys_pool s) = 2"
proof -
  let ?s0 = "thread_pool_start example_pool"
  let ?s1 = "?s0\<lparr>sys_submitting := {#S_Checked example_work#}\<rparr>"
  let ?s2 = "?s1\<lparr>sys_pool := submit_enqueue example_work (sys_pool ?s1), sys_workers := signal_worker (sys_workers ?s1),
    log_submitted := log_submitted ?s1 @ [example_work]\<rparr>"
  have passes: "submit_open (sys_pool ?s0)" "submit_check (sys_pool ?s0) = (True, sys_pool ?s0)"
    by (simp_all add: submit_open_def submit_check_def thread_pool_start_def example_pool_def)
  have "tp_step\<^sup>*\<^sup>* ?s0 ?s1"
    using submit_to_check [OF _ passes example_work_submitted] example_idle(1,5) by simp
  moreover have "tp_step\<^sup>*\<^sup>* ?s1 ?s2"
    by (rule submit_to_insert [OF _ _ _ example_work_submitted]) (use passes example_idle(1) in simp_all)
  moreover have "tp_step ?s2 (?s2\<lparr>sys_submitting := {#}, sys_pool := submit_enqueue example_work (sys_pool ?s2),
      sys_workers := signal_worker (sys_workers ?s2), log_submitted := log_submitted ?s2 @ [example_work]\<rparr>)"
    by (rule insert_step) (use example_idle(1) in simp_all)
  ultimately have "tp_step\<^sup>*\<^sup>* ?s0 (?s2\<lparr>sys_submitting := {#}, sys_pool := submit_enqueue example_work (sys_pool ?s2),
      sys_workers := signal_worker (sys_workers ?s2), log_submitted := log_submitted ?s2 @ [example_work]\<rparr>)" (is "tp_step\<^sup>*\<^sup>* _ ?s3")
    by (meson rtranclp.rtrancl_into_rtrancl rtranclp_trans)
  then show ?thesis by (intro exI [of _ ?s3] conjI) (simp_all add: submit_enqueue_def thread_pool_start_def example_pool_def)
qed

theorem thread_pool_wait_early_witness:
  "\<exists>s. tp_step\<^sup>*\<^sup>* (thread_pool_start example_pool) s \<and> sys_waiters s = {#T_Returned#} \<and> log_executed s = [] \<and>
     example_work \<in># held (sys_workers s)"
proof -
  obtain s1 s2 where "tp_step\<^sup>*\<^sup>* (thread_pool_start example_pool) s1" "tp_step\<^sup>*\<^sup>* s1 s2" "sys_waiters s2 = {#T_Returned#}"
    "log_executed s2 = []" "example_work \<in># held (sys_workers s2)"
    using thread_pool_wait_early [OF example_pool_created rtranclp.rtrancl_refl example_idle(1-4) example_work_submitted] example_idle(6,8)
    by auto
  then show ?thesis by (meson rtranclp_trans)
qed

theorem thread_pool_exactly_once_witness:
  "\<exists>s. tp_step\<^sup>*\<^sup>* (thread_pool_start example_pool) s \<and> log_submitted s = [example_work] \<and>
     of_priority 1 (log_submitted s) = of_priority 1 (log_taken s) @ of_priority 1 (log_freed s) @ tp_queue (sys_pool s) 1"
proof -
  let ?s0 = "thread_pool_start example_pool"
  have passes: "submit_open (sys_pool ?s0)" "submit_check (sys_pool ?s0) = (True, sys_pool ?s0)"
    by (simp_all add: submit_open_def submit_check_def thread_pool_start_def example_pool_def)
  obtain s where s: "tp_step\<^sup>*\<^sup>* ?s0 s" "log_submitted s = [example_work]"
    using submit_to_insert [OF _ passes example_work_submitted] example_idle(1,7) by fastforce
  then show ?thesis using thread_pool_exactly_once [OF example_pool_created s(1)] by auto
qed

theorem thread_pool_graceful_shutdown_witness:
  "\<exists>s1. destroy_step True (thread_pool_start example_pool) s1 \<and> sys_destroyer s1 = D_Flagged \<and>
     (\<exists>t. destroy_step True s1 t)"
proof -
  obtain s1 where s1: "destroy_step True (thread_pool_start example_pool) s1" "sys_destroyer s1 = D_Flagged"
    using ds_flag [OF example_idle(1), of True] by fastforce
  then show ?thesis
    using thread_pool_graceful_shutdown [OF example_pool_created rtranclp.rtrancl_refl example_idle(1,5) s1(1) rtranclp.rtrancl_refl] by blast
qed

theorem thread_pool_immediate_hang_witness:
  "\<exists>s1. destroy_step False (thread_pool_start example_pool) s1 \<and>
     (\<forall>s. (\<lambda>s t. worker_step s t \<or> wake_step s t \<or> (\<exists>wait. destroy_step wait s t))\<^sup>*\<^sup>* s1 s \<longrightarrow> sys_destroyer s \<noteq> D_Finished)"
proof -
  obtain s1 where s1: "destroy_step False (thread_pool_start example_pool) s1"
    using ds_flag [OF example_idle(1), of False] by blast
  then show ?thesis
    using thread_pool_immediate_hang [OF example_pool_created rtranclp.rtrancl_refl example_idle(1,2,4) s1] by blast
qed

end
