(* ===== verification/Netlink_Attr.thy ===== *)
theory Netlink_Attr
  imports NL_Prelude
begin

text \<open>
  Netlink attributes as in \<^verbatim>\<open>src/libnl/attr.c\<close> and \<^verbatim>\<open>src/libnl/include/netlink/attr.h\<close>. A message lies in an
  allocated block, a list of bytes; a pointer into it is an offset, and reading outside the block is
  undefined. Multi-byte fields are little-endian. The C \<^verbatim>\<open>int\<close> that counts the remaining bytes is an
  integer; its conversion to \<^verbatim>\<open>size_t\<close> is written out.
\<close>

section \<open>Bytes\<close>

fun le_val :: "u8 list \<Rightarrow> nat" where
  "le_val [] = 0"
| "le_val (b # bs) = unat b + 256 * le_val bs"

fun le_bytes :: "nat \<Rightarrow> nat \<Rightarrow> u8 list" where
  "le_bytes 0 n = []"
| "le_bytes (Suc k) n = of_nat n # le_bytes k (n div 256)"

definition read_bytes :: "u8 list \<Rightarrow> nat \<Rightarrow> nat \<Rightarrow> u8 list outcome" where
  "read_bytes m i k = (if i + k \<le> length m then Ok (take k (drop i m)) else UB)"

definition read_le :: "nat \<Rightarrow> u8 list \<Rightarrow> nat \<Rightarrow> nat outcome" where
  "read_le k m i = bind_outcome (read_bytes m i k) (\<lambda>bs. Ok (le_val bs))"

definition write_bytes :: "u8 list \<Rightarrow> nat \<Rightarrow> u8 list \<Rightarrow> u8 list outcome" where
  "write_bytes m i bs = (if i + length bs \<le> length m then Ok (take i m @ bs @ drop (i + length bs) m) else UB)"

lemma length_le_bytes [simp]: "length (le_bytes k n) = k"
  by (induction k arbitrary: n) auto

lemma le_bytes_2: "le_bytes 2 n = [of_nat n, of_nat (n div 256)]"
  by (simp add: numeral_2_eq_2)

lemma le_bytes_4: "le_bytes 4 n = [of_nat n, of_nat (n div 256), of_nat (n div 256 div 256), of_nat (n div 256 div 256 div 256)]"
proof -
  have "le_bytes (Suc (Suc (Suc (Suc 0)))) n =
      [of_nat n, of_nat (n div 256), of_nat (n div 256 div 256), of_nat (n div 256 div 256 div 256)]"
    by (simp only: le_bytes.simps)
  moreover have "Suc (Suc (Suc (Suc 0))) = 4" by simp
  ultimately show ?thesis by metis
qed

lemma le_val_less: "le_val bs < 256 ^ length bs"
proof (induction bs)
  case (Cons b bs)
  have "unat b < 256" using unsigned_less [of b] by simp
  moreover have "le_val bs + 1 \<le> 256 ^ length bs" using Cons.IH by simp
  then have "256 * (le_val bs + 1) \<le> 256 * 256 ^ length bs" by (rule mult_le_mono2)
  ultimately show ?case by simp
qed simp

lemma le_val_le_bytes [simp]: "le_val (le_bytes k n) = n mod 256 ^ k"
proof (induction k arbitrary: n)
  case (Suc k)
  have "unat (of_nat n :: u8) = n mod 256" by (simp add: unsigned_of_nat take_bit_eq_mod)
  then show ?case using Suc.IH [of "n div 256"] by (simp add: mod_mult2_eq)
qed simp

section \<open>Layout\<close>

definition NLA_ALIGN :: "nat \<Rightarrow> nat" where
  "NLA_ALIGN len = (len + 3) div 4 * 4"

abbreviation (input) NLA_HDRLEN :: nat where "NLA_HDRLEN \<equiv> 4"

definition nla_attr_size :: "nat \<Rightarrow> nat" where
  "nla_attr_size payload = NLA_HDRLEN + payload"

definition nla_total_size :: "nat \<Rightarrow> nat" where
  "nla_total_size payload = NLA_ALIGN (nla_attr_size payload)"

definition nla_padlen :: "nat \<Rightarrow> nat" where
  "nla_padlen payload = nla_total_size payload - nla_attr_size payload"

text \<open>The fields of \<^verbatim>\<open>struct nlattr\<close>; the two top bits of the type are flags.\<close>

definition nla_raw_len :: "u8 list \<Rightarrow> nat \<Rightarrow> nat outcome" where
  "nla_raw_len m nla = read_le 2 m nla"

definition nla_type :: "u8 list \<Rightarrow> nat \<Rightarrow> nat outcome" where
  "nla_type m nla = bind_outcome (read_le 2 m (nla + 2)) (\<lambda>t. Ok (t mod 2 ^ 14))"

definition nla_data :: "nat \<Rightarrow> nat" where
  "nla_data nla = nla + NLA_HDRLEN"

definition nla_len :: "u8 list \<Rightarrow> nat \<Rightarrow> int outcome" where
  "nla_len m nla = bind_outcome (nla_raw_len m nla) (\<lambda>l. Ok (int l - int NLA_HDRLEN))"

section \<open>Iteration\<close>

definition to_size_t :: "int \<Rightarrow> nat" where
  "to_size_t i = nat (i mod 2 ^ 64)"

definition nla_ok :: "u8 list \<Rightarrow> nat \<Rightarrow> int \<Rightarrow> bool outcome" where
  "nla_ok m nla remaining =
     (let r = to_size_t remaining
      in if r < 4 then Ok False
         else bind_outcome (nla_raw_len m nla) (\<lambda>l. Ok (4 \<le> l \<and> l \<le> r)))"

definition nla_next :: "u8 list \<Rightarrow> nat \<Rightarrow> int \<Rightarrow> (nat \<times> int) outcome" where
  "nla_next m nla remaining =
     bind_outcome (nla_raw_len m nla) (\<lambda>l.
       let totlen = NLA_ALIGN l in Ok (nla + totlen, remaining - int totlen))"

lemma NLA_ALIGN_ge [simp]: "n \<le> NLA_ALIGN n"
proof -
  have "(n + 3) mod 4 \<le> 3" by simp
  moreover have "(n + 3) div 4 * 4 + (n + 3) mod 4 = n + 3" by (rule div_mult_mod_eq)
  ultimately show ?thesis unfolding NLA_ALIGN_def by linarith
qed

lemma nla_ok_next:
  assumes "nla_ok m nla rem = Ok True" "nla_next m nla rem = Ok (nla', rem')"
  shows "nla + 4 \<le> nla'" "nla + 2 \<le> length m"
proof -
  obtain l where l: "nla_raw_len m nla = Ok l" "4 \<le> l"
    using assms(1) by (auto simp: nla_ok_def Let_def bind_outcome_Ok_iff split: if_splits)
  show "nla + 2 \<le> length m"
    using l(1) by (auto simp: nla_raw_len_def read_le_def read_bytes_def split: if_splits)
  have "nla' = nla + NLA_ALIGN l" using assms(2) l(1) by (auto simp: nla_next_def Let_def)
  then show "nla + 4 \<le> nla'" using l(2) NLA_ALIGN_ge [of l] by linarith
qed

lemma nla_ok_next_less:
  assumes "nla_ok m nla rem = Ok True" "nla_next m nla rem = Ok (nla', rem')"
  shows "length m - nla' < length m - nla"
  using nla_ok_next [OF assms] by linarith

section \<open>Validation\<close>

record nla_policy =
  pol_type :: nat
  pol_minlen :: nat
  pol_maxlen :: nat

abbreviation (input) NLA_UNSPEC :: nat where "NLA_UNSPEC \<equiv> 0"
abbreviation (input) NLA_STRING :: nat where "NLA_STRING \<equiv> 5"
abbreviation (input) NLA_FLAG :: nat where "NLA_FLAG \<equiv> 6"
abbreviation (input) NLA_TYPE_MAX :: nat where "NLA_TYPE_MAX \<equiv> 15"
abbreviation (input) NLE_INVAL :: int where "NLE_INVAL \<equiv> 7"
abbreviation (input) NLE_RANGE :: int where "NLE_RANGE \<equiv> 8"
abbreviation (input) NLE_NOMEM :: int where "NLE_NOMEM \<equiv> 5"
abbreviation (input) NLE_MSG_TOOSHORT :: int where "NLE_MSG_TOOSHORT \<equiv> 21"

definition nla_attr_minlen :: "nat list" where
  "nla_attr_minlen = [0, 1, 2, 4, 8, 1, 0, 0, 0, 0, 0, 0, 1, 2, 4, 8]"

text \<open>\<^verbatim>\<open>BUG()\<close> ends the process: \<^const>\<open>Fail\<close>. A policy is an array indexed by the type.\<close>

definition validate_nla :: "u8 list \<Rightarrow> nat \<Rightarrow> int \<Rightarrow> nla_policy list \<Rightarrow> int outcome" where
  "validate_nla m nla maxtype policy =
     bind_outcome (nla_type m nla) (\<lambda>type.
       if type = 0 \<or> int type > maxtype then Ok 0
       else if type \<ge> length policy then UB
       else let pt = policy ! type
         in if pol_type pt > NLA_TYPE_MAX then Fail
            else let minlen = (if pol_minlen pt \<noteq> 0 then pol_minlen pt
                               else if pol_type pt \<noteq> NLA_UNSPEC then nla_attr_minlen ! pol_type pt else 0)
              in bind_outcome (nla_len m nla) (\<lambda>len.
                   if pol_type pt = NLA_FLAG \<and> len > 0 then Ok (- NLE_RANGE)
                   else if len < int minlen then Ok (- NLE_RANGE)
                   else if pol_maxlen pt \<noteq> 0 \<and> len > int (pol_maxlen pt) then Ok (- NLE_RANGE)
                   else if pol_type pt = NLA_STRING then
                     bind_outcome (read_le 1 m (nat (int (nla_data nla) + len - 1))) (\<lambda>c.
                       Ok (if c \<noteq> 0 then - NLE_INVAL else 0))
                   else Ok 0))"

section \<open>Parsing\<close>

text \<open>The body of the loop of \<open>nla_parse\<close>: the error code and the index array.\<close>

definition parse_one ::
  "u8 list \<Rightarrow> int \<Rightarrow> nla_policy list option \<Rightarrow> nat option list \<Rightarrow> nat \<Rightarrow> (int \<times> nat option list) outcome" where
  "parse_one m maxtype policy tb nla =
     bind_outcome (nla_type m nla) (\<lambda>type.
       if type = 0 then Ok (0, tb)
       else if int type \<le> maxtype then
         bind_outcome (case policy of None \<Rightarrow> Ok 0 | Some p \<Rightarrow> validate_nla m nla maxtype p) (\<lambda>err.
           if err < 0 then Ok (err, tb)
           else if type < length tb then Ok (0, tb[type := Some nla]) else UB)
       else Ok (0, tb))"

function parse_loop ::
  "u8 list \<Rightarrow> int \<Rightarrow> nla_policy list option \<Rightarrow> nat option list \<Rightarrow> nat \<Rightarrow> int \<Rightarrow> (int \<times> nat option list) outcome" where
  "parse_loop m maxtype policy tb nla rem =
     (case nla_ok m nla rem of
        UB \<Rightarrow> UB
      | Fail \<Rightarrow> Fail
      | Ok False \<Rightarrow> Ok (0, tb)
      | Ok True \<Rightarrow>
        (case parse_one m maxtype policy tb nla of
           UB \<Rightarrow> UB
         | Fail \<Rightarrow> Fail
         | Ok (err, tb) \<Rightarrow>
           if err < 0 then Ok (err, tb)
           else (case nla_next m nla rem of
                   UB \<Rightarrow> UB
                 | Fail \<Rightarrow> Fail
                 | Ok (nla', rem') \<Rightarrow> parse_loop m maxtype policy tb nla' rem')))"
  by pat_completeness auto
termination
  by (relation "measure (\<lambda>(m, maxtype, policy, tb, nla, rem). length m - nla)")
    (auto intro: nla_ok_next_less)

declare parse_loop.simps [simp del]

definition nla_parse ::
  "u8 list \<Rightarrow> int \<Rightarrow> nat \<Rightarrow> int \<Rightarrow> nla_policy list option \<Rightarrow> (int \<times> nat option list) outcome" where
  "nla_parse m maxtype head len policy =
     parse_loop m maxtype policy (replicate (nat (maxtype + 1)) None) head len"

function nla_validate :: "u8 list \<Rightarrow> nat \<Rightarrow> int \<Rightarrow> int \<Rightarrow> nla_policy list \<Rightarrow> int outcome" where
  "nla_validate m nla rem maxtype policy =
     (case nla_ok m nla rem of
        UB \<Rightarrow> UB
      | Fail \<Rightarrow> Fail
      | Ok False \<Rightarrow> Ok 0
      | Ok True \<Rightarrow>
        (case validate_nla m nla maxtype policy of
           UB \<Rightarrow> UB
         | Fail \<Rightarrow> Fail
         | Ok err \<Rightarrow>
           if err < 0 then Ok err
           else (case nla_next m nla rem of
                   UB \<Rightarrow> UB
                 | Fail \<Rightarrow> Fail
                 | Ok (nla', rem') \<Rightarrow> nla_validate m nla' rem' maxtype policy)))"
  by pat_completeness auto
termination
  by (relation "measure (\<lambda>(m, nla, rem, maxtype, policy). length m - nla)")
    (auto intro: nla_ok_next_less)

declare nla_validate.simps [simp del]

function nla_find :: "u8 list \<Rightarrow> nat \<Rightarrow> int \<Rightarrow> nat \<Rightarrow> nat option outcome" where
  "nla_find m nla rem attrtype =
     (case nla_ok m nla rem of
        UB \<Rightarrow> UB
      | Fail \<Rightarrow> Fail
      | Ok False \<Rightarrow> Ok None
      | Ok True \<Rightarrow>
        (case nla_type m nla of
           UB \<Rightarrow> UB
         | Fail \<Rightarrow> Fail
         | Ok t \<Rightarrow>
           if t = attrtype then Ok (Some nla)
           else (case nla_next m nla rem of
                   UB \<Rightarrow> UB
                 | Fail \<Rightarrow> Fail
                 | Ok (nla', rem') \<Rightarrow> nla_find m nla' rem' attrtype)))"
  by pat_completeness auto
termination
  by (relation "measure (\<lambda>(m, nla, rem, attrtype). length m - nla)") (auto intro: nla_ok_next_less)

declare nla_find.simps [simp del]

definition nla_parse_nested ::
  "u8 list \<Rightarrow> int \<Rightarrow> nat \<Rightarrow> nla_policy list option \<Rightarrow> (int \<times> nat option list) outcome" where
  "nla_parse_nested m maxtype nla policy =
     bind_outcome (nla_len m nla) (\<lambda>len. nla_parse m maxtype (nla_data nla) len policy)"

section \<open>Reading payloads\<close>

definition nla_get_u8 :: "u8 list \<Rightarrow> nat \<Rightarrow> u8 outcome" where
  "nla_get_u8 m nla = bind_outcome (read_le 1 m (nla_data nla)) (\<lambda>v. Ok (of_nat v))"

definition nla_get_u16 :: "u8 list \<Rightarrow> nat \<Rightarrow> u16 outcome" where
  "nla_get_u16 m nla = bind_outcome (read_le 2 m (nla_data nla)) (\<lambda>v. Ok (of_nat v))"

definition nla_get_u32 :: "u8 list \<Rightarrow> nat \<Rightarrow> u32 outcome" where
  "nla_get_u32 m nla = bind_outcome (read_le 4 m (nla_data nla)) (\<lambda>v. Ok (of_nat v))"

text \<open>
  \<open>nla_get_u64\<close> copies at most the payload into an uninitialised variable; \<open>tmp\<close> is what the bytes it
  does not write hold. A negative length would be a huge \<open>memcpy\<close>.
\<close>

definition nla_memcpy :: "u8 list \<Rightarrow> u8 list \<Rightarrow> nat \<Rightarrow> nat \<Rightarrow> u8 list outcome" where
  "nla_memcpy dest m src count =
     bind_outcome (nla_len m src) (\<lambda>len.
       let minlen = min (int count) len
       in if minlen < 0 then UB
          else bind_outcome (read_bytes m (nla_data src) (nat minlen)) (\<lambda>bs. write_bytes dest 0 bs))"

definition nla_get_u64 :: "u8 list \<Rightarrow> u8 list \<Rightarrow> nat \<Rightarrow> u64 outcome" where
  "nla_get_u64 tmp m nla = bind_outcome (nla_memcpy tmp m nla 8) (\<lambda>bs. Ok (of_nat (le_val bs)))"

text \<open>The bytes of a character array up to its terminator.\<close>

definition c_string :: "u8 list \<Rightarrow> string" where
  "c_string bs = map (\<lambda>b. char_of (unat b)) (takeWhile (\<lambda>b. b \<noteq> 0) bs)"

text \<open>
  \<open>nla_strlcpy\<close>: the string in the destination of \<open>dstsize\<close> bytes. The length is converted to
  \<^verbatim>\<open>size_t\<close>; the copy reads the bytes it keeps.
\<close>

definition nla_strlcpy :: "u8 list \<Rightarrow> nat \<Rightarrow> nat \<Rightarrow> (nat \<times> u8 list) outcome" where
  "nla_strlcpy m nla dstsize =
     bind_outcome (nla_len m nla) (\<lambda>len.
       let srclen = to_size_t len
       in bind_outcome (if srclen > 0 then bind_outcome (read_le 1 m (nla_data nla + srclen - 1)) (\<lambda>c. Ok (c = 0)) else Ok False) (\<lambda>nul.
            let srclen = (if nul then srclen - 1 else srclen)
            in if dstsize > 0 then
                 let len = (if srclen \<ge> dstsize then dstsize - 1 else srclen)
                 in bind_outcome (read_bytes m (nla_data nla) len) (\<lambda>bs.
                      Ok (srclen, bs @ replicate (dstsize - len) 0))
               else Ok (srclen, [])))"

section \<open>Streams that end on an alignment boundary are read within bounds\<close>

lemma to_size_t_nat [simp]: "n < 2 ^ 64 \<Longrightarrow> to_size_t (int n) = n"
  by (simp add: to_size_t_def nat_mod_distrib)

lemma NLA_ALIGN_le:
  assumes "l \<le> n" "4 dvd n"
  shows "NLA_ALIGN l \<le> n"
proof -
  obtain k where "n = 4 * k" using assms(2) by blast
  then have "(l + 3) div 4 \<le> k" using assms(1) by linarith
  then show ?thesis using \<open>n = 4 * k\<close> by (simp add: NLA_ALIGN_def)
qed

lemma NLA_ALIGN_dvd [simp]: "4 dvd NLA_ALIGN n"
  by (simp add: NLA_ALIGN_def)

lemma read_le_Ok: "i + k \<le> length m \<Longrightarrow> read_le k m i = Ok (le_val (take k (drop i m)))"
  by (simp add: read_le_def read_bytes_def)

definition policy_ok :: "int \<Rightarrow> nla_policy list option \<Rightarrow> bool" where
  "policy_ok maxtype policy \<longleftrightarrow>
     (case policy of None \<Rightarrow> True
      | Some ps \<Rightarrow> length ps = nat (maxtype + 1) \<and> (\<forall>p \<in> set ps. pol_type p \<le> NLA_TYPE_MAX))"

text \<open>An attribute of type \<open>t\<close> that lies inside a stream and that the policy accepts.\<close>

definition attr_inside :: "u8 list \<Rightarrow> int \<Rightarrow> nla_policy list option \<Rightarrow> nat \<Rightarrow> nat \<Rightarrow> nat \<Rightarrow> nat \<Rightarrow> bool" where
  "attr_inside m maxtype policy head fin t a \<longleftrightarrow>
     head \<le> a \<and> (\<exists>l. nla_raw_len m a = Ok l \<and> 4 \<le> l \<and> a + l \<le> fin) \<and> nla_type m a = Ok t \<and> t \<noteq> 0 \<and>
     (\<forall>ps. policy = Some ps \<longrightarrow> validate_nla m a maxtype ps = Ok 0)"

lemma validate_nla_codes:
  assumes "policy_ok maxtype (Some ps)" "nla_raw_len m a = Ok l" "4 \<le> l" "a + l \<le> length m"
  shows "\<exists>err \<in> {0, - NLE_RANGE, - NLE_INVAL}. validate_nla m a maxtype ps = Ok err"
proof -
  have len: "nla_len m a = Ok (int (l - 4))" using assms(2,3) by (simp add: nla_len_def of_nat_diff)
  have type: "nla_type m a = Ok (le_val (take 2 (drop (a + 2) m)) mod 2 ^ 14)"
    using assms(3,4) by (simp add: nla_type_def read_le_Ok)
  define t where "t = le_val (take 2 (drop (a + 2) m)) mod 2 ^ 14"
  show ?thesis
  proof (cases "t = 0 \<or> int t > maxtype")
    case True
    then show ?thesis using type by (auto simp: validate_nla_def t_def)
  next
    case False
    then have t: "t < length ps" "t \<noteq> 0" "int t \<le> maxtype" using assms(1) by (auto simp: policy_ok_def)
    have pt: "pol_type (ps ! t) \<le> 15" using assms(1) t(1) by (auto simp: policy_ok_def)
    let ?minlen = "if pol_minlen (ps ! t) \<noteq> 0 then pol_minlen (ps ! t)
        else if pol_type (ps ! t) \<noteq> NLA_UNSPEC then nla_attr_minlen ! pol_type (ps ! t) else 0"
    have last: "read_le 1 m (nat (int (nla_data a) + int (l - 4) - 1)) =
        Ok (le_val (take 1 (drop (nat (int (nla_data a) + int (l - 4) - 1)) m)))"
      if "pol_type (ps ! t) = NLA_STRING" "\<not> int (l - 4) < int ?minlen"
    proof -
      have "0 < ?minlen" using that(1) by (auto simp: nla_attr_minlen_def)
      then have "0 < l - 4" using that(2) by linarith
      then have "nat (int (nla_data a) + int (l - 4) - 1) + 1 \<le> length m"
        using assms(4) by (simp add: nla_data_def)
      then show ?thesis by (rule read_le_Ok)
    qed
    show ?thesis
      using t pt last type len unfolding t_def [symmetric]
      by (simp add: validate_nla_def Let_def split del: if_split) (auto split: if_splits)
  qed
qed

lemma parse_one_safe:
  assumes "policy_ok maxtype policy" "nla_raw_len m nla = Ok l" "4 \<le> l" "nla + l \<le> length m"
    and "length tb = nat (maxtype + 1)" "0 \<le> maxtype"
  obtains err tb' where "parse_one m maxtype policy tb nla = Ok (err, tb')" "length tb' = length tb"
    "err \<in> {0, - NLE_RANGE, - NLE_INVAL}"
    "err = 0 \<Longrightarrow> tb' = tb \<or> (\<exists>t. attr_inside m maxtype policy nla (nla + l) t nla \<and> t < length tb \<and> tb' = tb[t := Some nla])"
    "err \<noteq> 0 \<Longrightarrow> tb' = tb"
proof -
  define t where "t = le_val (take 2 (drop (nla + 2) m)) mod 2 ^ 14"
  have type: "nla_type m nla = Ok t" using assms(3,4) by (simp add: nla_type_def read_le_Ok t_def)
  show ?thesis
  proof (cases "t \<noteq> 0 \<and> int t \<le> maxtype")
    case True
    then have t: "t < length tb" using assms(5,6) by linarith
    obtain err where err: "(case policy of None \<Rightarrow> Ok 0 | Some p \<Rightarrow> validate_nla m nla maxtype p) = Ok err"
      "err \<in> {0, - NLE_RANGE, - NLE_INVAL}"
    proof (cases policy)
      case None
      then show ?thesis using that [of 0] by simp
    next
      case (Some ps)
      then show ?thesis using that validate_nla_codes [of maxtype ps m nla l] assms(1-4) by auto
    qed
    show ?thesis
    proof (cases "err = 0")
      case zero: True
      then have "attr_inside m maxtype policy nla (nla + l) t nla"
        using True type assms(2,3) err(1) by (auto simp: attr_inside_def)
      moreover have "parse_one m maxtype policy tb nla = Ok (0, tb[t := Some nla])"
        using True t type err(1) zero by (simp add: parse_one_def)
      ultimately show ?thesis using that [of 0 "tb[t := Some nla]"] t by auto
    next
      case nonzero: False
      then have "err < 0" using err(2) by auto
      then have "parse_one m maxtype policy tb nla = Ok (err, tb)"
        using True t type err(1) by (simp add: parse_one_def)
      then show ?thesis using that [of err tb] err(2) nonzero by blast
    qed
  next
    case False
    then show ?thesis using that [of 0 tb] type by (auto simp: parse_one_def)
  qed
qed

lemma attr_inside_mono:
  "attr_inside m maxtype policy head fin t a \<Longrightarrow> head' \<le> head \<Longrightarrow> fin \<le> fin' \<Longrightarrow> attr_inside m maxtype policy head' fin' t a"
  unfolding attr_inside_def by (meson le_trans)

lemma parse_loop_safe:
  assumes "policy_ok maxtype policy" "0 \<le> maxtype"
    and "nla + len \<le> length m" "4 dvd len" "len < 2 ^ 64" "length tb = nat (maxtype + 1)"
    and "\<And>t a. t < length tb \<Longrightarrow> tb ! t = Some a \<Longrightarrow> attr_inside m maxtype policy head (nla + len) t a" "head \<le> nla"
  shows "\<exists>err tb'. parse_loop m maxtype policy tb nla (int len) = Ok (err, tb') \<and> length tb' = length tb \<and>
    err \<in> {0, - NLE_RANGE, - NLE_INVAL} \<and>
    (\<forall>t a. t < length tb' \<and> tb' ! t = Some a \<longrightarrow> attr_inside m maxtype policy head (nla + len) t a)"
  using assms(3-8)
proof (induction len arbitrary: nla tb rule: less_induct)
  case (less len)
  show ?case
  proof (cases "len < 4")
    case True
    then have "nla_ok m nla (int len) = Ok False" using less.prems by (simp add: nla_ok_def)
    then show ?thesis using less.prems by (subst parse_loop.simps) simp
  next
    case False
    define l where "l = le_val (take 2 (drop nla m))"
    have raw: "nla_raw_len m nla = Ok l" using False less.prems by (simp add: nla_raw_len_def read_le_Ok l_def)
    have ok: "nla_ok m nla (int len) = Ok (4 \<le> l \<and> l \<le> len)"
      using False less.prems raw by (simp add: nla_ok_def)
    show ?thesis
    proof (cases "4 \<le> l \<and> l \<le> len")
      case True
      then have in_m: "nla + l \<le> length m" using less.prems(1) by linarith
      obtain err tb' where one: "parse_one m maxtype policy tb nla = Ok (err, tb')" "length tb' = length tb"
        "err \<in> {0, - NLE_RANGE, - NLE_INVAL}"
        "err = 0 \<Longrightarrow> tb' = tb \<or> (\<exists>t. attr_inside m maxtype policy nla (nla + l) t nla \<and> t < length tb \<and> tb' = tb[t := Some nla])"
        "err \<noteq> 0 \<Longrightarrow> tb' = tb"
        using parse_one_safe [OF assms(1) raw conjunct1 [OF True] in_m less.prems(4) assms(2)] by metis
      have inside: "attr_inside m maxtype policy head (nla + len) t a" if "t < length tb'" "tb' ! t = Some a" for t a
        using that one less.prems(5,6) attr_inside_mono [of m maxtype policy nla "nla + l" t nla head "nla + len"] True
        by (cases "err = 0") (auto simp: nth_list_update split: if_splits)
      show ?thesis
      proof (cases "err < 0")
        case True
        then show ?thesis using ok \<open>4 \<le> l \<and> l \<le> len\<close> one inside by (subst parse_loop.simps) auto
      next
        case False
        let ?tot = "NLA_ALIGN l"
        have tot: "?tot \<le> len" "0 < ?tot" "4 dvd len - ?tot"
          using NLA_ALIGN_le [of l len] True less.prems(2) NLA_ALIGN_ge [of l] NLA_ALIGN_dvd [of l]
          by (linarith, linarith, simp add: dvd_diff_nat)
        have "nla + ?tot + (len - ?tot) = nla + len" using tot by simp
        then have rec: "\<exists>err tb''. parse_loop m maxtype policy tb' (nla + ?tot) (int (len - ?tot)) = Ok (err, tb'') \<and>
            length tb'' = length tb' \<and> err \<in> {0, - NLE_RANGE, - NLE_INVAL} \<and>
            (\<forall>t a. t < length tb'' \<and> tb'' ! t = Some a \<longrightarrow> attr_inside m maxtype policy head (nla + len) t a)"
          using less.IH [of "len - ?tot" "nla + ?tot" tb'] tot less.prems one(2) inside by simp
        have "nla_next m nla (int len) = Ok (nla + ?tot, int (len - ?tot))"
          using raw tot(1) by (simp add: nla_next_def of_nat_diff Let_def)
        then show ?thesis using ok True one(1,2) False rec by (subst parse_loop.simps) simp
      qed
    next
      case False
      then have "nla_ok m nla (int len) = Ok False" using ok by simp
      then show ?thesis using less.prems by (subst parse_loop.simps) simp
    qed
  qed
qed

text \<open>C20. Parsing attributes stays inside the stream when the stream's length is a multiple of four, whatever its
  bytes: \<open>nla_parse\<close> returns, with 0 or one of the two validation errors, reads nothing outside the
  block, and every entry of the index array is an attribute that lies completely inside the stream, whose
  type is the index and which the policy (if there is one) accepts.\<close>

theorem nla_parse_in_bounds:
  assumes "head + len \<le> length m" "4 dvd len" "len < 2 ^ 31" "0 \<le> maxtype" "policy_ok maxtype policy"
  shows "\<exists>err tb. nla_parse m maxtype head (int len) policy = Ok (err, tb) \<and> length tb = nat maxtype + 1 \<and>
    err \<in> {0, - NLE_RANGE, - NLE_INVAL} \<and>
    (\<forall>t a. t < length tb \<and> tb ! t = Some a \<longrightarrow>
       head \<le> a \<and> (\<exists>l. nla_raw_len m a = Ok l \<and> 4 \<le> l \<and> a + l \<le> head + len) \<and> nla_type m a = Ok t \<and> t \<noteq> 0 \<and>
       (\<forall>ps. policy = Some ps \<longrightarrow> validate_nla m a maxtype ps = Ok 0))"
proof -
  let ?tb = "replicate (nat (maxtype + 1)) (None :: nat option)"
  have "\<exists>err tb'. parse_loop m maxtype policy ?tb head (int len) = Ok (err, tb') \<and> length tb' = length ?tb \<and>
    err \<in> {0, - NLE_RANGE, - NLE_INVAL} \<and>
    (\<forall>t a. t < length tb' \<and> tb' ! t = Some a \<longrightarrow> attr_inside m maxtype policy head (head + len) t a)"
    by (rule parse_loop_safe) (use assms in auto)
  then show ?thesis using assms(4) unfolding nla_parse_def attr_inside_def by (simp add: nat_add_distrib)
qed

theorem nla_parse_in_bounds_witness:
  "\<exists>err tb. nla_parse [5, 0, 1, 0, 42, 0, 0, 0] 1 0 8 (Some [\<lparr>pol_type = 0, pol_minlen = 0, pol_maxlen = 0\<rparr>,
      \<lparr>pol_type = 1, pol_minlen = 0, pol_maxlen = 0\<rparr>]) = Ok (err, tb) \<and> length tb = 2"
proof -
  let ?ps = "[\<lparr>pol_type = 0, pol_minlen = 0, pol_maxlen = 0\<rparr>, \<lparr>pol_type = 1, pol_minlen = 0, pol_maxlen = 0\<rparr>]"
  have "policy_ok 1 (Some ?ps)" by (simp add: policy_ok_def)
  then show ?thesis
    using nla_parse_in_bounds [of 0 8 "[5, 0, 1, 0, 42, 0, 0, 0]" 1 "Some ?ps"] by auto
qed

section \<open>Streams that do not\<close>

lemma to_size_t_neg:
  assumes "i < 0" "- i < 2 ^ 63"
  shows "to_size_t i \<ge> 2 ^ 63"
proof -
  have "i mod 2 ^ 64 = i + 2 ^ 64" using assms by (subst mod_add_self2 [symmetric]) (rule mod_pos_pos_trivial, simp_all)
  then show ?thesis using assms by (simp add: to_size_t_def)
qed

lemma NLA_ALIGN_gt:
  assumes "\<not> 4 dvd n"
  shows "n < NLA_ALIGN n"
  using assms NLA_ALIGN_dvd [of n] NLA_ALIGN_ge [of n] by (metis le_neq_implies_less)

lemma NLA_ALIGN_less: "NLA_ALIGN n < n + 4"
proof -
  have "(n + 3) div 4 * 4 \<le> n + 3" by simp
  then show ?thesis by (simp add: NLA_ALIGN_def)
qed

text \<open>C38. A stream whose last attribute is not padded is read beyond its end. When a block holds exactly one
  attribute and the payload's length is not a multiple of four, \<open>nla_parse\<close> without a policy accepts the
  attribute, subtracts its padded size, gets a negative remainder, and \<open>nla_ok\<close>, which converts the
  remainder to an unsigned type, goes on to read a header behind the block.\<close>

theorem nla_parse_overread:
  assumes "m = le_bytes 2 (4 + length d) @ le_bytes 2 t @ d" "\<not> 4 dvd length d" "length d < 2 ^ 16 - 4"
    and "0 < t" "int t \<le> maxtype" "t < 2 ^ 14"
  shows "nla_parse m maxtype 0 (int (length m)) None = UB"
proof -
  let ?l = "4 + length d"
  have lm: "length m = ?l" by (simp add: assms(1))
  have raw: "nla_raw_len m 0 = Ok ?l"
    using assms(1,3) by (simp add: nla_raw_len_def read_le_Ok)
  have type: "nla_type m 0 = Ok t"
    using assms(1,6) by (simp add: nla_type_def read_le_Ok)
  have ok: "nla_ok m 0 (int (length m)) = Ok True"
    using raw to_size_t_nat [of ?l] lm assms(3) by (simp add: nla_ok_def Let_def)
  have one: "parse_one m maxtype None tb 0 = Ok (0, tb[t := Some 0])" if "t < length tb" for tb
    using type assms(4,5) that by (simp add: parse_one_def)
  have al: "?l < NLA_ALIGN ?l" "NLA_ALIGN ?l < ?l + 4"
    using NLA_ALIGN_gt [of ?l] NLA_ALIGN_less [of ?l] assms(2) by auto
  have nxt: "nla_next m 0 (int (length m)) = Ok (NLA_ALIGN ?l, int ?l - int (NLA_ALIGN ?l))"
    using raw lm by (simp add: nla_next_def Let_def)
  have "2 ^ 63 \<le> to_size_t (int ?l - int (NLA_ALIGN ?l))"
  proof (rule to_size_t_neg)
    show "int ?l - int (NLA_ALIGN ?l) < 0" using al(1) by linarith
    have "- (int ?l - int (NLA_ALIGN ?l)) < 4" using al(2) by linarith
    then show "- (int ?l - int (NLA_ALIGN ?l)) < 2 ^ 63" by simp
  qed
  moreover have "nla_raw_len m (NLA_ALIGN ?l) = UB"
    using al(1) lm by (simp add: nla_raw_len_def read_le_def read_bytes_def)
  ultimately have stop: "nla_ok m (NLA_ALIGN ?l) (int ?l - int (NLA_ALIGN ?l)) = UB"
    by (simp add: nla_ok_def Let_def)
  have "parse_loop m maxtype None tb (NLA_ALIGN ?l) (int ?l - int (NLA_ALIGN ?l)) = UB" for tb
    using stop by (subst parse_loop.simps) simp
  moreover have "t < length (replicate (nat (maxtype + 1)) (None :: nat option))" using assms(4,5) by simp
  ultimately show ?thesis
    unfolding nla_parse_def using ok one nxt by (subst parse_loop.simps) simp
qed

theorem nla_parse_overread_witness: "nla_parse [5, 0, 1, 0, 42] 3 0 5 None = UB"
  using nla_parse_overread [of "[5, 0, 1, 0, 42]" "[42]" 1 3] by (simp add: le_bytes_2)

section \<open>Encoded streams\<close>

text \<open>The bytes of an attribute with its padding; the payload fits the 16-bit length field.\<close>

fun encode_attr :: "nat \<times> u8 list \<Rightarrow> u8 list" where
  "encode_attr (t, d) = le_bytes 2 (4 + length d) @ le_bytes 2 t @ d @ replicate (nla_padlen (length d)) 0"

definition encode_attrs :: "(nat \<times> u8 list) list \<Rightarrow> u8 list" where
  "encode_attrs as = concat (map encode_attr as)"

fun attr_ok :: "nat \<times> u8 list \<Rightarrow> bool" where
  "attr_ok (t, d) \<longleftrightarrow> t < 2 ^ 14 \<and> length d < 2 ^ 16 - 4"

text \<open>The index array a stream that starts at \<open>pos\<close> leads to: each type is mapped to its last occurrence.\<close>

fun index_attrs :: "int \<Rightarrow> nat \<Rightarrow> (nat \<times> u8 list) list \<Rightarrow> nat option list \<Rightarrow> nat option list" where
  "index_attrs maxtype pos [] tb = tb"
| "index_attrs maxtype pos ((t, d) # as) tb =
     index_attrs maxtype (pos + nla_total_size (length d)) as (if t \<noteq> 0 \<and> int t \<le> maxtype then tb[t := Some pos] else tb)"

lemma encode_attrs_simps [simp]:
  "encode_attrs [] = []" "encode_attrs (a # as) = encode_attr a @ encode_attrs as"
  "encode_attrs (as @ bs) = encode_attrs as @ encode_attrs bs"
  by (simp_all add: encode_attrs_def)

lemma length_encode_attr [simp]: "length (encode_attr (t, d)) = nla_total_size (length d)"
proof -
  have "length (encode_attr (t, d)) = 2 + 2 + length d + nla_padlen (length d)"
    by simp
  also have "\<dots> = 4 + length d + (NLA_ALIGN (4 + length d) - (4 + length d))"
    unfolding nla_padlen_def nla_total_size_def nla_attr_size_def by (rule arg_cong2 [where f = "(+)"]) simp_all
  also have "\<dots> = NLA_ALIGN (4 + length d)" by (rule le_add_diff_inverse) (rule NLA_ALIGN_ge)
  finally show ?thesis by (simp add: nla_total_size_def nla_attr_size_def)
qed

declare encode_attr.simps [simp del]

lemma nla_total_size_ge: "4 + n \<le> nla_total_size n"
  using NLA_ALIGN_ge [of "4 + n"] by (simp add: nla_total_size_def nla_attr_size_def)

lemma read_bytes_at: "read_bytes (pre @ bs @ post) (length pre) (length bs) = Ok bs"
  by (simp add: read_bytes_def)

text \<open>The header and the payload of an encoded attribute.\<close>

lemma encoded_attr:
  assumes "m = pre @ encode_attr (t, d) @ post" "attr_ok (t, d)"
  shows "nla_raw_len m (length pre) = Ok (4 + length d)" "nla_type m (length pre) = Ok t"
    "read_bytes m (nla_data (length pre)) (length d) = Ok d"
proof -
  let ?pad = "replicate (nla_padlen (length d)) (0 :: u8)"
  have "read_bytes (pre @ le_bytes 2 (4 + length d) @ (le_bytes 2 t @ d @ ?pad @ post)) (length pre) 2 =
      Ok (le_bytes 2 (4 + length d))" using read_bytes_at [of pre "le_bytes 2 (4 + length d)"] by simp
  then show "nla_raw_len m (length pre) = Ok (4 + length d)"
    using assms by (simp add: nla_raw_len_def read_le_def encode_attr.simps)
  have "read_bytes ((pre @ le_bytes 2 (4 + length d)) @ le_bytes 2 t @ (d @ ?pad @ post)) (length pre + 2) 2 =
      Ok (le_bytes 2 t)" using read_bytes_at [of "pre @ le_bytes 2 (4 + length d)" "le_bytes 2 t"] by simp
  then show "nla_type m (length pre) = Ok t"
    using assms by (simp add: nla_type_def read_le_def encode_attr.simps)
  have "read_bytes ((pre @ le_bytes 2 (4 + length d) @ le_bytes 2 t) @ d @ (?pad @ post)) (length pre + 4) (length d) = Ok d"
    using read_bytes_at [of "pre @ le_bytes 2 (4 + length d) @ le_bytes 2 t" d] by simp
  then show "read_bytes m (nla_data (length pre)) (length d) = Ok d"
    using assms by (simp add: nla_data_def encode_attr.simps)
qed

lemma parse_loop_encoded:
  assumes "\<forall>a \<in> set as. attr_ok a" "m = pre @ encode_attrs as @ post" "length (encode_attrs as) < 2 ^ 64"
    and "length tb = nat (maxtype + 1)"
  shows "parse_loop m maxtype None tb (length pre) (int (length (encode_attrs as))) = Ok (0, index_attrs maxtype (length pre) as tb)"
  using assms
proof (induction as arbitrary: pre tb)
  case Nil
  have "nla_ok m (length pre) 0 = Ok False" by (simp add: nla_ok_def to_size_t_def Let_def)
  then show ?case by (subst parse_loop.simps) simp
next
  case (Cons a as)
  obtain t d where a: "a = (t, d)" by (cases a)
  let ?len = "length (encode_attrs (a # as))" and ?tot = "nla_total_size (length d)"
  have m: "m = pre @ encode_attr (t, d) @ (encode_attrs as @ post)" using Cons.prems(2) a by simp
  have "attr_ok (t, d)" using Cons.prems(1) a by simp
  note hdr = encoded_attr [OF m this]
  have len: "?len = ?tot + length (encode_attrs as)" using a by simp
  then have ok: "nla_ok m (length pre) (int ?len) = Ok True"
    using hdr(1) to_size_t_nat [of ?len] Cons.prems(3) nla_total_size_ge [of "length d"]
    by (simp add: nla_ok_def Let_def)
  let ?tb = "if t \<noteq> 0 \<and> int t \<le> maxtype then tb[t := Some (length pre)] else tb"
  have one: "parse_one m maxtype None tb (length pre) = Ok (0, ?tb)"
    using hdr(2) Cons.prems(4) by (auto simp: parse_one_def)
  have nxt: "nla_next m (length pre) (int ?len) = Ok (length pre + ?tot, int (length (encode_attrs as)))"
    using hdr(1) len by (simp add: nla_next_def Let_def nla_total_size_def nla_attr_size_def)
  have "parse_loop m maxtype None ?tb (length (pre @ encode_attr a)) (int (length (encode_attrs as))) =
      Ok (0, index_attrs maxtype (length (pre @ encode_attr a)) as ?tb)"
    by (rule Cons.IH) (use Cons.prems a in auto)
  then have "parse_loop m maxtype None ?tb (length pre + ?tot) (int (length (encode_attrs as))) =
      Ok (0, index_attrs maxtype (length pre + ?tot) as ?tb)" using a by simp
  then show ?case using ok one nxt a by (subst parse_loop.simps) simp
qed

lemma length_index_attrs [simp]: "length (index_attrs maxtype pos as tb) = length tb"
  by (induction maxtype pos as tb rule: index_attrs.induct) auto

text \<open>An entry of the index array leads to the payload of the last attribute of that type.\<close>

lemma index_attrs_payload:
  assumes "\<forall>a \<in> set as. attr_ok a" "m = pre @ encode_attrs as @ post" "length tb = nat (maxtype + 1)" "0 < t" "int t \<le> maxtype"
  shows "case index_attrs maxtype (length pre) as tb ! t of
      None \<Rightarrow> t \<notin> fst ` set as \<and> tb ! t = None
    | Some a \<Rightarrow> if t \<in> fst ` set as then \<exists>d. map_of (rev as) t = Some d \<and> nla_len m a = Ok (int (length d)) \<and>
          nla_type m a = Ok t \<and> read_bytes m (nla_data a) (length d) = Ok d
        else tb ! t = Some a"
  using assms
proof (induction as arbitrary: pre tb)
  case Nil
  then show ?case by (auto split: option.splits)
next
  case (Cons x as)
  obtain u d where x: "x = (u, d)" by (cases x)
  let ?tb = "if u \<noteq> 0 \<and> int u \<le> maxtype then tb[u := Some (length pre)] else tb"
  define r where "r = index_attrs maxtype (length (pre @ encode_attr x)) as ?tb ! t"
  have r: "index_attrs maxtype (length pre) (x # as) tb ! t = r" by (simp add: r_def x)
  have ih: "case r of
      None \<Rightarrow> t \<notin> fst ` set as \<and> ?tb ! t = None
    | Some a \<Rightarrow> if t \<in> fst ` set as then \<exists>d. map_of (rev as) t = Some d \<and> nla_len m a = Ok (int (length d)) \<and>
          nla_type m a = Ok t \<and> read_bytes m (nla_data a) (length d) = Ok d
        else ?tb ! t = Some a"
    unfolding r_def by (rule Cons.IH) (use Cons.prems x in auto)
  have m: "m = pre @ encode_attr (u, d) @ (encode_attrs as @ post)" using Cons.prems(2) x by simp
  have "attr_ok (u, d)" using Cons.prems(1) x by simp
  note hdr = encoded_attr [OF m this]
  have "nla_len m (length pre) = Ok (int (length d))" using hdr(1) by (simp add: nla_len_def)
  moreover have "map_of (rev as) t = None" if "t \<notin> fst ` set as" using that by (simp add: map_of_eq_None_iff)
  moreover have "t < length tb" using Cons.prems(3-5) by linarith
  moreover have "\<exists>d. map_of (rev as) t = Some d" if "t \<in> fst ` set as"
    using that by (metis domD dom_map_of_conv_image_fst set_rev)
  ultimately show ?case
    unfolding r using ih hdr(2,3) x Cons.prems(4,5)
    by (cases "t \<in> fst ` set as"; cases "u = t"; cases r) (auto simp: map_add_def split: option.splits if_splits)
qed

end
