(* ===== verification/Netlink_Msg.thy ===== *)
theory Netlink_Msg
  imports Netlink_Attr
begin

text \<open>
  Netlink messages as in \<^verbatim>\<open>src/libnl/msg.c\<close> and \<^verbatim>\<open>src/libnl/include/netlink/msg.h\<close>, and the construction of attributes
  of \<^verbatim>\<open>src/libnl/attr.c\<close>. A message object owns a block of \<open>nm_size\<close> bytes that starts with the header
  \<^verbatim>\<open>struct nlmsghdr\<close>. What \<open>malloc\<close> leaves in a new block is an argument.
\<close>

section \<open>Header\<close>

text \<open>\<open>NLMSG_ALIGN\<close> computes in 32-bit unsigned arithmetic.\<close>

definition NLMSG_ALIGN :: "nat \<Rightarrow> nat" where
  "NLMSG_ALIGN len = (len + 3) mod 2 ^ 32 div 4 * 4"

abbreviation (input) NLMSG_HDRLEN :: nat where "NLMSG_HDRLEN \<equiv> 16"

definition nlh_len :: "u8 list \<Rightarrow> nat \<Rightarrow> nat outcome" where
  "nlh_len m nlh = read_le 4 m nlh"

definition nlh_type :: "u8 list \<Rightarrow> nat \<Rightarrow> u16 outcome" where
  "nlh_type m nlh = bind_outcome (read_le 2 m (nlh + 4)) (\<lambda>v. Ok (of_nat v))"

definition nlh_flags :: "u8 list \<Rightarrow> nat \<Rightarrow> u16 outcome" where
  "nlh_flags m nlh = bind_outcome (read_le 2 m (nlh + 6)) (\<lambda>v. Ok (of_nat v))"

definition nlh_seq :: "u8 list \<Rightarrow> nat \<Rightarrow> u32 outcome" where
  "nlh_seq m nlh = bind_outcome (read_le 4 m (nlh + 8)) (\<lambda>v. Ok (of_nat v))"

definition nlh_pid :: "u8 list \<Rightarrow> nat \<Rightarrow> u32 outcome" where
  "nlh_pid m nlh = bind_outcome (read_le 4 m (nlh + 12)) (\<lambda>v. Ok (of_nat v))"

definition nlmsg_msg_size :: "nat \<Rightarrow> nat" where
  "nlmsg_msg_size payload = NLMSG_HDRLEN + payload"

definition nlmsg_total_size :: "nat \<Rightarrow> nat" where
  "nlmsg_total_size payload = NLMSG_ALIGN (nlmsg_msg_size payload)"

definition nlmsg_data :: "nat \<Rightarrow> nat" where
  "nlmsg_data nlh = nlh + NLMSG_HDRLEN"

definition nlmsg_tail :: "u8 list \<Rightarrow> nat \<Rightarrow> nat outcome" where
  "nlmsg_tail m nlh = bind_outcome (nlh_len m nlh) (\<lambda>l. Ok (nlh + NLMSG_ALIGN l))"

text \<open>The payload length is an \<^verbatim>\<open>int\<close>: the 32-bit difference read as signed.\<close>

definition to_int :: "int \<Rightarrow> int" where
  "to_int i = (let w = i mod 2 ^ 32 in if w < 2 ^ 31 then w else w - 2 ^ 32)"

definition nlmsg_len :: "u8 list \<Rightarrow> nat \<Rightarrow> int outcome" where
  "nlmsg_len m nlh = bind_outcome (nlh_len m nlh) (\<lambda>l. Ok (to_int (int l - int NLMSG_HDRLEN)))"

definition nlmsg_attrdata :: "nat \<Rightarrow> nat \<Rightarrow> nat" where
  "nlmsg_attrdata nlh hdrlen = nlmsg_data nlh + NLMSG_ALIGN hdrlen"

definition nlmsg_attrlen :: "u8 list \<Rightarrow> nat \<Rightarrow> nat \<Rightarrow> int outcome" where
  "nlmsg_attrlen m nlh hdrlen = bind_outcome (nlmsg_len m nlh) (\<lambda>l. Ok (to_int (l - int (NLMSG_ALIGN hdrlen))))"

definition nlmsg_valid_hdr :: "u8 list \<Rightarrow> nat \<Rightarrow> nat \<Rightarrow> bool outcome" where
  "nlmsg_valid_hdr m nlh hdrlen = bind_outcome (nlh_len m nlh) (\<lambda>l. Ok (\<not> l < nlmsg_msg_size hdrlen))"

section \<open>Parsing\<close>

definition nlmsg_ok :: "u8 list \<Rightarrow> nat \<Rightarrow> int \<Rightarrow> bool outcome" where
  "nlmsg_ok m nlh remaining =
     (let r = to_size_t remaining
      in if r < NLMSG_HDRLEN then Ok False
         else bind_outcome (nlh_len m nlh) (\<lambda>l. Ok (NLMSG_HDRLEN \<le> l \<and> l \<le> r)))"

definition nlmsg_next :: "u8 list \<Rightarrow> nat \<Rightarrow> int \<Rightarrow> (int \<times> int) outcome" where
  "nlmsg_next m nlh remaining =
     bind_outcome (nlh_len m nlh) (\<lambda>l.
       let totlen = to_int (int (NLMSG_ALIGN l)) in Ok (int nlh + totlen, remaining - totlen))"

definition nlmsg_parse ::
  "u8 list \<Rightarrow> nat \<Rightarrow> nat \<Rightarrow> int \<Rightarrow> nla_policy list option \<Rightarrow> (int \<times> nat option list) outcome" where
  "nlmsg_parse m nlh hdrlen maxtype policy =
     bind_outcome (nlmsg_valid_hdr m nlh hdrlen) (\<lambda>valid.
       if \<not> valid then Ok (- NLE_MSG_TOOSHORT, [])
       else bind_outcome (nlmsg_attrlen m nlh hdrlen) (\<lambda>len.
              nla_parse m maxtype (nlmsg_attrdata nlh hdrlen) len policy))"

definition nlmsg_validate :: "u8 list \<Rightarrow> nat \<Rightarrow> nat \<Rightarrow> int \<Rightarrow> nla_policy list \<Rightarrow> int outcome" where
  "nlmsg_validate m nlh hdrlen maxtype policy =
     bind_outcome (nlmsg_valid_hdr m nlh hdrlen) (\<lambda>valid.
       if \<not> valid then Ok (- NLE_MSG_TOOSHORT)
       else bind_outcome (nlmsg_attrlen m nlh hdrlen) (\<lambda>len.
              nla_validate m (nlmsg_attrdata nlh hdrlen) len maxtype policy))"

definition nlmsg_find_attr :: "u8 list \<Rightarrow> nat \<Rightarrow> nat \<Rightarrow> nat \<Rightarrow> nat option outcome" where
  "nlmsg_find_attr m nlh hdrlen attrtype =
     bind_outcome (nlmsg_attrlen m nlh hdrlen) (\<lambda>len. nla_find m (nlmsg_attrdata nlh hdrlen) len attrtype)"

section \<open>Message objects\<close>

record nl_msg =
  nm_protocol :: int
  nm_nlh :: "u8 list"
  nm_size :: nat
  nm_refcnt :: int

text \<open>\<open>junk\<close>: the content of the block \<open>malloc\<close> returns; a block smaller than the header is overrun.\<close>

definition nlmsg_alloc_len :: "alloc \<Rightarrow> (nat \<Rightarrow> u8 list) \<Rightarrow> nat \<Rightarrow> nl_msg option outcome" where
  "nlmsg_alloc_len mem junk len =
     (if \<not> mem 1 \<or> \<not> mem len then Ok None
      else bind_outcome (write_bytes (junk len) 0 (replicate 16 0)) (\<lambda>b.
           bind_outcome (write_bytes b 0 (le_bytes 4 (nlmsg_total_size 0))) (\<lambda>b.
             Ok (Some \<lparr>nm_protocol = -1, nm_nlh = b, nm_size = len, nm_refcnt = 1\<rparr>))))"

definition nlmsg_alloc_size :: "alloc \<Rightarrow> (nat \<Rightarrow> u8 list) \<Rightarrow> nat \<Rightarrow> nl_msg option outcome" where
  "nlmsg_alloc_size mem junk n = nlmsg_alloc_len mem junk n"

text \<open>\<open>default_msg_size\<close> is a global variable, an argument here.\<close>

definition nlmsg_alloc :: "alloc \<Rightarrow> (nat \<Rightarrow> u8 list) \<Rightarrow> nat \<Rightarrow> nl_msg option outcome" where
  "nlmsg_alloc mem junk default_msg_size = nlmsg_alloc_len mem junk default_msg_size"

definition nlmsg_set_default_size :: "nat \<Rightarrow> nat" where
  "nlmsg_set_default_size n = (if n < nlmsg_total_size 0 then nlmsg_total_size 0 else n)"

text \<open>The fields of the header after the length: type, flags, sequence number and port.\<close>

definition put_header :: "u8 list \<Rightarrow> u16 \<Rightarrow> u16 \<Rightarrow> u32 \<Rightarrow> u32 \<Rightarrow> u8 list outcome" where
  "put_header b type flags seq pid =
     write_bytes b 4 (le_bytes 2 (unat type) @ le_bytes 2 (unat flags) @ le_bytes 4 (unat seq) @ le_bytes 4 (unat pid))"

definition nlmsg_alloc_simple ::
  "alloc \<Rightarrow> (nat \<Rightarrow> u8 list) \<Rightarrow> nat \<Rightarrow> u16 \<Rightarrow> u16 \<Rightarrow> nl_msg option outcome" where
  "nlmsg_alloc_simple mem junk default_msg_size type flags =
     bind_outcome (nlmsg_alloc mem junk default_msg_size) (\<lambda>r.
       case r of None \<Rightarrow> Ok None
       | Some nm \<Rightarrow> bind_outcome (put_header (nm_nlh nm) type flags 0 0) (\<lambda>b. Ok (Some (nm\<lparr>nm_nlh := b\<rparr>))))"

definition nlmsg_inherit ::
  "alloc \<Rightarrow> (nat \<Rightarrow> u8 list) \<Rightarrow> nat \<Rightarrow> (u8 list \<times> nat) option \<Rightarrow> nl_msg option outcome" where
  "nlmsg_inherit mem junk default_msg_size hdr =
     bind_outcome (nlmsg_alloc mem junk default_msg_size) (\<lambda>r.
       case (r, hdr) of
         (Some nm, Some (m, h)) \<Rightarrow>
           bind_outcome (nlh_type m h) (\<lambda>type. bind_outcome (nlh_flags m h) (\<lambda>flags.
           bind_outcome (nlh_seq m h) (\<lambda>seq. bind_outcome (nlh_pid m h) (\<lambda>pid.
           bind_outcome (put_header (nm_nlh nm) type flags seq pid) (\<lambda>b. Ok (Some (nm\<lparr>nm_nlh := b\<rparr>)))))))
       | _ \<Rightarrow> Ok r)"

text \<open>The copy of a received message; \<open>nlmsg_convert\<close> allocates the aligned length.\<close>

definition nlmsg_convert :: "alloc \<Rightarrow> (nat \<Rightarrow> u8 list) \<Rightarrow> u8 list \<Rightarrow> nat \<Rightarrow> nl_msg option outcome" where
  "nlmsg_convert mem junk m hdr =
     bind_outcome (nlh_len m hdr) (\<lambda>l.
     bind_outcome (nlmsg_alloc_len mem junk (NLMSG_ALIGN l)) (\<lambda>r.
       case r of None \<Rightarrow> Ok None
       | Some nm \<Rightarrow> bind_outcome (read_bytes m hdr l) (\<lambda>bs.
           bind_outcome (write_bytes (nm_nlh nm) 0 bs) (\<lambda>b. Ok (Some (nm\<lparr>nm_nlh := b\<rparr>))))))"

section \<open>Building\<close>

definition set_nlmsg_len :: "nl_msg \<Rightarrow> nat \<Rightarrow> nl_msg outcome" where
  "set_nlmsg_len n l = bind_outcome (write_bytes (nm_nlh n) 0 (le_bytes 4 l)) (\<lambda>b. Ok (n\<lparr>nm_nlh := b\<rparr>))"

text \<open>\<open>pad\<close> is 0 or a power of two; the offset of the reserved room.\<close>

definition nlmsg_reserve :: "nl_msg \<Rightarrow> nat \<Rightarrow> nat \<Rightarrow> (nat option \<times> nl_msg) outcome" where
  "nlmsg_reserve n len pad =
     bind_outcome (nlh_len (nm_nlh n) 0) (\<lambda>l.
       let tlen = (if pad \<noteq> 0 then (len + (pad - 1)) div pad * pad else len)
       in if tlen + l > nm_size n then Ok (None, n)
          else bind_outcome (set_nlmsg_len n (l + tlen)) (\<lambda>n.
               if tlen > len then
                 bind_outcome (write_bytes (nm_nlh n) (l + len) (replicate (tlen - len) 0)) (\<lambda>b.
                   Ok (Some l, n\<lparr>nm_nlh := b\<rparr>))
               else Ok (Some l, n)))"

definition nlmsg_append :: "nl_msg \<Rightarrow> u8 list \<Rightarrow> nat \<Rightarrow> (int \<times> nl_msg) outcome" where
  "nlmsg_append n data pad =
     bind_outcome (nlmsg_reserve n (length data) pad) (\<lambda>(tmp, n).
       case tmp of None \<Rightarrow> Ok (- NLE_NOMEM, n)
       | Some at \<Rightarrow> bind_outcome (write_bytes (nm_nlh n) at data) (\<lambda>b. Ok (0, n\<lparr>nm_nlh := b\<rparr>)))"

definition nlmsg_put :: "nl_msg \<Rightarrow> u32 \<Rightarrow> u32 \<Rightarrow> u16 \<Rightarrow> nat \<Rightarrow> u16 \<Rightarrow> (nat option \<times> nl_msg) outcome" where
  "nlmsg_put n pid seq type payload flags =
     bind_outcome (nlh_len (nm_nlh n) 0) (\<lambda>l.
       if l < NLMSG_HDRLEN then Fail
       else bind_outcome (put_header (nm_nlh n) type flags seq pid) (\<lambda>b.
            let n = n\<lparr>nm_nlh := b\<rparr>
            in if payload > 0 then
                 bind_outcome (nlmsg_reserve n payload 4) (\<lambda>(tmp, n).
                   Ok (if tmp = None then None else Some 0, n))
               else Ok (Some 0, n)))"

text \<open>The last reference frees the message; \<^const>\<open>None\<close> when nothing is left.\<close>

definition nlmsg_get :: "nl_msg \<Rightarrow> nl_msg" where
  "nlmsg_get n = n\<lparr>nm_refcnt := nm_refcnt n + 1\<rparr>"

definition nlmsg_free :: "nl_msg \<Rightarrow> nl_msg option outcome" where
  "nlmsg_free n =
     (let n = n\<lparr>nm_refcnt := nm_refcnt n - 1\<rparr>
      in if nm_refcnt n < 0 then Fail else if nm_refcnt n \<le> 0 then Ok None else Ok (Some n))"

definition nlmsg_expand :: "alloc \<Rightarrow> (nat \<Rightarrow> u8 list) \<Rightarrow> nl_msg \<Rightarrow> nat \<Rightarrow> int \<times> nl_msg" where
  "nlmsg_expand mem junk n newlen =
     (if newlen \<le> nm_size n then (- NLE_INVAL, n)
      else if \<not> mem newlen then (- NLE_NOMEM, n)
      else (0, n\<lparr>nm_nlh := nm_nlh n @ junk (newlen - nm_size n), nm_size := newlen\<rparr>))"

text \<open>The header fields of an attribute are 16 bits wide; the padding starts behind the stored length.\<close>

definition nla_reserve :: "nl_msg \<Rightarrow> nat \<Rightarrow> nat \<Rightarrow> (nat option \<times> nl_msg) outcome" where
  "nla_reserve msg attrtype attrlen =
     bind_outcome (nlh_len (nm_nlh msg) 0) (\<lambda>l.
       let tlen = NLMSG_ALIGN l + nla_total_size attrlen
       in if tlen > nm_size msg \<or> tlen > 2 ^ 32 - 1 then Ok (None, msg)
          else let nla = NLMSG_ALIGN l; nlen = nla_attr_size attrlen mod 2 ^ 16
            in bind_outcome (write_bytes (nm_nlh msg) nla (le_bytes 2 nlen @ le_bytes 2 attrtype)) (\<lambda>b.
               bind_outcome (write_bytes b (nla + nlen) (replicate (nla_padlen attrlen) 0)) (\<lambda>b.
               bind_outcome (set_nlmsg_len (msg\<lparr>nm_nlh := b\<rparr>) tlen) (\<lambda>msg. Ok (Some nla, msg)))))"

definition nla_put :: "nl_msg \<Rightarrow> nat \<Rightarrow> u8 list \<Rightarrow> (int \<times> nl_msg) outcome" where
  "nla_put msg attrtype data =
     bind_outcome (nla_reserve msg attrtype (length data)) (\<lambda>(nla, msg).
       case nla of None \<Rightarrow> Ok (- NLE_NOMEM, msg)
       | Some a \<Rightarrow> bind_outcome (write_bytes (nm_nlh msg) (nla_data a) data) (\<lambda>b. Ok (0, msg\<lparr>nm_nlh := b\<rparr>)))"

definition nla_put_u8 :: "nl_msg \<Rightarrow> nat \<Rightarrow> u8 \<Rightarrow> (int \<times> nl_msg) outcome" where
  "nla_put_u8 msg attrtype v = nla_put msg attrtype (le_bytes 1 (unat v))"

definition nla_put_u16 :: "nl_msg \<Rightarrow> nat \<Rightarrow> u16 \<Rightarrow> (int \<times> nl_msg) outcome" where
  "nla_put_u16 msg attrtype v = nla_put msg attrtype (le_bytes 2 (unat v))"

definition nla_put_u32 :: "nl_msg \<Rightarrow> nat \<Rightarrow> u32 \<Rightarrow> (int \<times> nl_msg) outcome" where
  "nla_put_u32 msg attrtype v = nla_put msg attrtype (le_bytes 4 (unat v))"

definition nla_put_u64 :: "nl_msg \<Rightarrow> nat \<Rightarrow> u64 \<Rightarrow> (int \<times> nl_msg) outcome" where
  "nla_put_u64 msg attrtype v = nla_put msg attrtype (le_bytes 8 (unat v))"

definition bytes_of_string :: "string \<Rightarrow> u8 list" where
  "bytes_of_string s = map (\<lambda>c. of_nat (of_char c)) s @ [0]"

definition nla_put_string :: "nl_msg \<Rightarrow> nat \<Rightarrow> string \<Rightarrow> (int \<times> nl_msg) outcome" where
  "nla_put_string msg attrtype str = nla_put msg attrtype (bytes_of_string str)"

definition nla_put_flag :: "nl_msg \<Rightarrow> nat \<Rightarrow> (int \<times> nl_msg) outcome" where
  "nla_put_flag msg attrtype = nla_put msg attrtype []"

definition nla_nest_start :: "nl_msg \<Rightarrow> nat \<Rightarrow> (nat option \<times> nl_msg) outcome" where
  "nla_nest_start msg attrtype =
     bind_outcome (nlmsg_tail (nm_nlh msg) 0) (\<lambda>start.
     bind_outcome (nla_put msg (attrtype OR 2 ^ 15) []) (\<lambda>(err, msg).
       Ok (if err < 0 then None else Some start, msg)))"

definition nla_nest_end :: "nl_msg \<Rightarrow> nat \<Rightarrow> (int \<times> nl_msg) outcome" where
  "nla_nest_end msg start =
     bind_outcome (nlmsg_tail (nm_nlh msg) 0) (\<lambda>tail.
     bind_outcome (write_bytes (nm_nlh msg) start (le_bytes 2 (tail - start))) (\<lambda>b. Ok (0, msg\<lparr>nm_nlh := b\<rparr>)))"

section \<open>What building a message leaves in its block\<close>

text \<open>The block holds a header whose length field covers \<open>body\<close>, followed by \<open>body\<close> and unused room.\<close>

definition msg_holds :: "nl_msg \<Rightarrow> u8 list \<Rightarrow> bool" where
  "msg_holds n body \<longleftrightarrow> length (nm_nlh n) = nm_size n \<and> nm_size n < 2 ^ 31 \<and>
     (\<exists>hdr junk. length hdr = 12 \<and> nm_nlh n = le_bytes 4 (16 + length body) @ hdr @ body @ junk)"

lemma write_bytes_at:
  "length old = length bs \<Longrightarrow> write_bytes (pre @ old @ post) (length pre) bs = Ok (pre @ bs @ post)"
  by (simp add: write_bytes_def)

lemma write_bytes_at':
  assumes "length old = length bs" "i = length pre"
  shows "write_bytes (pre @ old @ post) i bs = Ok (pre @ bs @ post)"
  using write_bytes_at [OF assms(1)] assms(2) by simp

lemma split_at: "k \<le> length xs \<Longrightarrow> \<exists>a b. xs = a @ b \<and> length a = k"
  by (rule exI [of _ "take k xs"], rule exI [of _ "drop k xs"]) simp

lemma NLMSG_ALIGN_eq: "n < 2 ^ 32 - 3 \<Longrightarrow> NLMSG_ALIGN n = NLA_ALIGN n"
  by (simp add: NLMSG_ALIGN_def NLA_ALIGN_def)

lemma NLA_ALIGN_id: "4 dvd n \<Longrightarrow> NLA_ALIGN n = n"
  using NLA_ALIGN_le [of n n] NLA_ALIGN_ge [of n] by simp

lemma msg_holds_len:
  assumes "msg_holds n body"
  shows "nlh_len (nm_nlh n) 0 = Ok (16 + length body)" "16 + length body \<le> nm_size n" "nm_size n < 2 ^ 31"
proof -
  obtain hdr junk where b: "length hdr = 12" "nm_nlh n = le_bytes 4 (16 + length body) @ hdr @ body @ junk"
    and sz: "length (nm_nlh n) = nm_size n" "nm_size n < 2 ^ 31" using assms by (auto simp: msg_holds_def)
  have len: "nm_size n = 16 + length body + length junk" using b sz(1) by simp
  show "16 + length body \<le> nm_size n" "nm_size n < 2 ^ 31" using len sz(2) by simp_all
  have "16 + length body < 256 ^ 4" using len sz(2) by simp
  then show "nlh_len (nm_nlh n) 0 = Ok (16 + length body)"
    by (simp add: nlh_len_def read_le_Ok b)
qed

lemma nla_put_holds:
  assumes "msg_holds n body" "4 dvd length body" "attr_ok (t, d)"
  shows "if 16 + length body + nla_total_size (length d) \<le> nm_size n
    then \<exists>n'. nla_put n t d = Ok (0, n') \<and> msg_holds n' (body @ encode_attr (t, d)) \<and> nm_size n' = nm_size n
    else nla_put n t d = Ok (- NLE_NOMEM, n)"
proof -
  let ?tot = "nla_total_size (length d)" and ?pad = "nla_padlen (length d)"
  note len = msg_holds_len [OF assms(1)]
  have al: "NLMSG_ALIGN (16 + length body) = 16 + length body"
    using len(2,3) assms(2) by (simp add: NLMSG_ALIGN_eq NLA_ALIGN_id)
  show ?thesis
  proof (cases "16 + length body + ?tot \<le> nm_size n")
    case False
    then show ?thesis using len(1) al by (simp add: nla_put_def nla_reserve_def)
  next
    case fits: True
    obtain hdr junk where b: "length hdr = 12" "nm_nlh n = le_bytes 4 (16 + length body) @ hdr @ body @ junk"
      and sz: "length (nm_nlh n) = nm_size n" using assms(1) by (auto simp: msg_holds_def)
    have tot: "?tot = 4 + (length d + ?pad)"
      using nla_total_size_ge [of "length d"] by (simp add: nla_padlen_def nla_attr_size_def)
    have "4 + (length d + ?pad) \<le> length junk" using fits sz b tot by simp
    then obtain j1 r1 where j1: "junk = j1 @ r1" "length j1 = 4" "length d + ?pad \<le> length r1"
      using split_at [of 4 junk] by force
    obtain j2 r2 where j2: "r1 = j2 @ r2" "length j2 = length d" "?pad \<le> length r2"
      using split_at [of "length d" r1] j1(3) by force
    obtain j3 r3 where j3: "r2 = j3 @ r3" "length j3 = ?pad" using split_at [of ?pad r2] j2(3) by force
    define pre where "pre = le_bytes 4 (16 + length body) @ hdr @ body"
    define h where "h = le_bytes 2 (4 + length d) @ le_bytes 2 t"
    define z where "z = replicate ?pad (0 :: u8)"
    have lens: "length pre = 16 + length body" "length h = 4" "length z = ?pad" by (simp_all add: pre_def h_def z_def b)
    have nlen: "nla_attr_size (length d) mod 65536 = 4 + length d" using assms(3) by (simp add: nla_attr_size_def)
    have blk: "nm_nlh n = pre @ j1 @ (j2 @ j3 @ r3)" by (simp add: pre_def b j1 j2 j3)
    have w1: "write_bytes (nm_nlh n) (16 + length body) h = Ok (pre @ h @ j2 @ j3 @ r3)"
      unfolding blk by (rule write_bytes_at') (use lens j1 in simp_all)
    have "write_bytes ((pre @ h @ j2) @ j3 @ r3) (16 + length body + (4 + length d)) z = Ok ((pre @ h @ j2) @ z @ r3)"
      by (rule write_bytes_at') (use lens j2 j3 in simp_all)
    then have w2: "write_bytes (pre @ h @ j2 @ j3 @ r3) (16 + length body + (4 + length d)) z = Ok (pre @ h @ j2 @ z @ r3)"
      by simp
    let ?new = "le_bytes 4 (16 + length body + ?tot)"
    have "write_bytes ([] @ le_bytes 4 (16 + length body) @ (hdr @ body @ h @ j2 @ z @ r3)) 0 ?new =
        Ok ([] @ ?new @ (hdr @ body @ h @ j2 @ z @ r3))" by (rule write_bytes_at') simp_all
    then have w3: "write_bytes (pre @ h @ j2 @ z @ r3) 0 ?new = Ok (?new @ hdr @ body @ h @ j2 @ z @ r3)"
      by (simp add: pre_def)
    have "write_bytes ((?new @ hdr @ body @ h) @ j2 @ (z @ r3)) (16 + length body + 4) d =
        Ok ((?new @ hdr @ body @ h) @ d @ (z @ r3))" by (rule write_bytes_at') (use lens b j2 in simp_all)
    then have w4: "write_bytes (?new @ hdr @ body @ h @ j2 @ z @ r3) (16 + length body + 4) d =
        Ok (?new @ hdr @ body @ h @ d @ z @ r3)" by simp
    let ?n = "n\<lparr>nm_nlh := ?new @ hdr @ body @ h @ d @ z @ r3\<rparr>"
    have small: "\<not> 16 + length body + ?tot > 2 ^ 32 - 1" using fits len(3) by simp
    have "nla_put n t d = Ok (0, ?n)"
      using len(1) al fits small w1 w2 w3 w4 unfolding nla_put_def nla_reserve_def set_nlmsg_len_def
      by (simp add: Let_def nlen nla_data_def h_def [symmetric] z_def [symmetric])
    moreover have "msg_holds ?n (body @ encode_attr (t, d))"
    proof -
      have e: "encode_attr (t, d) = h @ d @ z" by (simp add: encode_attr.simps h_def z_def)
      have l: "length (encode_attr (t, d)) = ?tot" by simp
      have "length (nm_nlh ?n) = nm_size ?n" using sz b lens j1 j2 j3 by simp
      moreover have "nm_nlh ?n = le_bytes 4 (16 + length (body @ encode_attr (t, d))) @ hdr @ (body @ encode_attr (t, d)) @ r3"
        using l by (simp add: e add.assoc)
      moreover have "nm_size ?n < 2 ^ 31" using len(3) by simp
      ultimately show ?thesis using b(1) unfolding msg_holds_def by blast
    qed
    ultimately show ?thesis using fits by auto
  qed
qed

lemma nlmsg_alloc_holds:
  assumes "nlmsg_alloc_size mem junk sz = Ok (Some n)" "length (junk sz) = sz" "sz < 2 ^ 31"
  shows "msg_holds n [] \<and> nm_size n = sz"
proof -
  have ge: "16 \<le> sz"
    using assms(1,2) by (auto simp: nlmsg_alloc_size_def nlmsg_alloc_len_def write_bytes_def split: if_splits)
  then obtain j r where j: "junk sz = j @ r" "length j = 16" using assms(2) ge split_at [of 16 "junk sz"] by auto
  have "write_bytes ([] @ j @ r) 0 (replicate 16 0) = Ok ([] @ replicate 16 0 @ r)"
    by (rule write_bytes_at') (use j in simp_all)
  then have w1: "write_bytes (junk sz) 0 (replicate 16 0) = Ok (replicate 4 0 @ replicate 12 0 @ r)"
    by (simp add: j replicate_add [symmetric])
  have "write_bytes ([] @ replicate 4 0 @ (replicate 12 0 @ r)) 0 (le_bytes 4 16) = Ok ([] @ le_bytes 4 16 @ (replicate 12 0 @ r))"
    by (rule write_bytes_at') simp_all
  then have w2: "write_bytes (replicate 4 0 @ replicate 12 0 @ r) 0 (le_bytes 4 16) = Ok (le_bytes 4 16 @ replicate 12 0 @ r)"
    by simp
  have t: "nlmsg_total_size 0 = 16" by (simp add: nlmsg_total_size_def nlmsg_msg_size_def NLMSG_ALIGN_def)
  have "n = \<lparr>nm_protocol = -1, nm_nlh = le_bytes 4 16 @ replicate 12 0 @ r, nm_size = sz, nm_refcnt = 1\<rparr>"
    using assms(1) w1 w2 by (simp add: nlmsg_alloc_size_def nlmsg_alloc_len_def t split: if_splits)
  moreover have "length r + 16 = sz" using j assms(2) by simp
  moreover have "\<exists>hdr junk. length hdr = 12 \<and> le_bytes 4 16 @ replicate 12 0 @ r = le_bytes 4 16 @ hdr @ junk"
    by (rule exI [of _ "replicate 12 0"]) simp
  ultimately show ?thesis using assms(3) unfolding msg_holds_def by simp
qed

text \<open>The family header, padded to four bytes.\<close>

definition padded :: "u8 list \<Rightarrow> u8 list" where
  "padded hdr = hdr @ replicate (NLA_ALIGN (length hdr) - length hdr) 0"

lemma length_padded [simp]: "length (padded hdr) = NLA_ALIGN (length hdr)"
  using NLA_ALIGN_ge [of "length hdr"] by (simp add: padded_def del: NLA_ALIGN_ge)

lemma nlmsg_append_holds:
  assumes "msg_holds n []" "nlmsg_append n fam 4 = Ok (0, n')"
  shows "msg_holds n' (padded fam) \<and> nm_size n' = nm_size n"
proof -
  let ?al = "NLA_ALIGN (length fam)"
  note len = msg_holds_len [OF assms(1)]
  obtain hdr junk where b: "length hdr = 12" "nm_nlh n = le_bytes 4 16 @ hdr @ junk"
    and sz: "length (nm_nlh n) = nm_size n" using assms(1) by (auto simp: msg_holds_def)
  have al: "(length fam + 3) div 4 * 4 = ?al" by (simp add: NLA_ALIGN_def)
  have fits: "16 + ?al \<le> nm_size n"
    using assms(2) len(1) by (auto simp: nlmsg_append_def nlmsg_reserve_def Let_def al bind_outcome_Ok_iff split: if_splits)
  then have "?al \<le> length junk" using sz b by simp
  then obtain j r where j: "junk = j @ r" "length j = ?al" using split_at by blast
  obtain j1 j2 where j12: "j = j1 @ j2" "length j1 = length fam"
    using split_at [of "length fam" j] j(2) NLA_ALIGN_ge [of "length fam"] by metis
  define z where "z = replicate (?al - length fam) (0 :: u8)"
  have lj2: "length j2 = length z" using j(2) j12 by (simp add: z_def)
  let ?new = "le_bytes 4 (16 + ?al)"
  have "write_bytes ([] @ le_bytes 4 16 @ (hdr @ j1 @ j2 @ r)) 0 ?new = Ok ([] @ ?new @ (hdr @ j1 @ j2 @ r))"
    by (rule write_bytes_at') simp_all
  then have w1: "write_bytes (nm_nlh n) 0 ?new = Ok (?new @ hdr @ j1 @ j2 @ r)" by (simp add: b j j12)
  have "write_bytes ((?new @ hdr @ j1) @ j2 @ r) (16 + length fam) z = Ok ((?new @ hdr @ j1) @ z @ r)"
    by (rule write_bytes_at') (use lj2 b j12 in simp_all)
  then have w2: "write_bytes (?new @ hdr @ j1 @ j2 @ r) (16 + length fam) z = Ok (?new @ hdr @ j1 @ z @ r)" by simp
  have w3: "write_bytes (?new @ hdr @ j1 @ x @ r) 16 fam = Ok (?new @ hdr @ fam @ x @ r)" for x
    using write_bytes_at' [of j1 fam 16 "?new @ hdr" "x @ r"] b j12 by simp
  have "n' = n\<lparr>nm_nlh := ?new @ hdr @ fam @ z @ r\<rparr>"
  proof (cases "?al > length fam")
    case True
    then show ?thesis
      using assms(2) len(1) fits w1 w2 w3 [of z]
      unfolding nlmsg_append_def nlmsg_reserve_def set_nlmsg_len_def by (simp add: Let_def al z_def [symmetric])
  next
    case False
    then have e: "?al = length fam" using NLA_ALIGN_ge [of "length fam"] by (simp del: NLA_ALIGN_ge)
    then have "z = []" "j2 = []" using lj2 by (simp_all add: z_def)
    then show ?thesis
      using assms(2) len(1) fits w1 w3 [of "[]"] e
      unfolding nlmsg_append_def nlmsg_reserve_def set_nlmsg_len_def by (simp add: Let_def al)
  qed
  moreover have "length (?new @ hdr @ fam @ z @ r) = nm_size n" using sz b j j12 lj2 by simp
  moreover have "padded fam = fam @ z" by (simp add: padded_def z_def)
  moreover have "\<exists>hdr' junk. length hdr' = 12 \<and> ?new @ hdr @ fam @ z @ r = ?new @ hdr' @ (fam @ z) @ junk"
    by (rule exI [of _ hdr]) (simp add: b)
  ultimately show ?thesis using b(1) len(3) lj2 j(2) j12 unfolding msg_holds_def by simp
qed

section \<open>Round trip\<close>

text \<open>Attributes put one after the other, as the clients do; a failure leaves the sequence.\<close>

fun nla_put_all :: "nl_msg \<Rightarrow> (nat \<times> u8 list) list \<Rightarrow> nl_msg outcome" where
  "nla_put_all msg [] = Ok msg"
| "nla_put_all msg ((t, d) # as) =
     bind_outcome (nla_put msg t d) (\<lambda>(err, msg). if err < 0 then Fail else nla_put_all msg as)"

lemma dvd_encode_attr: "4 dvd length (encode_attr a)"
  by (cases a) (simp add: nla_total_size_def)

lemma nla_put_all_holds:
  assumes "msg_holds n body" "4 dvd length body" "\<forall>a \<in> set as. attr_ok a" "nla_put_all n as = Ok n'"
  shows "msg_holds n' (body @ encode_attrs as) \<and> nm_size n' = nm_size n"
  using assms
proof (induction as arbitrary: n body)
  case (Cons a as)
  obtain t d where a: "a = (t, d)" by (cases a)
  have "attr_ok (t, d)" using Cons.prems(3) a by simp
  note put = nla_put_holds [OF Cons.prems(1,2) this]
  then obtain n1 where n1: "nla_put n t d = Ok (0, n1)" "msg_holds n1 (body @ encode_attr a)" "nm_size n1 = nm_size n"
    using Cons.prems(4) a by (auto split: if_splits)
  have "4 dvd length (body @ encode_attr a)" using Cons.prems(2) dvd_encode_attr [of a] by simp
  moreover have "nla_put_all n1 as = Ok n'" using Cons.prems(4) n1(1) a by simp
  ultimately show ?case using Cons.IH [OF n1(2)] Cons.prems(3) n1(3) by simp
qed simp

lemma to_int_small: "0 \<le> i \<Longrightarrow> i < 2 ^ 31 \<Longrightarrow> to_int i = i"
  by (simp add: to_int_def Let_def)

lemma nlmsg_parse_holds:
  assumes "msg_holds n (padded fam @ encode_attrs as)" "\<forall>a \<in> set as. attr_ok a"
  shows "nlmsg_parse (nm_nlh n) 0 (length fam) maxtype None =
    Ok (0, index_attrs maxtype (16 + NLA_ALIGN (length fam)) as (replicate (nat (maxtype + 1)) None))"
proof -
  let ?al = "NLA_ALIGN (length fam)" and ?e = "length (encode_attrs as)"
  note len = msg_holds_len [OF assms(1)]
  obtain hdr junk where b: "length hdr = 12"
    "nm_nlh n = le_bytes 4 (16 + length (padded fam @ encode_attrs as)) @ hdr @ (padded fam @ encode_attrs as) @ junk"
    using assms(1) unfolding msg_holds_def by blast
  let ?pre = "le_bytes 4 (16 + length (padded fam @ encode_attrs as)) @ hdr @ padded fam"
  have lpre: "length ?pre = 16 + ?al" using b(1) by simp
  have blk: "nm_nlh n = ?pre @ encode_attrs as @ junk" using b(2) by simp
  have small: "16 + (?al + ?e) < 2 ^ 31" using len(2,3) by simp
  have ge: "length fam \<le> ?al" by simp
  have "length fam < 2 ^ 31" using small ge by linarith
  then have al: "NLMSG_ALIGN (length fam) = ?al" by (intro NLMSG_ALIGN_eq) simp
  have valid: "nlmsg_valid_hdr (nm_nlh n) 0 (length fam) = Ok True"
    using len(1) trans_le_add1 [OF ge, of ?e] by (simp add: nlmsg_valid_hdr_def nlmsg_msg_size_def)
  have "nlmsg_attrlen (nm_nlh n) 0 (length fam) = Ok (to_int (to_int (int (?al + ?e)) - int ?al))"
    using len(1) by (simp add: nlmsg_attrlen_def nlmsg_len_def al)
  also have "to_int (to_int (int (?al + ?e)) - int ?al) = int ?e"
    using small by (simp add: to_int_small)
  finally have attrlen: "nlmsg_attrlen (nm_nlh n) 0 (length fam) = Ok (int ?e)" .
  have data: "nlmsg_attrdata 0 (length fam) = length ?pre"
    by (simp only: nlmsg_attrdata_def nlmsg_data_def al lpre)
  have "parse_loop (nm_nlh n) maxtype None (replicate (nat (maxtype + 1)) None) (length ?pre) (int ?e) =
      Ok (0, index_attrs maxtype (length ?pre) as (replicate (nat (maxtype + 1)) None))"
    by (rule parse_loop_encoded [OF assms(2) blk]) (use small in simp_all)
  then show ?thesis
    unfolding nlmsg_parse_def valid attrlen data nla_parse_def bind_outcome.simps if_False if_True not_True_eq_False
    by (simp only: lpre)
qed

text \<open>C11. What is put into a message is what parsing it finds. Start from a newly allocated message of any
  size below \<open>2^31\<close>, append a family header, and put any sequence of attributes (types below \<open>2^14\<close>,
  payloads that fit the length field) as long as every \<open>nla_put\<close> succeeds; then \<open>nlmsg_parse\<close> succeeds, and
  for every type up to the maximum the index array has an entry exactly when such an attribute was put, and
  the entry's length and payload are those of the last one put.\<close>

theorem nla_put_parse_roundtrip:
  assumes "nlmsg_alloc_size mem junk sz = Ok (Some n0)" "length (junk sz) = sz" "sz < 2 ^ 31"
    and "nlmsg_append n0 fam 4 = Ok (0, n1)" "\<forall>a \<in> set as. attr_ok a" "nla_put_all n1 as = Ok n2" "0 \<le> maxtype"
  shows "\<exists>tb. nlmsg_parse (nm_nlh n2) 0 (length fam) maxtype None = Ok (0, tb) \<and> length tb = nat maxtype + 1 \<and>
    (\<forall>t. 0 < t \<and> int t \<le> maxtype \<longrightarrow>
       (case map_of (rev as) t of
          None \<Rightarrow> tb ! t = None
        | Some d \<Rightarrow> \<exists>a. tb ! t = Some a \<and> nla_type (nm_nlh n2) a = Ok t \<and> nla_len (nm_nlh n2) a = Ok (int (length d)) \<and>
            read_bytes (nm_nlh n2) (nla_data a) (length d) = Ok d))"
proof -
  have "msg_holds n1 (padded fam)"
    using nlmsg_append_holds nlmsg_alloc_holds assms(1-4) by blast
  then have h: "msg_holds n2 (padded fam @ encode_attrs as)"
    using nla_put_all_holds [OF _ _ assms(5,6)] by simp
  let ?tb = "index_attrs maxtype (16 + NLA_ALIGN (length fam)) as (replicate (nat (maxtype + 1)) None)"
  obtain hdr rest where b: "length hdr = 12"
    "nm_nlh n2 = le_bytes 4 (16 + length (padded fam @ encode_attrs as)) @ hdr @ (padded fam @ encode_attrs as) @ rest"
    using h unfolding msg_holds_def by blast
  let ?pre = "le_bytes 4 (16 + length (padded fam @ encode_attrs as)) @ hdr @ padded fam"
  have lpre: "length ?pre = 16 + NLA_ALIGN (length fam)" using b(1) by simp
  have blk: "nm_nlh n2 = ?pre @ encode_attrs as @ rest" using b(2) by simp
  have entry: "case map_of (rev as) t of
          None \<Rightarrow> ?tb ! t = None
        | Some d \<Rightarrow> \<exists>a. ?tb ! t = Some a \<and> nla_type (nm_nlh n2) a = Ok t \<and> nla_len (nm_nlh n2) a = Ok (int (length d)) \<and>
            read_bytes (nm_nlh n2) (nla_data a) (length d) = Ok d" if t: "0 < t" "int t \<le> maxtype" for t
  proof -
    have r: "replicate (nat (maxtype + 1)) (None :: nat option) ! t = None" using t by simp
    define e where "e = ?tb ! t"
    have p: "case e of None \<Rightarrow> t \<notin> fst ` set as | Some a \<Rightarrow> t \<in> fst ` set as \<and>
        (\<exists>d. map_of (rev as) t = Some d \<and> nla_len (nm_nlh n2) a = Ok (int (length d)) \<and>
          nla_type (nm_nlh n2) a = Ok t \<and> read_bytes (nm_nlh n2) (nla_data a) (length d) = Ok d)"
      using index_attrs_payload [where tb = "replicate (nat (maxtype + 1)) None", OF assms(5) blk length_replicate t] r
      unfolding lpre e_def [symmetric] by (cases e) (auto split: if_splits)
    have none: "t \<notin> fst ` set as \<longleftrightarrow> map_of (rev as) t = None" by (simp add: map_of_eq_None_iff)
    show ?thesis
      unfolding e_def [symmetric] using p none by (cases e; cases "map_of (rev as) t") auto
  qed
  then show ?thesis
    using nlmsg_parse_holds [OF h assms(5), of maxtype] assms(7)
    by (intro exI [of _ ?tb]) (simp add: nat_add_distrib)
qed

theorem nla_put_parse_roundtrip_witness:
  "\<exists>n0 n1 n2 tb a. nlmsg_alloc_size (\<lambda>_. True) (\<lambda>k. replicate k 7) 64 = Ok (Some n0) \<and> nlmsg_append n0 [1, 2, 3] 4 = Ok (0, n1) \<and>
     nla_put_all n1 [(3, [9, 8]), (3, [5])] = Ok n2 \<and> nlmsg_parse (nm_nlh n2) 0 3 4 None = Ok (0, tb) \<and>
     tb ! 3 = Some a \<and> read_bytes (nm_nlh n2) (nla_data a) 1 = Ok [5]"
proof -
  let ?as = "[(3, [9, 8]), (3, [5])] :: (nat \<times> u8 list) list"
  obtain n0 where n0: "nlmsg_alloc_size (\<lambda>_. True) (\<lambda>k. replicate k 7) 64 = Ok (Some n0)"
    by (simp add: nlmsg_alloc_size_def nlmsg_alloc_len_def write_bytes_def)
  note h0 = nlmsg_alloc_holds [OF n0]
  obtain n1 where n1: "nlmsg_append n0 [1, 2, 3] 4 = Ok (0, n1)"
    using n0 by (auto simp: nlmsg_alloc_size_def nlmsg_alloc_len_def write_bytes_def nlmsg_append_def nlmsg_reserve_def
        nlh_len_def read_le_Ok nlmsg_total_size_def nlmsg_msg_size_def NLMSG_ALIGN_def set_nlmsg_len_def)
  have h1: "msg_holds n1 (padded [1, 2, 3])" "nm_size n1 = 64"
    using nlmsg_append_holds [OF _ n1] h0 by simp_all
  have sizes: "NLA_ALIGN (Suc (Suc (Suc 0))) = 4" "nla_total_size (Suc (Suc 0)) = 8" "nla_total_size (Suc 0) = 8"
    by (simp_all add: NLA_ALIGN_def nla_total_size_def nla_attr_size_def)
  obtain m where m: "nla_put n1 3 [9, 8] = Ok (0, m)" "msg_holds m (padded [1, 2, 3] @ encode_attr (3, [9, 8]))" "nm_size m = 64"
    using nla_put_holds [OF h1(1), of 3 "[9, 8]"] h1(2) by (auto simp: sizes split: if_splits)
  have "4 dvd length (padded [1, 2, 3] @ encode_attr (3, [9, 8]))" by (simp add: sizes)
  then obtain n2 where "nla_put m 3 [5] = Ok (0, n2)"
    using nla_put_holds [OF m(2), of 3 "[5]"] m(3) by (auto simp: sizes split: if_splits)
  then have n2: "nla_put_all n1 ?as = Ok n2" using m(1) by simp
  have p: "\<exists>tb. nlmsg_parse (nm_nlh n2) 0 (length [1, 2, 3 :: u8]) 4 None = Ok (0, tb) \<and> length tb = nat 4 + 1 \<and>
    (\<forall>t. 0 < t \<and> int t \<le> 4 \<longrightarrow>
       (case map_of (rev ?as) t of
          None \<Rightarrow> tb ! t = None
        | Some d \<Rightarrow> \<exists>a. tb ! t = Some a \<and> nla_type (nm_nlh n2) a = Ok t \<and> nla_len (nm_nlh n2) a = Ok (int (length d)) \<and>
            read_bytes (nm_nlh n2) (nla_data a) (length d) = Ok d))"
    by (rule nla_put_parse_roundtrip [OF n0 _ _ n1 _ n2]) simp_all
  have three: "length [1, 2, 3 :: u8] = 3" by simp
  from p [unfolded three] obtain tb where tb: "nlmsg_parse (nm_nlh n2) 0 3 4 None = Ok (0, tb)"
      "\<forall>t. 0 < t \<and> int t \<le> 4 \<longrightarrow> (case map_of (rev ?as) t of None \<Rightarrow> tb ! t = None
       | Some d \<Rightarrow> \<exists>a. tb ! t = Some a \<and> nla_type (nm_nlh n2) a = Ok t \<and> nla_len (nm_nlh n2) a = Ok (int (length d)) \<and>
           read_bytes (nm_nlh n2) (nla_data a) (length d) = Ok d)"
    by blast
  from tb(2) [rule_format, of 3] obtain a where "tb ! 3 = Some a" "read_bytes (nm_nlh n2) (nla_data a) 1 = Ok [5]" by auto
  then show ?thesis using n0 n1 n2 tb(1) by blast
qed

end
