(* ===== verification/Nl_Decode.thy ===== *)
theory Nl_Decode
  imports Netlink_Msg Nl_Event C_Print
begin

text \<open>
  From the bytes of a netlink message to an event: the parsers of \<^verbatim>\<open>nlmon_nl_route.c\<close>,
  \<^verbatim>\<open>nlmon_nl_diag.c\<close>, \<^verbatim>\<open>nlmon_nl_netfilter.c\<close>, \<^verbatim>\<open>nlmon_nl_genl.c\<close>, \<^verbatim>\<open>nlmon_nl_event.c\<close> and \<^verbatim>\<open>qca_vendor.c\<close>
  in \<^verbatim>\<open>src/src/core\<close>, and \<^verbatim>\<open>src/libnl/genl.c\<close>. \<open>if_indextoname\<close> and the IPv6 case of \<open>inet_ntop\<close> are
  fields of an environment, together with the highest attribute types of the kernel headers. The order of
  members in the kernel's headers is given by their offsets.
\<close>

section \<open>Environment\<close>

record nl_env =
  if_indextoname :: "u32 \<Rightarrow> string option"
  inet_ntop6 :: "u8 list \<Rightarrow> string"
  IFLA_MAX :: int
  IFA_MAX :: int
  RTA_MAX :: int
  NDA_MAX :: int
  NL80211_ATTR_MAX :: int
  CTA_MAX :: int
  CTA_TUPLE_MAX :: int
  CTA_IP_MAX :: int
  CTA_PROTO_MAX :: int
  CTA_PROTOINFO_MAX :: int
  CTA_PROTOINFO_TCP_MAX :: int
  CTA_COUNTERS_MAX :: int

abbreviation (input) EINVAL :: int where "EINVAL \<equiv> 22"
abbreviation (input) ENOMEM :: int where "ENOMEM \<equiv> 12"
abbreviation (input) ENOTSUP :: int where "ENOTSUP \<equiv> 95"
abbreviation (input) EPROTONOSUPPORT :: int where "EPROTONOSUPPORT \<equiv> 93"
abbreviation (input) EAFNOSUPPORT :: int where "EAFNOSUPPORT \<equiv> 97"

abbreviation (input) AF_INET :: u8 where "AF_INET \<equiv> 2"
abbreviation (input) AF_INET6 :: u8 where "AF_INET6 \<equiv> 10"

definition inet_ntop4 :: "u8 list \<Rightarrow> string" where
  "inet_ntop4 bs = concat (map (\<lambda>i. (if i = 0 then [] else ''.'') @ dec_nat (unat (bs ! i))) [0..<4])"

text \<open>The address at an offset as text; other families write nothing.\<close>

definition inet_ntop :: "nl_env \<Rightarrow> u8 list \<Rightarrow> u8 \<Rightarrow> nat \<Rightarrow> string option outcome" where
  "inet_ntop env m family at =
     (if family = AF_INET then bind_outcome (read_bytes m at 4) (\<lambda>bs. Ok (Some (inet_ntop4 bs)))
      else if family = AF_INET6 then bind_outcome (read_bytes m at 16) (\<lambda>bs. Ok (Some (inet_ntop6 env bs)))
      else Ok None)"

definition result_text :: "string option \<Rightarrow> string" where
  "result_text s = (case s of None \<Rightarrow> [] | Some t \<Rightarrow> t)"

definition get_u8 :: "u8 list \<Rightarrow> nat \<Rightarrow> u8 outcome" where
  "get_u8 m i = bind_outcome (read_le 1 m i) (\<lambda>v. Ok (of_nat v))"

definition get_u16 :: "u8 list \<Rightarrow> nat \<Rightarrow> u16 outcome" where
  "get_u16 m i = bind_outcome (read_le 2 m i) (\<lambda>v. Ok (of_nat v))"

definition get_u32 :: "u8 list \<Rightarrow> nat \<Rightarrow> u32 outcome" where
  "get_u32 m i = bind_outcome (read_le 4 m i) (\<lambda>v. Ok (of_nat v))"

definition ntohs :: "u16 \<Rightarrow> u16" where
  "ntohs w = push_bit 8 w OR drop_bit 8 w"

text \<open>\<open>if (tb[t]) ...\<close>: what the statement does with the attribute; without one nothing changes.\<close>

definition on_attr :: "nat option list \<Rightarrow> nat \<Rightarrow> 'a \<Rightarrow> (nat \<Rightarrow> 'a outcome) \<Rightarrow> 'a outcome" where
  "on_attr tb t x f = (if t < length tb then (case tb ! t of None \<Rightarrow> Ok x | Some a \<Rightarrow> f a) else UB)"

text \<open>The hardware address: copied when it has at most six bytes.\<close>

definition copy_mac :: "u8 list \<Rightarrow> nat \<Rightarrow> u8 list \<Rightarrow> u8 list outcome" where
  "copy_mac m a dest =
     bind_outcome (nla_len m a) (\<lambda>addr_len.
       if addr_len \<le> 6 then
         if addr_len < 0 then UB
         else bind_outcome (read_bytes m (nla_data a) (nat addr_len)) (\<lambda>bs. Ok (bs @ drop (length bs) dest))
       else Ok dest)"

definition get_string :: "u8 list \<Rightarrow> nat \<Rightarrow> nat \<Rightarrow> string outcome" where
  "get_string m a n = bind_outcome (nla_strlcpy m a n) (\<lambda>(l, bs). Ok (c_string bs))"

text \<open>\<open>if_indextoname\<close> leaves the destination alone when there is no such interface.\<close>

definition name_or :: "nl_env \<Rightarrow> u32 \<Rightarrow> string \<Rightarrow> string" where
  "name_or env idx dest = (case if_indextoname env idx of None \<Rightarrow> dest | Some s \<Rightarrow> s)"

definition set_data :: "nl_data \<Rightarrow> nlmon_event \<Rightarrow> nlmon_event" where
  "set_data d evt = evt\<lparr>ev_netlink := (ev_netlink evt)\<lparr>nl_data := d\<rparr>\<rparr>"

section \<open>Route family\<close>

definition zero_link :: nlmon_link_info where
  "zero_link = \<lparr>link_ifname = [], link_ifindex = 0, link_flags = 0, link_mtu = 0, link_addr = replicate 6 0,
     link_qdisc = [], link_operstate = 0\<rparr>"

abbreviation (input) IFLA_ADDRESS :: nat where "IFLA_ADDRESS \<equiv> 1"
abbreviation (input) IFLA_IFNAME :: nat where "IFLA_IFNAME \<equiv> 3"
abbreviation (input) IFLA_MTU :: nat where "IFLA_MTU \<equiv> 4"
abbreviation (input) IFLA_QDISC :: nat where "IFLA_QDISC \<equiv> 6"
abbreviation (input) IFLA_OPERSTATE :: nat where "IFLA_OPERSTATE \<equiv> 16"

definition nlmon_parse_link_msg :: "nl_env \<Rightarrow> alloc \<Rightarrow> u8 list \<Rightarrow> nat \<Rightarrow> nlmon_event \<Rightarrow> (int \<times> nlmon_event) outcome" where
  "nlmon_parse_link_msg env mem m nlh evt =
     (let ifi = nlmsg_data nlh in
      bind_outcome (nlmsg_parse m nlh 16 (IFLA_MAX env) None) (\<lambda>(ret, tb).
      if ret < 0 then Ok (ret, evt)
      else if \<not> mem 1 then Ok (- ENOMEM, evt)
      else
        bind_outcome (get_u32 m (ifi + 4)) (\<lambda>index.
        bind_outcome (get_u32 m (ifi + 8)) (\<lambda>flags.
        let li = zero_link\<lparr>link_ifindex := index, link_flags := flags\<rparr> in
        bind_outcome (if IFLA_IFNAME < length tb then
            (case tb ! IFLA_IFNAME of
               Some a \<Rightarrow> bind_outcome (get_string m a 16) (\<lambda>s. Ok (li\<lparr>link_ifname := s\<rparr>))
             | None \<Rightarrow> Ok (li\<lparr>link_ifname := name_or env index []\<rparr>)) else UB) (\<lambda>li.
        bind_outcome (on_attr tb IFLA_MTU li (\<lambda>a. bind_outcome (nla_get_u32 m a) (\<lambda>v. Ok (li\<lparr>link_mtu := v\<rparr>)))) (\<lambda>li.
        bind_outcome (on_attr tb IFLA_ADDRESS li (\<lambda>a.
            bind_outcome (copy_mac m a (link_addr li)) (\<lambda>bs. Ok (li\<lparr>link_addr := bs\<rparr>)))) (\<lambda>li.
        bind_outcome (on_attr tb IFLA_QDISC li (\<lambda>a. bind_outcome (get_string m a 32) (\<lambda>s. Ok (li\<lparr>link_qdisc := s\<rparr>)))) (\<lambda>li.
        bind_outcome (on_attr tb IFLA_OPERSTATE li (\<lambda>a.
            bind_outcome (nla_get_u8 m a) (\<lambda>v. Ok (li\<lparr>link_operstate := ucast v\<rparr>)))) (\<lambda>li.
          Ok (0, (set_data (NL_DATA_LINK li) evt)\<lparr>ev_interface := take 15 (link_ifname li)\<rparr>))))))))))"

definition zero_addr :: nlmon_addr_info where
  "zero_addr = \<lparr>addr_family = 0, addr_ifindex = 0, addr_prefixlen = 0, addr_scope = 0, addr_addr = [], addr_label = []\<rparr>"

abbreviation (input) IFA_ADDRESS :: nat where "IFA_ADDRESS \<equiv> 1"
abbreviation (input) IFA_LABEL :: nat where "IFA_LABEL \<equiv> 3"

definition nlmon_parse_addr_msg :: "nl_env \<Rightarrow> alloc \<Rightarrow> u8 list \<Rightarrow> nat \<Rightarrow> nlmon_event \<Rightarrow> (int \<times> nlmon_event) outcome" where
  "nlmon_parse_addr_msg env mem m nlh evt =
     (let ifa = nlmsg_data nlh in
      bind_outcome (nlmsg_parse m nlh 8 (IFA_MAX env) None) (\<lambda>(ret, tb).
      if ret < 0 then Ok (ret, evt)
      else if \<not> mem 1 then Ok (- ENOMEM, evt)
      else
        bind_outcome (get_u8 m ifa) (\<lambda>family.
        bind_outcome (get_u32 m (ifa + 4)) (\<lambda>index.
        bind_outcome (get_u8 m (ifa + 1)) (\<lambda>prefixlen.
        bind_outcome (get_u8 m (ifa + 3)) (\<lambda>scope.
        let ai = zero_addr\<lparr>addr_family := ucast family, addr_ifindex := index, addr_prefixlen := prefixlen, addr_scope := scope\<rparr> in
        bind_outcome (on_attr tb IFA_ADDRESS ai (\<lambda>a.
            bind_outcome (inet_ntop env m family (nla_data a)) (\<lambda>s.
              Ok (case s of None \<Rightarrow> ai | Some s \<Rightarrow> ai\<lparr>addr_addr := s\<rparr>)))) (\<lambda>ai.
        bind_outcome (if IFA_LABEL < length tb then
            (case tb ! IFA_LABEL of
               Some a \<Rightarrow> bind_outcome (get_string m a 16) (\<lambda>s. Ok (ai\<lparr>addr_label := s\<rparr>))
             | None \<Rightarrow> Ok (ai\<lparr>addr_label := name_or env index []\<rparr>)) else UB) (\<lambda>ai.
          Ok (0, (set_data (NL_DATA_ADDR ai) evt)\<lparr>ev_interface := name_or env index (ev_interface evt)\<rparr>)))))))))"

definition zero_route :: nlmon_route_info where
  "zero_route = \<lparr>route_family = 0, route_dst_len = 0, route_src_len = 0, route_tos = 0, route_protocol = 0,
     route_scope = 0, route_type = 0, route_dst = [], route_src = [], route_gateway = [], route_oif = 0, route_priority = 0\<rparr>"

abbreviation (input) RTA_DST :: nat where "RTA_DST \<equiv> 1"
abbreviation (input) RTA_SRC :: nat where "RTA_SRC \<equiv> 2"
abbreviation (input) RTA_OIF :: nat where "RTA_OIF \<equiv> 4"
abbreviation (input) RTA_GATEWAY :: nat where "RTA_GATEWAY \<equiv> 5"
abbreviation (input) RTA_PRIORITY :: nat where "RTA_PRIORITY \<equiv> 6"

text \<open>The textual address of an attribute, kept in the field that \<open>upd\<close> updates.\<close>

definition addr_attr ::
  "nl_env \<Rightarrow> u8 list \<Rightarrow> u8 \<Rightarrow> nat option list \<Rightarrow> nat \<Rightarrow> (string \<Rightarrow> 'a \<Rightarrow> 'a) \<Rightarrow> 'a \<Rightarrow> 'a outcome" where
  "addr_attr env m family tb t upd x =
     on_attr tb t x (\<lambda>a. bind_outcome (inet_ntop env m family (nla_data a)) (\<lambda>s.
       Ok (case s of None \<Rightarrow> x | Some s \<Rightarrow> upd s x)))"

definition nlmon_parse_route_msg :: "nl_env \<Rightarrow> alloc \<Rightarrow> u8 list \<Rightarrow> nat \<Rightarrow> nlmon_event \<Rightarrow> (int \<times> nlmon_event) outcome" where
  "nlmon_parse_route_msg env mem m nlh evt =
     (let rtm = nlmsg_data nlh in
      bind_outcome (nlmsg_parse m nlh 12 (RTA_MAX env) None) (\<lambda>(ret, tb).
      if ret < 0 then Ok (ret, evt)
      else if \<not> mem 1 then Ok (- ENOMEM, evt)
      else
        bind_outcome (get_u8 m rtm) (\<lambda>family.
        bind_outcome (get_u8 m (rtm + 1)) (\<lambda>dst_len.
        bind_outcome (get_u8 m (rtm + 2)) (\<lambda>src_len.
        bind_outcome (get_u8 m (rtm + 3)) (\<lambda>tos.
        bind_outcome (get_u8 m (rtm + 5)) (\<lambda>protocol.
        bind_outcome (get_u8 m (rtm + 6)) (\<lambda>scope.
        bind_outcome (get_u8 m (rtm + 7)) (\<lambda>type.
        let ri = zero_route\<lparr>route_family := ucast family, route_dst_len := dst_len, route_src_len := src_len, route_tos := tos,
                   route_protocol := protocol, route_scope := scope, route_type := type\<rparr> in
        bind_outcome (addr_attr env m family tb RTA_DST (\<lambda>s. route_dst_update (\<lambda>_. s)) ri) (\<lambda>ri.
        bind_outcome (addr_attr env m family tb RTA_SRC (\<lambda>s. route_src_update (\<lambda>_. s)) ri) (\<lambda>ri.
        bind_outcome (addr_attr env m family tb RTA_GATEWAY (\<lambda>s. route_gateway_update (\<lambda>_. s)) ri) (\<lambda>ri.
        bind_outcome (on_attr tb RTA_OIF (ri, evt) (\<lambda>a. bind_outcome (nla_get_u32 m a) (\<lambda>v.
            Ok (ri\<lparr>route_oif := v\<rparr>, evt\<lparr>ev_interface := name_or env v (ev_interface evt)\<rparr>)))) (\<lambda>(ri, evt).
        bind_outcome (on_attr tb RTA_PRIORITY ri (\<lambda>a. bind_outcome (nla_get_u32 m a) (\<lambda>v. Ok (ri\<lparr>route_priority := v\<rparr>)))) (\<lambda>ri.
          Ok (0, set_data (NL_DATA_ROUTE ri) evt)))))))))))))))"

definition zero_neigh :: nlmon_neigh_info where
  "zero_neigh = \<lparr>neigh_family = 0, neigh_ifindex = 0, neigh_state = 0, neigh_flags = 0, neigh_dst = [], neigh_lladdr = replicate 6 0\<rparr>"

abbreviation (input) NDA_DST :: nat where "NDA_DST \<equiv> 1"
abbreviation (input) NDA_LLADDR :: nat where "NDA_LLADDR \<equiv> 2"

definition nlmon_parse_neigh_msg :: "nl_env \<Rightarrow> alloc \<Rightarrow> u8 list \<Rightarrow> nat \<Rightarrow> nlmon_event \<Rightarrow> (int \<times> nlmon_event) outcome" where
  "nlmon_parse_neigh_msg env mem m nlh evt =
     (let ndm = nlmsg_data nlh in
      bind_outcome (nlmsg_parse m nlh 12 (NDA_MAX env) None) (\<lambda>(ret, tb).
      if ret < 0 then Ok (ret, evt)
      else if \<not> mem 1 then Ok (- ENOMEM, evt)
      else
        bind_outcome (get_u8 m ndm) (\<lambda>family.
        bind_outcome (get_u32 m (ndm + 4)) (\<lambda>index.
        bind_outcome (get_u16 m (ndm + 8)) (\<lambda>state.
        bind_outcome (get_u8 m (ndm + 10)) (\<lambda>flags.
        let ni = zero_neigh\<lparr>neigh_family := ucast family, neigh_ifindex := index, neigh_state := state, neigh_flags := flags\<rparr> in
        bind_outcome (addr_attr env m family tb NDA_DST (\<lambda>s. neigh_dst_update (\<lambda>_. s)) ni) (\<lambda>ni.
        bind_outcome (on_attr tb NDA_LLADDR ni (\<lambda>a.
            bind_outcome (copy_mac m a (neigh_lladdr ni)) (\<lambda>bs. Ok (ni\<lparr>neigh_lladdr := bs\<rparr>)))) (\<lambda>ni.
          Ok (0, (set_data (NL_DATA_NEIGH ni) evt)\<lparr>ev_interface := name_or env index (ev_interface evt)\<rparr>)))))))))"

section \<open>Socket diagnostics\<close>

text \<open>
  \<^verbatim>\<open>struct inet_diag_msg\<close>: family, state, timer, retransmissions at 0 to 3; ports at 4 and 6 and addresses at 8
  and 24 in network order; interface at 40; queues at 56 and 60, user at 64, inode at 68; 72 bytes.
\<close>

definition nlmon_parse_inet_diag_msg :: "nl_env \<Rightarrow> alloc \<Rightarrow> u8 list \<Rightarrow> nat \<Rightarrow> nlmon_event \<Rightarrow> (int \<times> nlmon_event) outcome" where
  "nlmon_parse_inet_diag_msg env mem m nlh evt =
     bind_outcome (nlmsg_len m nlh) (\<lambda>len.
     if to_size_t len < 72 then Ok (- EINVAL, evt)
     else if \<not> mem 1 then Ok (- ENOMEM, evt)
     else
       let d = nlmsg_data nlh in
       bind_outcome (get_u8 m d) (\<lambda>family.
       bind_outcome (get_u8 m (d + 1)) (\<lambda>state.
       bind_outcome (get_u8 m (d + 2)) (\<lambda>timer.
       bind_outcome (get_u8 m (d + 3)) (\<lambda>retrans.
       bind_outcome (get_u32 m (d + 56)) (\<lambda>rqueue.
       bind_outcome (get_u32 m (d + 60)) (\<lambda>wqueue.
       bind_outcome (get_u32 m (d + 64)) (\<lambda>uid.
       bind_outcome (get_u32 m (d + 68)) (\<lambda>inode.
       bind_outcome (get_u16 m (d + 4)) (\<lambda>sport.
       bind_outcome (get_u16 m (d + 6)) (\<lambda>dport.
       if family \<noteq> AF_INET \<and> family \<noteq> AF_INET6 then Ok (- EAFNOSUPPORT, evt)
       else
         bind_outcome (inet_ntop env m family (d + 8)) (\<lambda>src.
         bind_outcome (inet_ntop env m family (d + 24)) (\<lambda>dst.
         bind_outcome (get_u32 m (d + 40)) (\<lambda>ifi.
           let protocol = (if ntohs sport \<noteq> 0 \<or> ntohs dport \<noteq> 0 then if state \<noteq> 0 then 6 else 17 else 0);
               di = \<lparr>diag_family = family, diag_state = state, diag_protocol = protocol, diag_src_port = ntohs sport,
                     diag_dst_port = ntohs dport, diag_src_addr = result_text src, diag_dst_addr = result_text dst,
                     diag_inode = inode, diag_uid = uid, diag_rqueue = rqueue, diag_wqueue = wqueue, diag_timer = timer,
                     diag_retrans = retrans\<rparr>;
               evt = set_data (NL_DATA_DIAG di) evt
           in Ok (0, if ifi \<noteq> 0 then evt\<lparr>ev_interface := ''if'' @ dec_nat (unat ifi)\<rparr> else evt)))))))))))))))"

section \<open>Connection tracking\<close>

definition zero_ct :: nlmon_ct_info where
  "zero_ct = \<lparr>ct_protocol = 0, ct_tcp_state = 0, ct_src_addr = [], ct_dst_addr = [], ct_src_port = 0, ct_dst_port = 0,
     ct_mark = 0, ct_packets_orig = 0, ct_packets_reply = 0, ct_bytes_orig = 0, ct_bytes_reply = 0\<rparr>"

text \<open>\<open>nla_parse_nested\<close> on an attribute that is present, then \<open>f\<close> on the index array when it succeeds.\<close>

definition on_nested :: "u8 list \<Rightarrow> nat option list \<Rightarrow> nat \<Rightarrow> int \<Rightarrow> 'a \<Rightarrow> (nat option list \<Rightarrow> 'a outcome) \<Rightarrow> 'a outcome" where
  "on_nested m tb t maxtype x f =
     on_attr tb t x (\<lambda>a. bind_outcome (nla_parse_nested m maxtype a None) (\<lambda>(ret, tb). if ret \<ge> 0 then f tb else Ok x))"

abbreviation (input) CTA_TUPLE_ORIG :: nat where "CTA_TUPLE_ORIG \<equiv> 1"
abbreviation (input) CTA_PROTOINFO :: nat where "CTA_PROTOINFO \<equiv> 4"
abbreviation (input) CTA_MARK :: nat where "CTA_MARK \<equiv> 8"
abbreviation (input) CTA_COUNTERS_ORIG :: nat where "CTA_COUNTERS_ORIG \<equiv> 9"
abbreviation (input) CTA_COUNTERS_REPLY :: nat where "CTA_COUNTERS_REPLY \<equiv> 10"
abbreviation (input) CTA_TUPLE_IP :: nat where "CTA_TUPLE_IP \<equiv> 1"
abbreviation (input) CTA_TUPLE_PROTO :: nat where "CTA_TUPLE_PROTO \<equiv> 2"
abbreviation (input) CTA_IP_V4_SRC :: nat where "CTA_IP_V4_SRC \<equiv> 1"
abbreviation (input) CTA_IP_V4_DST :: nat where "CTA_IP_V4_DST \<equiv> 2"
abbreviation (input) CTA_IP_V6_SRC :: nat where "CTA_IP_V6_SRC \<equiv> 3"
abbreviation (input) CTA_IP_V6_DST :: nat where "CTA_IP_V6_DST \<equiv> 4"
abbreviation (input) CTA_PROTO_NUM :: nat where "CTA_PROTO_NUM \<equiv> 1"
abbreviation (input) CTA_PROTO_SRC_PORT :: nat where "CTA_PROTO_SRC_PORT \<equiv> 2"
abbreviation (input) CTA_PROTO_DST_PORT :: nat where "CTA_PROTO_DST_PORT \<equiv> 3"
abbreviation (input) CTA_PROTOINFO_TCP :: nat where "CTA_PROTOINFO_TCP \<equiv> 1"
abbreviation (input) CTA_PROTOINFO_TCP_STATE :: nat where "CTA_PROTOINFO_TCP_STATE \<equiv> 1"
abbreviation (input) CTA_COUNTERS_PACKETS :: nat where "CTA_COUNTERS_PACKETS \<equiv> 1"
abbreviation (input) CTA_COUNTERS_BYTES :: nat where "CTA_COUNTERS_BYTES \<equiv> 2"

definition parse_ct_ip :: "nl_env \<Rightarrow> u8 list \<Rightarrow> nat option list \<Rightarrow> nlmon_ct_info \<Rightarrow> nlmon_ct_info outcome" where
  "parse_ct_ip env m tb_ip ct =
     bind_outcome (addr_attr env m AF_INET tb_ip CTA_IP_V4_SRC (\<lambda>s. ct_src_addr_update (\<lambda>_. s)) ct) (\<lambda>ct.
     bind_outcome (addr_attr env m AF_INET tb_ip CTA_IP_V4_DST (\<lambda>s. ct_dst_addr_update (\<lambda>_. s)) ct) (\<lambda>ct.
     bind_outcome (addr_attr env m AF_INET6 tb_ip CTA_IP_V6_SRC (\<lambda>s. ct_src_addr_update (\<lambda>_. s)) ct) (\<lambda>ct.
       addr_attr env m AF_INET6 tb_ip CTA_IP_V6_DST (\<lambda>s. ct_dst_addr_update (\<lambda>_. s)) ct)))"

definition parse_ct_proto :: "u8 list \<Rightarrow> nat option list \<Rightarrow> nlmon_ct_info \<Rightarrow> nlmon_ct_info outcome" where
  "parse_ct_proto m tb_proto ct =
     bind_outcome (on_attr tb_proto CTA_PROTO_NUM ct (\<lambda>a.
         bind_outcome (nla_get_u8 m a) (\<lambda>v. Ok (ct\<lparr>ct_protocol := v\<rparr>)))) (\<lambda>ct.
     bind_outcome (on_attr tb_proto CTA_PROTO_SRC_PORT ct (\<lambda>a.
         bind_outcome (nla_get_u16 m a) (\<lambda>v. Ok (ct\<lparr>ct_src_port := ntohs v\<rparr>)))) (\<lambda>ct.
       on_attr tb_proto CTA_PROTO_DST_PORT ct (\<lambda>a.
         bind_outcome (nla_get_u16 m a) (\<lambda>v. Ok (ct\<lparr>ct_dst_port := ntohs v\<rparr>)))))"

text \<open>\<open>tmp\<close>: what the uninitialised variable in \<open>nla_get_u64\<close> holds.\<close>

definition parse_ct_counters ::
  "u8 list \<Rightarrow> u8 list \<Rightarrow> nat option list \<Rightarrow> (u64 \<Rightarrow> nlmon_ct_info \<Rightarrow> nlmon_ct_info) \<Rightarrow> (u64 \<Rightarrow> nlmon_ct_info \<Rightarrow> nlmon_ct_info) \<Rightarrow>
     nlmon_ct_info \<Rightarrow> nlmon_ct_info outcome" where
  "parse_ct_counters tmp m tb_counters packets bytes ct =
     bind_outcome (on_attr tb_counters CTA_COUNTERS_PACKETS ct (\<lambda>a.
         bind_outcome (nla_get_u64 tmp m a) (\<lambda>v. Ok (packets v ct)))) (\<lambda>ct.
       on_attr tb_counters CTA_COUNTERS_BYTES ct (\<lambda>a.
         bind_outcome (nla_get_u64 tmp m a) (\<lambda>v. Ok (bytes v ct))))"

definition nlmon_parse_conntrack_msg ::
  "nl_env \<Rightarrow> u8 list \<Rightarrow> alloc \<Rightarrow> u8 list \<Rightarrow> nat \<Rightarrow> nlmon_event \<Rightarrow> (int \<times> nlmon_event) outcome" where
  "nlmon_parse_conntrack_msg env tmp mem m nlh evt =
     bind_outcome (nlmsg_len m nlh) (\<lambda>len.
     if to_size_t len < 4 then Ok (- EINVAL, evt)
     else
       bind_outcome (nlmsg_parse m nlh 4 (CTA_MAX env) None) (\<lambda>(ret, tb).
       if ret < 0 then Ok (ret, evt)
       else if \<not> mem 1 then Ok (- ENOMEM, evt)
       else
         bind_outcome (on_nested m tb CTA_TUPLE_ORIG (CTA_TUPLE_MAX env) zero_ct (\<lambda>tb_orig.
           bind_outcome (on_nested m tb_orig CTA_TUPLE_IP (CTA_IP_MAX env) zero_ct (\<lambda>tb_ip.
               parse_ct_ip env m tb_ip zero_ct)) (\<lambda>ct.
             on_nested m tb_orig CTA_TUPLE_PROTO (CTA_PROTO_MAX env) ct (\<lambda>tb_proto. parse_ct_proto m tb_proto ct)))) (\<lambda>ct.
         bind_outcome (on_nested m tb CTA_PROTOINFO (CTA_PROTOINFO_MAX env) ct (\<lambda>tb_protoinfo.
             on_nested m tb_protoinfo CTA_PROTOINFO_TCP (CTA_PROTOINFO_TCP_MAX env) ct (\<lambda>tb_tcp.
               on_attr tb_tcp CTA_PROTOINFO_TCP_STATE ct (\<lambda>a.
                 bind_outcome (nla_get_u8 m a) (\<lambda>v. Ok (ct\<lparr>ct_tcp_state := v\<rparr>)))))) (\<lambda>ct.
         bind_outcome (on_nested m tb CTA_COUNTERS_ORIG (CTA_COUNTERS_MAX env) ct (\<lambda>tbc.
             parse_ct_counters tmp m tbc (\<lambda>v. ct_packets_orig_update (\<lambda>_. v)) (\<lambda>v. ct_bytes_orig_update (\<lambda>_. v)) ct)) (\<lambda>ct.
         bind_outcome (on_nested m tb CTA_COUNTERS_REPLY (CTA_COUNTERS_MAX env) ct (\<lambda>tbc.
             parse_ct_counters tmp m tbc (\<lambda>v. ct_packets_reply_update (\<lambda>_. v)) (\<lambda>v. ct_bytes_reply_update (\<lambda>_. v)) ct)) (\<lambda>ct.
         bind_outcome (on_attr tb CTA_MARK ct (\<lambda>a. bind_outcome (nla_get_u32 m a) (\<lambda>v. Ok (ct\<lparr>ct_mark := v\<rparr>)))) (\<lambda>ct.
           Ok (0, set_data (NL_DATA_CONNTRACK ct) evt))))))))"

section \<open>Generic netlink\<close>

abbreviation (input) GENL_HDRLEN :: nat where "GENL_HDRLEN \<equiv> 4"

definition genlmsg_data :: "nat \<Rightarrow> nat" where
  "genlmsg_data gnlh = gnlh + GENL_HDRLEN"

definition genlmsg_len :: "u8 list \<Rightarrow> nat \<Rightarrow> int outcome" where
  "genlmsg_len m gnlh =
     bind_outcome (nlh_len m (gnlh - NLMSG_HDRLEN)) (\<lambda>l. Ok (to_int (int l - int GENL_HDRLEN - int NLMSG_HDRLEN)))"

definition genlmsg_attrdata :: "nat \<Rightarrow> nat \<Rightarrow> nat" where
  "genlmsg_attrdata gnlh hdrlen = genlmsg_data gnlh + NLMSG_ALIGN hdrlen"

definition genlmsg_attrlen :: "u8 list \<Rightarrow> nat \<Rightarrow> nat \<Rightarrow> int outcome" where
  "genlmsg_attrlen m gnlh hdrlen = bind_outcome (genlmsg_len m gnlh) (\<lambda>l. Ok (to_int (l - int (NLMSG_ALIGN hdrlen))))"

definition genlmsg_valid_hdr :: "u8 list \<Rightarrow> nat \<Rightarrow> nat \<Rightarrow> bool outcome" where
  "genlmsg_valid_hdr m nlh hdrlen =
     bind_outcome (nlmsg_valid_hdr m nlh GENL_HDRLEN) (\<lambda>valid.
       if \<not> valid then Ok False
       else bind_outcome (genlmsg_len m (nlmsg_data nlh)) (\<lambda>l. Ok (\<not> nat (l mod 2 ^ 32) < NLMSG_ALIGN hdrlen)))"

definition genlmsg_parse ::
  "u8 list \<Rightarrow> nat \<Rightarrow> nat \<Rightarrow> int \<Rightarrow> nla_policy list option \<Rightarrow> (int \<times> nat option list) outcome" where
  "genlmsg_parse m nlh hdrlen maxtype policy =
     bind_outcome (genlmsg_valid_hdr m nlh hdrlen) (\<lambda>valid.
       if \<not> valid then Ok (- NLE_MSG_TOOSHORT, [])
       else bind_outcome (genlmsg_attrlen m (nlmsg_data nlh) hdrlen) (\<lambda>len.
              nla_parse m maxtype (genlmsg_attrdata (nlmsg_data nlh) hdrlen) len policy))"

definition genlmsg_validate :: "u8 list \<Rightarrow> nat \<Rightarrow> nat \<Rightarrow> int \<Rightarrow> nla_policy list \<Rightarrow> int outcome" where
  "genlmsg_validate m nlh hdrlen maxtype policy =
     bind_outcome (genlmsg_valid_hdr m nlh hdrlen) (\<lambda>valid.
       if \<not> valid then Ok (- NLE_MSG_TOOSHORT)
       else bind_outcome (genlmsg_attrlen m (nlmsg_data nlh) hdrlen) (\<lambda>len.
              nla_validate m (genlmsg_attrdata (nlmsg_data nlh) hdrlen) len maxtype policy))"

definition genlmsg_put ::
  "nl_msg \<Rightarrow> u32 \<Rightarrow> u32 \<Rightarrow> u16 \<Rightarrow> nat \<Rightarrow> u16 \<Rightarrow> u8 \<Rightarrow> u8 \<Rightarrow> (nat option \<times> nl_msg) outcome" where
  "genlmsg_put msg pid seq family hdrlen flags cmd version =
     bind_outcome (nlmsg_put msg pid seq family (GENL_HDRLEN + hdrlen) flags) (\<lambda>(nlh, msg).
       case nlh of None \<Rightarrow> Ok (None, msg)
       | Some h \<Rightarrow> bind_outcome (write_bytes (nm_nlh msg) (nlmsg_data h) [cmd, version, 0, 0]) (\<lambda>b.
           Ok (Some (nlmsg_data h + GENL_HDRLEN), msg\<lparr>nm_nlh := b\<rparr>)))"

text \<open>The names of the vendor subcommands.\<close>

definition qca_subcmds :: "(u32 \<times> string) list" where
  "qca_subcmds =
  [ (0x0, ''UNSPEC''), (0x1, ''TEST''), (0x9, ''ROAMING''), (0xa, ''AVOID_FREQUENCY''),
    (0xb, ''DFS_CAPABILITY''), (0xc, ''NAN''), (0xd, ''STATS_EXT''), (0xe, ''LL_STATS_SET''),
    (0xf, ''LL_STATS_GET''), (0x10, ''LL_STATS_CLR''), (0x14, ''GSCAN_START''), (0x15, ''GSCAN_STOP''),
    (0x17, ''GSCAN_GET_CAPABILITIES''), (0x40, ''ROAM''), (0x69, ''SETBAND''), (0x6a, ''TRIGGER_SCAN''),
    (0x6b, ''SCAN_DONE''), (0x37, ''GET_FEATURES''), (0x3d, ''GET_WIFI_INFO''), (0x36, ''DO_ACS''),
    (0x76, ''SET_SAP_CONFIG''), (0x77, ''TSF''), (0x7e, ''GET_HW_CAPABILITY''), (0x7f, ''LL_STATS_EXT''),
    (0x80, ''LOC_GET_CAPA''), (0x81, ''FTM_START_SESSION''), (0x82, ''FTM_ABORT_SESSION''),
    (0x8a, ''GET_CHAIN_RSSI''), (0x8f, ''CONFIGURE_TDLS''), (0x90, ''GET_HE_CAPABILITIES''),
    (0x91, ''ABORT_SCAN''), (0x92, ''SET_SAR_LIMITS''), (0x93, ''EXTERNAL_ACS''),
    (0x94, ''CHIP_PWRSAVE_FAILURE''), (0x95, ''NUD_STATS_SET''), (0x96, ''NUD_STATS_GET''),
    (0x9a, ''SPECTRAL_SCAN_START''), (0x9b, ''SPECTRAL_SCAN_STOP''), (0x9d, ''HANG''),
    (0xa4, ''GET_SAR_LIMITS''), (0xa5, ''WLAN_MAC_INFO''), (0xa7, ''THERMAL_CMD''), (0xa8, ''THERMAL_EVENT''),
    (0xa9, ''WIFI_TEST_CONFIGURATION''), (0xab, ''NAN_EXT''), (0xad, ''PEER_CFR_CAPTURE_CFG''),
    (0xaf, ''COEX_CONFIG''), (0xb0, ''GET_SUPPORTED_AKMS''), (0xb1, ''GET_FW_STATE''),
    (0xb4, ''BEACON_REPORTING''), (0xb6, ''OEM_DATA''), (0xb7, ''AVOID_FREQUENCY_EXT''),
    (0xb8, ''ADD_STA_NODE''), (0xb9, ''BTC_CHAIN_MODE''), (0xba, ''GET_STA_INFO''), (0xbe, ''CONFIG_TSPEC''),
    (0xbf, ''CONFIG_TWT''), (0xc0, ''GETBAND''), (0xc1, ''MEDIUM_ASSESS''), (0xc2, ''UPDATE_SSID''),
    (0xc3, ''WIFI_FW_STATS''), (0xc6, ''USABLE_CHANNELS''), (0xc7, ''GET_RADAR_HISTORY''),
    (0xc8, ''MDNS_OFFLOAD''), (0xca, ''SET_MONITOR_MODE''), (0xcb, ''ROAM_EVENTS''), (0xcd, ''MCC_QUOTA''),
    (0xd6, ''DRIVER_READY'')]"
definition qca_vendor_subcmd_to_string :: "u32 \<Rightarrow> string" where
  "qca_vendor_subcmd_to_string subcmd = (case map_of qca_subcmds subcmd of Some s \<Rightarrow> s | None \<Rightarrow> ''UNKNOWN'')"

abbreviation (input) NL80211_CMD_VENDOR :: u8 where "NL80211_CMD_VENDOR \<equiv> 103"
abbreviation (input) NL80211_ATTR_WIPHY :: nat where "NL80211_ATTR_WIPHY \<equiv> 1"
abbreviation (input) NL80211_ATTR_IFINDEX :: nat where "NL80211_ATTR_IFINDEX \<equiv> 3"
abbreviation (input) NL80211_ATTR_IFTYPE :: nat where "NL80211_ATTR_IFTYPE \<equiv> 5"
abbreviation (input) NL80211_ATTR_MAC :: nat where "NL80211_ATTR_MAC \<equiv> 6"
abbreviation (input) NL80211_ATTR_WIPHY_FREQ :: nat where "NL80211_ATTR_WIPHY_FREQ \<equiv> 38"
abbreviation (input) NL80211_ATTR_WIPHY_CHANNEL_TYPE :: nat where "NL80211_ATTR_WIPHY_CHANNEL_TYPE \<equiv> 39"
abbreviation (input) NL80211_ATTR_VENDOR_ID :: nat where "NL80211_ATTR_VENDOR_ID \<equiv> 195"
abbreviation (input) NL80211_ATTR_VENDOR_SUBCMD :: nat where "NL80211_ATTR_VENDOR_SUBCMD \<equiv> 196"
abbreviation (input) NL80211_ATTR_VENDOR_DATA :: nat where "NL80211_ATTR_VENDOR_DATA \<equiv> 197"
abbreviation (input) OUI_QCA :: u32 where "OUI_QCA \<equiv> 0x001374"

text \<open>The attribute of a mandatory kind; \<open>EINVAL\<close> when it is missing.\<close>

definition need_attr ::
  "nat option list \<Rightarrow> nat \<Rightarrow> nlmon_event \<Rightarrow> (nat \<Rightarrow> (int \<times> nlmon_event) outcome) \<Rightarrow> (int \<times> nlmon_event) outcome" where
  "need_attr tb t evt f =
     (if t < length tb then (case tb ! t of None \<Rightarrow> Ok (- EINVAL, evt) | Some a \<Rightarrow> f a) else UB)"

definition nlmon_parse_qca_vendor_msg :: "nl_env \<Rightarrow> alloc \<Rightarrow> u8 list \<Rightarrow> nat \<Rightarrow> nlmon_event \<Rightarrow> (int \<times> nlmon_event) outcome" where
  "nlmon_parse_qca_vendor_msg env mem m nlh evt =
     (let gnlh = nlmsg_data nlh in
      bind_outcome (genlmsg_parse m nlh 0 (NL80211_ATTR_MAX env) None) (\<lambda>(ret, tb).
      if ret < 0 then Ok (ret, evt)
      else
        bind_outcome (get_u8 m gnlh) (\<lambda>cmd.
        if cmd \<noteq> NL80211_CMD_VENDOR then Ok (- EINVAL, evt)
        else need_attr tb NL80211_ATTR_VENDOR_ID evt (\<lambda>a.
          bind_outcome (nla_get_u32 m a) (\<lambda>vendor_id.
          if vendor_id \<noteq> OUI_QCA then Ok (- EINVAL, evt)
          else need_attr tb NL80211_ATTR_VENDOR_SUBCMD evt (\<lambda>a.
            bind_outcome (nla_get_u32 m a) (\<lambda>subcmd.
            if \<not> mem 1 then Ok (- ENOMEM, evt)
            else
              let qi = \<lparr>qca_subcmd = subcmd, qca_subcmd_name = take 63 (qca_vendor_subcmd_to_string subcmd),
                        qca_vendor_id = vendor_id\<rparr> in
              bind_outcome (on_attr tb NL80211_ATTR_VENDOR_DATA () (\<lambda>a. bind_outcome (nla_len m a) (\<lambda>_. Ok ()))) (\<lambda>_.
              bind_outcome (on_attr tb NL80211_ATTR_IFINDEX evt (\<lambda>a. bind_outcome (nla_get_u32 m a) (\<lambda>v.
                  Ok (evt\<lparr>ev_interface := name_or env v (ev_interface evt)\<rparr>)))) (\<lambda>evt.
                Ok (0, set_data (NL_DATA_QCA_VENDOR qi) evt))))))))))"

definition zero_nl80211 :: nlmon_nl80211_info where
  "zero_nl80211 = \<lparr>nl80211_cmd = 0, nl80211_wiphy = 0, nl80211_ifindex = 0, nl80211_ifname = [], nl80211_iftype = 0,
     nl80211_mac = replicate 6 0, nl80211_freq = 0, nl80211_channel_type = 0\<rparr>"

text \<open>The optional attributes of an nl80211 message, into the structure and the event's interface.\<close>

definition nl80211_attrs ::
  "nl_env \<Rightarrow> u8 list \<Rightarrow> nat option list \<Rightarrow> nlmon_nl80211_info \<Rightarrow> nlmon_event \<Rightarrow> (nlmon_nl80211_info \<times> nlmon_event) outcome" where
  "nl80211_attrs env m tb wi evt =
     bind_outcome (on_attr tb NL80211_ATTR_WIPHY (wi\<lparr>nl80211_wiphy := -1\<rparr>) (\<lambda>a.
         bind_outcome (nla_get_u32 m a) (\<lambda>v. Ok (wi\<lparr>nl80211_wiphy := v\<rparr>)))) (\<lambda>wi.
     bind_outcome (on_attr tb NL80211_ATTR_IFINDEX (wi\<lparr>nl80211_ifindex := -1\<rparr>, evt) (\<lambda>a.
         bind_outcome (nla_get_u32 m a) (\<lambda>v.
           let s = name_or env v []
           in Ok (wi\<lparr>nl80211_ifindex := v, nl80211_ifname := s\<rparr>, evt\<lparr>ev_interface := take 15 s\<rparr>)))) (\<lambda>(wi, evt).
     bind_outcome (on_attr tb NL80211_ATTR_IFTYPE wi (\<lambda>a.
         bind_outcome (nla_get_u32 m a) (\<lambda>v. Ok (wi\<lparr>nl80211_iftype := v\<rparr>)))) (\<lambda>wi.
     bind_outcome (on_attr tb NL80211_ATTR_MAC wi (\<lambda>a.
         bind_outcome (copy_mac m a (nl80211_mac wi)) (\<lambda>bs. Ok (wi\<lparr>nl80211_mac := bs\<rparr>)))) (\<lambda>wi.
     bind_outcome (on_attr tb NL80211_ATTR_WIPHY_FREQ wi (\<lambda>a.
         bind_outcome (nla_get_u32 m a) (\<lambda>v. Ok (wi\<lparr>nl80211_freq := v\<rparr>)))) (\<lambda>wi.
     bind_outcome (on_attr tb NL80211_ATTR_WIPHY_CHANNEL_TYPE wi (\<lambda>a.
         bind_outcome (nla_get_u32 m a) (\<lambda>v. Ok (wi\<lparr>nl80211_channel_type := v\<rparr>)))) (\<lambda>wi. Ok (wi, evt)))))))"

definition nlmon_parse_nl80211_msg :: "nl_env \<Rightarrow> alloc \<Rightarrow> u8 list \<Rightarrow> nat \<Rightarrow> nlmon_event \<Rightarrow> (int \<times> nlmon_event) outcome" where
  "nlmon_parse_nl80211_msg env mem m nlh evt =
     (let gnlh = nlmsg_data nlh in
      bind_outcome (genlmsg_parse m nlh 0 (NL80211_ATTR_MAX env) None) (\<lambda>(ret, tb).
      if ret < 0 then Ok (ret, evt)
      else if \<not> mem 1 then Ok (- ENOMEM, evt)
      else
        bind_outcome (get_u8 m gnlh) (\<lambda>cmd.
        bind_outcome (nl80211_attrs env m tb (zero_nl80211\<lparr>nl80211_cmd := cmd\<rparr>) evt) (\<lambda>(wi, evt).
        bind_outcome (if cmd = NL80211_CMD_VENDOR then
            on_attr tb NL80211_ATTR_VENDOR_ID False (\<lambda>a. bind_outcome (nla_get_u32 m a) (\<lambda>v. Ok (v = OUI_QCA)))
          else Ok False) (\<lambda>qca.
          if qca then nlmon_parse_qca_vendor_msg env mem m nlh evt
          else Ok (0, set_data (NL_DATA_NL80211 wi) evt))))))"

section \<open>Conversion of a message\<close>

abbreviation (input) NETLINK_ROUTE :: i32 where "NETLINK_ROUTE \<equiv> 0"
abbreviation (input) NETLINK_SOCK_DIAG :: i32 where "NETLINK_SOCK_DIAG \<equiv> 4"
abbreviation (input) NETLINK_NETFILTER :: i32 where "NETLINK_NETFILTER \<equiv> 12"
abbreviation (input) NETLINK_GENERIC :: i32 where "NETLINK_GENERIC \<equiv> 16"

text \<open>The message types of the route family: new, delete, get.\<close>

definition link_types :: "u16 list" where "link_types = [16, 17, 18]"
definition addr_types :: "u16 list" where "addr_types = [20, 21, 22]"
definition route_types :: "u16 list" where "route_types = [24, 25, 26]"
definition neigh_types :: "u16 list" where "neigh_types = [28, 29, 30]"

definition nlmon_nl_extract_header :: "u8 list \<Rightarrow> nat \<Rightarrow> u64 \<Rightarrow> nlmon_event \<Rightarrow> nlmon_event outcome" where
  "nlmon_nl_extract_header m nlh now_us evt =
     bind_outcome (nlh_type m nlh) (\<lambda>type. bind_outcome (nlh_flags m nlh) (\<lambda>flags.
     bind_outcome (nlh_seq m nlh) (\<lambda>seq. bind_outcome (nlh_pid m nlh) (\<lambda>pid.
       Ok (evt\<lparr>ev_netlink := (ev_netlink evt)\<lparr>nl_msg_type := type, nl_msg_flags := flags, nl_seq := seq, nl_pid := pid\<rparr>,
             ev_timestamp := now_us\<rparr>)))))"

definition typed :: "u16 \<Rightarrow> (int \<times> nlmon_event) outcome \<Rightarrow> (int \<times> nlmon_event) outcome" where
  "typed type r = bind_outcome r (\<lambda>(ret, evt). Ok (ret, evt\<lparr>ev_event_type := ucast type\<rparr>))"

definition typed_if_ok :: "u16 \<Rightarrow> (int \<times> nlmon_event) outcome \<Rightarrow> (int \<times> nlmon_event) outcome" where
  "typed_if_ok type r =
     bind_outcome r (\<lambda>(ret, evt). Ok (ret, if ret = 0 then evt\<lparr>ev_event_type := ucast type\<rparr> else evt))"

definition nlmon_nl_msg_to_event ::
  "nl_env \<Rightarrow> u8 list \<Rightarrow> alloc \<Rightarrow> u64 \<Rightarrow> u8 list \<Rightarrow> i32 \<Rightarrow> (int \<times> nlmon_event) outcome" where
  "nlmon_nl_msg_to_event env tmp mem now_us m protocol =
     bind_outcome (nlmon_nl_extract_header m 0 now_us (zero_event\<lparr>ev_netlink := zero_netlink\<lparr>nl_protocol := protocol\<rparr>\<rparr>)) (\<lambda>evt.
       let type = nl_msg_type (ev_netlink evt)
       in if protocol = NETLINK_ROUTE then
            if type \<in> set link_types then typed type (nlmon_parse_link_msg env mem m 0 evt)
            else if type \<in> set addr_types then typed type (nlmon_parse_addr_msg env mem m 0 evt)
            else if type \<in> set route_types then typed type (nlmon_parse_route_msg env mem m 0 evt)
            else if type \<in> set neigh_types then typed type (nlmon_parse_neigh_msg env mem m 0 evt)
            else Ok (- ENOTSUP, evt)
          else if protocol = NETLINK_GENERIC then
            bind_outcome (nlmon_parse_nl80211_msg env mem m 0 evt) (\<lambda>(ret, evt).
              if ret = 0 then Ok (ret, evt\<lparr>ev_event_type := ucast type\<rparr>)
              else typed_if_ok type (nlmon_parse_qca_vendor_msg env mem m 0 evt))
          else if protocol = NETLINK_SOCK_DIAG then typed_if_ok type (nlmon_parse_inet_diag_msg env mem m 0 evt)
          else if protocol = NETLINK_NETFILTER then typed_if_ok type (nlmon_parse_conntrack_msg env tmp mem m 0 evt)
          else Ok (- EPROTONOSUPPORT, evt))"

section \<open>Decoding well-formed messages\<close>

text \<open>
  The bytes of a message as the kernel builds it: length, twelve further header bytes, the family header and
  the attributes.
\<close>

definition message_bytes :: "u8 list \<Rightarrow> u8 list \<Rightarrow> (nat \<times> u8 list) list \<Rightarrow> u8 list" where
  "message_bytes hdr fam as = le_bytes 4 (16 + length fam + length (encode_attrs as)) @ hdr @ fam @ encode_attrs as"

definition message_ok :: "u8 list \<Rightarrow> u8 list \<Rightarrow> (nat \<times> u8 list) list \<Rightarrow> bool" where
  "message_ok hdr fam as \<longleftrightarrow> length hdr = 12 \<and> 4 dvd length fam \<and> (\<forall>a \<in> set as. attr_ok a) \<and>
     16 + length fam + length (encode_attrs as) < 2 ^ 31"

text \<open>\<open>tb\<close> leads to the last attribute of every type up to \<open>maxtype\<close>.\<close>

definition indexes :: "u8 list \<Rightarrow> int \<Rightarrow> (nat \<times> u8 list) list \<Rightarrow> nat option list \<Rightarrow> bool" where
  "indexes m maxtype as tb \<longleftrightarrow> length tb = nat (maxtype + 1) \<and> (\<forall>t. 0 < t \<and> int t \<le> maxtype \<longrightarrow>
     (case map_of (rev as) t of
        None \<Rightarrow> tb ! t = None
      | Some d \<Rightarrow> \<exists>a. tb ! t = Some a \<and> nla_len m a = Ok (int (length d)) \<and> read_bytes m (nla_data a) (length d) = Ok d))"

lemma nlmsg_parse_message:
  assumes "message_ok hdr fam as" "m = message_bytes hdr fam as"
  obtains tb where "nlmsg_parse m 0 (length fam) maxtype None = Ok (0, tb)" "indexes m maxtype as tb"
proof -
  let ?n = "\<lparr>nm_protocol = 0, nm_nlh = m, nm_size = length m, nm_refcnt = 1\<rparr>"
  have pad: "padded fam = fam" using assms(1) by (simp add: padded_def message_ok_def NLA_ALIGN_id)
  have "msg_holds ?n (padded fam @ encode_attrs as)"
    using assms unfolding msg_holds_def pad message_ok_def message_bytes_def by (auto simp: add.assoc)
  note p = nlmsg_parse_holds [OF this, of maxtype]
  let ?tb = "index_attrs maxtype (16 + NLA_ALIGN (length fam)) as (replicate (nat (maxtype + 1)) None)"
  let ?pre = "le_bytes 4 (16 + length fam + length (encode_attrs as)) @ hdr @ fam"
  have ok: "\<forall>a \<in> set as. attr_ok a" using assms(1) by (simp add: message_ok_def)
  have lpre: "length ?pre = 16 + NLA_ALIGN (length fam)" using assms(1) by (simp add: message_ok_def NLA_ALIGN_id)
  have blk: "m = ?pre @ encode_attrs as @ []" using assms(2) by (simp add: message_bytes_def)
  have "case map_of (rev as) t of
        None \<Rightarrow> ?tb ! t = None
      | Some d \<Rightarrow> \<exists>a. ?tb ! t = Some a \<and> nla_len m a = Ok (int (length d)) \<and> read_bytes m (nla_data a) (length d) = Ok d"
    if t: "0 < t" "int t \<le> maxtype" for t
  proof -
    have r: "replicate (nat (maxtype + 1)) (None :: nat option) ! t = None" using t by simp
    define e where "e = ?tb ! t"
    have q: "case e of None \<Rightarrow> t \<notin> fst ` set as | Some a \<Rightarrow> t \<in> fst ` set as \<and>
        (\<exists>d. map_of (rev as) t = Some d \<and> nla_len m a = Ok (int (length d)) \<and> read_bytes m (nla_data a) (length d) = Ok d)"
      using index_attrs_payload [where tb = "replicate (nat (maxtype + 1)) None", OF ok blk length_replicate t] r
      unfolding lpre e_def [symmetric] by (cases e) (auto split: if_splits)
    have none: "t \<notin> fst ` set as \<longleftrightarrow> map_of (rev as) t = None" by (simp add: map_of_eq_None_iff)
    show ?thesis unfolding e_def [symmetric] using q none by (cases e; cases "map_of (rev as) t") auto
  qed
  then have "indexes m maxtype as ?tb" by (simp add: indexes_def)
  then show ?thesis using that p ok by simp
qed

lemma on_attr_indexes:
  assumes "indexes m maxtype as tb" "0 < t" "int t \<le> maxtype"
  shows "case map_of (rev as) t of
      None \<Rightarrow> on_attr tb t x f = Ok x \<and> tb ! t = None
    | Some d \<Rightarrow> \<exists>a. tb ! t = Some a \<and> on_attr tb t x f = f a \<and> nla_len m a = Ok (int (length d)) \<and>
        read_bytes m (nla_data a) (length d) = Ok d"
proof -
  have "t < length tb" using assms by (simp add: indexes_def)
  then show ?thesis using assms by (auto simp: indexes_def on_attr_def split: option.splits)
qed

lemma read_bytes_take: "read_bytes m i n = Ok d \<Longrightarrow> k \<le> n \<Longrightarrow> read_bytes m i k = Ok (take k d)"
  by (auto simp: read_bytes_def min_def split: if_splits)

lemma read_le_payload: "read_bytes m i n = Ok d \<Longrightarrow> k \<le> n \<Longrightarrow> read_le k m i = Ok (le_val (take k d))"
  by (simp add: read_le_def read_bytes_take)

lemma c_string_zeros: "c_string (bs @ replicate k 0) = c_string bs"
  by (induction bs) (auto simp: c_string_def takeWhile_replicate)

lemma read_last:
  assumes "read_bytes m i (length d) = Ok d" "d \<noteq> []"
  shows "read_le 1 m (i + length d - 1) = Ok (unat (last d))"
proof -
  have le: "i + length d \<le> length m" and d: "take (length d) (drop i m) = d"
    using assms(1) by (auto simp: read_bytes_def split: if_splits)
  have pos: "0 < length d" using assms(2) by simp
  have "last d = d ! (length d - 1)" using assms(2) by (rule last_conv_nth)
  also have "\<dots> = take (length d) (drop i m) ! (length d - 1)" by (simp only: d)
  also have "\<dots> = m ! (i + length d - 1)" using le pos by (simp add: add_diff_assoc Suc_leI)
  finally have l: "last d = m ! (i + length d - 1)" .
  have "take 1 (drop (i + length d - 1) m) = [m ! (i + length d - 1)]"
  proof -
    have "i + length d - 1 < length m" using le pos by linarith
    from Cons_nth_drop_Suc [OF this, symmetric] show ?thesis by simp
  qed
  moreover have "i + length d - 1 + 1 \<le> length m" using le pos by linarith
  ultimately show ?thesis by (simp add: read_le_Ok l)
qed

lemma c_string_cut:
  assumes "s = (if d \<noteq> [] \<and> last d = 0 then length d - 1 else length d)"
  shows "c_string (take (if n \<le> s then n - 1 else s) d) = c_string (take (n - 1) d)"
proof (cases "n \<le> s \<or> s = length d \<or> n - 1 \<le> s")
  case True
  then consider "n \<le> s" | "s = length d" "\<not> n \<le> s" | "n - 1 = s" "\<not> n \<le> s" by linarith
  then show ?thesis by cases simp_all
next
  case False
  then have d: "d \<noteq> []" "last d = 0" "s = length d - 1" "length d \<le> n - 1" "\<not> n \<le> s" using assms by (auto split: if_splits)
  have "d = butlast d @ replicate 1 0" using d(1,2) append_butlast_last_id [of d] by simp
  then have "c_string d = c_string (butlast d)" by (metis c_string_zeros)
  moreover have "take s d = butlast d" using d(3) by (simp add: butlast_conv_take)
  ultimately show ?thesis using d(4,5) by simp
qed

lemma get_string_payload:
  assumes "nla_len m a = Ok (int (length d))" "read_bytes m (nla_data a) (length d) = Ok d" "length d < 2 ^ 64" "0 < n"
  shows "get_string m a n = Ok (c_string (take (n - 1) d))"
proof -
  define s where "s = (if d \<noteq> [] \<and> last d = 0 then length d - 1 else length d)"
  have size: "to_size_t (int (length d)) = length d" using assms(3) by simp
  have ends: "(if length d > 0 then bind_outcome (read_le 1 m (nla_data a + length d - 1)) (\<lambda>c. Ok (c = 0)) else Ok False) =
      Ok (d \<noteq> [] \<and> last d = 0)"
    using read_last [OF assms(2)] by (auto simp: unat_eq_0)
  have s: "(if d \<noteq> [] \<and> last d = 0 then length d - 1 else length d) = s" by (simp add: s_def)
  let ?len = "if s \<ge> n then n - 1 else s"
  have "?len \<le> length d" by (auto simp: s_def)
  then have "read_bytes m (nla_data a) ?len = Ok (take ?len d)" using read_bytes_take [OF assms(2)] by blast
  then have "nla_strlcpy m a n = Ok (s, take ?len d @ replicate (n - ?len) 0)"
    using assms(1,4) ends unfolding nla_strlcpy_def by (simp only: bind_outcome.simps Let_def size s if_True)
  then show ?thesis
    using c_string_cut [OF s_def, of n] by (simp add: get_string_def c_string_zeros)
qed

lemma copy_mac_payload:
  assumes "nla_len m a = Ok (int (length d))" "read_bytes m (nla_data a) (length d) = Ok d"
  shows "copy_mac m a dest = Ok (if length d \<le> 6 then d @ drop (length d) dest else dest)"
  using assms by (simp add: copy_mac_def)

text \<open>The statements of the parsers on a message that is well-formed, one lemma per kind of attribute.\<close>

lemma on_attr_u32:
  assumes "indexes m maxtype as tb" "0 < t" "int t \<le> maxtype" "\<And>d. map_of (rev as) t = Some d \<Longrightarrow> 4 \<le> length d"
  shows "on_attr tb t x (\<lambda>a. bind_outcome (nla_get_u32 m a) (\<lambda>v. Ok (f v))) =
    Ok (case map_of (rev as) t of None \<Rightarrow> x | Some d \<Rightarrow> f (of_nat (le_val (take 4 d))))"
  using on_attr_indexes [OF assms(1-3), of x "\<lambda>a. bind_outcome (nla_get_u32 m a) (\<lambda>v. Ok (f v))"] assms(4)
  by (cases "map_of (rev as) t") (auto simp: nla_get_u32_def read_le_payload)

lemma on_attr_u8:
  assumes "indexes m maxtype as tb" "0 < t" "int t \<le> maxtype" "\<And>d. map_of (rev as) t = Some d \<Longrightarrow> 1 \<le> length d"
  shows "on_attr tb t x (\<lambda>a. bind_outcome (nla_get_u8 m a) (\<lambda>v. Ok (f v))) =
    Ok (case map_of (rev as) t of None \<Rightarrow> x | Some d \<Rightarrow> f (of_nat (le_val (take 1 d))))"
  using on_attr_indexes [OF assms(1-3), of x "\<lambda>a. bind_outcome (nla_get_u8 m a) (\<lambda>v. Ok (f v))"] assms(4)
  by (cases "map_of (rev as) t") (auto simp: nla_get_u8_def read_le_payload)

lemma on_attr_mac:
  assumes "indexes m maxtype as tb" "0 < t" "int t \<le> maxtype"
  shows "on_attr tb t x (\<lambda>a. bind_outcome (copy_mac m a dest) (\<lambda>v. Ok (f v))) =
    Ok (case map_of (rev as) t of None \<Rightarrow> x | Some d \<Rightarrow> f (if length d \<le> 6 then d @ drop (length d) dest else dest))"
  using on_attr_indexes [OF assms(1-3), of x "\<lambda>a. bind_outcome (copy_mac m a dest) (\<lambda>v. Ok (f v))"]
  by (cases "map_of (rev as) t") (auto simp: copy_mac_payload)

lemma map_of_attr_ok: "\<forall>a \<in> set as. attr_ok a \<Longrightarrow> map_of (rev as) t = Some d \<Longrightarrow> length d < 2 ^ 64"
  using map_of_SomeD [of "rev as" t d] by fastforce

lemma on_attr_string:
  assumes "indexes m maxtype as tb" "0 < t" "int t \<le> maxtype" "\<forall>a \<in> set as. attr_ok a" "0 < n"
  shows "on_attr tb t x (\<lambda>a. bind_outcome (get_string m a n) (\<lambda>v. Ok (f v))) =
    Ok (case map_of (rev as) t of None \<Rightarrow> x | Some d \<Rightarrow> f (c_string (take (n - 1) d)))"
  using on_attr_indexes [OF assms(1-3), of x "\<lambda>a. bind_outcome (get_string m a n) (\<lambda>v. Ok (f v))"] assms(5)
    map_of_attr_ok [OF assms(4)]
  by (cases "map_of (rev as) t") (auto simp: get_string_payload)

lemma string_or_default:
  assumes "indexes m maxtype as tb" "0 < t" "int t \<le> maxtype" "\<forall>a \<in> set as. attr_ok a" "0 < n"
  shows "(if t < length tb then
      (case tb ! t of Some a \<Rightarrow> bind_outcome (get_string m a n) (\<lambda>v. Ok (f v)) | None \<Rightarrow> Ok x) else UB) =
    Ok (case map_of (rev as) t of None \<Rightarrow> x | Some d \<Rightarrow> f (c_string (take (n - 1) d)))"
  using on_attr_string [OF assms, of x f] by (simp add: on_attr_def)

text \<open>The link a message describes.\<close>

definition link_of :: "nl_env \<Rightarrow> u8 list \<Rightarrow> (nat \<times> u8 list) list \<Rightarrow> nlmon_link_info" where
  "link_of env fam as =
     (let attr = map_of (rev as); index = of_nat (le_val (take 4 (drop 4 fam)))
      in \<lparr>link_ifname = (case attr IFLA_IFNAME of None \<Rightarrow> name_or env index [] | Some d \<Rightarrow> c_string (take 15 d)),
          link_ifindex = index,
          link_flags = of_nat (le_val (take 4 (drop 8 fam))),
          link_mtu = (case attr IFLA_MTU of None \<Rightarrow> 0 | Some d \<Rightarrow> of_nat (le_val (take 4 d))),
          link_addr = (case attr IFLA_ADDRESS of
              Some d \<Rightarrow> if length d \<le> 6 then d @ replicate (6 - length d) 0 else replicate 6 0
            | None \<Rightarrow> replicate 6 0),
          link_qdisc = (case attr IFLA_QDISC of None \<Rightarrow> [] | Some d \<Rightarrow> c_string (take 31 d)),
          link_operstate = (case attr IFLA_OPERSTATE of None \<Rightarrow> 0 | Some d \<Rightarrow> ucast (of_nat (le_val (take 1 d)) :: u8))\<rparr>)"

lemma link_updates:
  "(case v of None \<Rightarrow> li | Some d \<Rightarrow> li\<lparr>link_mtu := f d\<rparr>) = li\<lparr>link_mtu := case v of None \<Rightarrow> link_mtu li | Some d \<Rightarrow> f d\<rparr>"
  "(case v of None \<Rightarrow> li | Some d \<Rightarrow> li\<lparr>link_addr := g d\<rparr>) = li\<lparr>link_addr := case v of None \<Rightarrow> link_addr li | Some d \<Rightarrow> g d\<rparr>"
  "(case v of None \<Rightarrow> li | Some d \<Rightarrow> li\<lparr>link_qdisc := h d\<rparr>) = li\<lparr>link_qdisc := case v of None \<Rightarrow> link_qdisc li | Some d \<Rightarrow> h d\<rparr>"
  "(case v of None \<Rightarrow> li | Some d \<Rightarrow> li\<lparr>link_operstate := k d\<rparr>) =
     li\<lparr>link_operstate := case v of None \<Rightarrow> link_operstate li | Some d \<Rightarrow> k d\<rparr>"
  "(case v of None \<Rightarrow> li\<lparr>link_ifname := s\<rparr> | Some d \<Rightarrow> li\<lparr>link_ifname := h d\<rparr>) =
     li\<lparr>link_ifname := case v of None \<Rightarrow> s | Some d \<Rightarrow> h d\<rparr>"
  by (cases v; simp)+

lemma family_field:
  assumes "message_ok hdr fam as" "m = message_bytes hdr fam as" "i + k \<le> length fam"
  shows "read_le k m (nlmsg_data 0 + i) = Ok (le_val (take k (drop i fam)))"
proof -
  have h: "length hdr = 12" using assms(1) by (simp add: message_ok_def)
  have "drop (16 + i) m = drop i fam @ encode_attrs as"
    using h assms(3) by (simp add: assms(2) message_bytes_def)
  moreover have "16 + i + k \<le> length m" using h assms(3) by (simp add: assms(2) message_bytes_def)
  ultimately show ?thesis using assms(3) by (simp add: nlmsg_data_def read_le_Ok)
qed

lemma nlmon_parse_link_msg_message:
  assumes "message_ok hdr fam as" "m = message_bytes hdr fam as" "length fam = 16" "16 \<le> IFLA_MAX env" "mem 1"
    and "\<And>d. map_of (rev as) IFLA_MTU = Some d \<Longrightarrow> 4 \<le> length d" "\<And>d. map_of (rev as) IFLA_OPERSTATE = Some d \<Longrightarrow> 1 \<le> length d"
  shows "nlmon_parse_link_msg env mem m 0 evt =
    Ok (0, (set_data (NL_DATA_LINK (link_of env fam as)) evt)\<lparr>ev_interface := take 15 (link_ifname (link_of env fam as))\<rparr>)"
proof -
  obtain tb where tb: "nlmsg_parse m 0 16 (IFLA_MAX env) None = Ok (0, tb)" "indexes m (IFLA_MAX env) as tb"
    using nlmsg_parse_message [OF assms(1,2), of "IFLA_MAX env"] assms(3) by metis
  have ok: "\<forall>a \<in> set as. attr_ok a" using assms(1) by (simp add: message_ok_def)
  have f: "get_u32 m (nlmsg_data 0 + 4) = Ok (of_nat (le_val (take 4 (drop 4 fam))))"
    "get_u32 m (nlmsg_data 0 + 8) = Ok (of_nat (le_val (take 4 (drop 8 fam))))"
    using family_field [OF assms(1,2)] assms(3) by (simp_all add: get_u32_def)
  have idx: "int IFLA_ADDRESS \<le> IFLA_MAX env" "int IFLA_IFNAME \<le> IFLA_MAX env" "int IFLA_MTU \<le> IFLA_MAX env"
    "int IFLA_QDISC \<le> IFLA_MAX env" "int IFLA_OPERSTATE \<le> IFLA_MAX env"
    using assms(4) by simp_all
  note attrs = string_or_default [OF tb(2) _ idx(2) ok] on_attr_u32 [OF tb(2) _ idx(3) assms(6)] on_attr_mac [OF tb(2) _ idx(1)]
    on_attr_string [OF tb(2) _ idx(4) ok] on_attr_u8 [OF tb(2) _ idx(5) assms(7)]
  show ?thesis
    unfolding nlmon_parse_link_msg_def Let_def tb(1) f
    by (simp add: assms(5) attrs link_updates del: One_nat_def)
      (cases "map_of (rev as) IFLA_ADDRESS"; simp add: link_of_def zero_link_def Let_def cong: option.case_cong del: One_nat_def)
qed

definition header_bytes :: "u16 \<Rightarrow> u16 \<Rightarrow> u32 \<Rightarrow> u32 \<Rightarrow> u8 list" where
  "header_bytes type flags seq pid =
     le_bytes 2 (unat type) @ le_bytes 2 (unat flags) @ le_bytes 4 (unat seq) @ le_bytes 4 (unat pid)"

lemma length_header_bytes [simp]: "length (header_bytes type flags seq pid) = 12"
  by (simp add: header_bytes_def)

lemma header_field:
  assumes "length hdr = 12" "m = message_bytes hdr fam as" "i + k \<le> 12"
  shows "read_le k m (4 + i) = Ok (le_val (take k (drop i hdr)))"
proof -
  have "drop (4 + i) m = drop i hdr @ fam @ encode_attrs as"
    using assms(1,3) by (simp add: assms(2) message_bytes_def)
  moreover have "4 + i + k \<le> length m" using assms(1,3) by (simp add: assms(2) message_bytes_def)
  ultimately show ?thesis using assms(1,3) by (simp add: read_le_Ok)
qed

lemma of_nat_unat_mod: "n = LENGTH('a::len) \<Longrightarrow> of_nat (unat (w :: 'a word) mod 2 ^ n) = w"
  using unsigned_less [of w] by simp

lemma message_header:
  assumes "m = message_bytes (header_bytes type flags seq pid) fam as"
  shows "nlh_type m 0 = Ok type" "nlh_flags m 0 = Ok flags" "nlh_seq m 0 = Ok seq" "nlh_pid m 0 = Ok pid"
proof -
  let ?h = "header_bytes type flags seq pid"
  note r = header_field [OF length_header_bytes assms]
  have drops: "take 2 (drop 0 ?h) = le_bytes 2 (unat type)" "take 2 (drop 2 ?h) = le_bytes 2 (unat flags)"
    "take 4 (drop 4 ?h) = le_bytes 4 (unat seq)" "take 4 (drop 8 ?h) = le_bytes 4 (unat pid)"
    by (simp_all add: header_bytes_def)
  show "nlh_type m 0 = Ok type" "nlh_flags m 0 = Ok flags" "nlh_seq m 0 = Ok seq" "nlh_pid m 0 = Ok pid"
    using r [of 0 2] r [of 2 2] r [of 4 4] r [of 8 4] of_nat_unat_mod [of 16 type] of_nat_unat_mod [of 16 flags]
      of_nat_unat_mod [of 32 seq] of_nat_unat_mod [of 32 pid]
    unfolding drops by (simp_all add: nlh_type_def nlh_flags_def nlh_seq_def nlh_pid_def)
qed

end
