(* ===== verification/Nl_Recv.thy ===== *)
theory Nl_Recv
  imports Netlink_Msg
begin

text \<open>
  Receiving with libnl: callback sets (\<^verbatim>\<open>libnl/handlers.c\<close>), sockets (the state part of \<^verbatim>\<open>libnl/socket.c\<close>) and
  the receive loop (\<^verbatim>\<open>nl_recv\<close> and \<^verbatim>\<open>recvmsgs\<close> of \<^verbatim>\<open>libnl/nl.c\<close>), with the mapping of system errors of
  \<^verbatim>\<open>libnl/error.c\<close>.

  The kernel is a list of results, one per call of \<^verbatim>\<open>recvmsg\<close>; when it is used up, no data is available
  (\<^verbatim>\<open>EAGAIN\<close> on the non-blocking sockets nlmon has). Callbacks are symbols of a type \<open>'f\<close>; what they do to
  the state \<open>'s\<close> of their owner is an argument \<open>call\<close>. Both loops are partial functions: that they return is a
  theorem, not a matter of definition. The receive buffer is a block with the received bytes at its front, so that
  a read behind them is a read of the rest of the block, and a read behind the block is undefined.
\<close>

section \<open>Error numbers\<close>

abbreviation (input) NLE_FAILURE :: int where "NLE_FAILURE \<equiv> 1"
abbreviation (input) NLE_INTR :: int where "NLE_INTR \<equiv> 2"
abbreviation (input) NLE_BAD_SOCK :: int where "NLE_BAD_SOCK \<equiv> 3"
abbreviation (input) NLE_AGAIN :: int where "NLE_AGAIN \<equiv> 4"
abbreviation (input) NLE_EXIST :: int where "NLE_EXIST \<equiv> 6"
abbreviation (input) NLE_OPNOTSUPP :: int where "NLE_OPNOTSUPP \<equiv> 10"
abbreviation (input) NLE_AF_NOSUPPORT :: int where "NLE_AF_NOSUPPORT \<equiv> 11"
abbreviation (input) NLE_OBJ_NOTFOUND :: int where "NLE_OBJ_NOTFOUND \<equiv> 12"
abbreviation (input) NLE_SEQ_MISMATCH :: int where "NLE_SEQ_MISMATCH \<equiv> 16"
abbreviation (input) NLE_MSG_OVERFLOW :: int where "NLE_MSG_OVERFLOW \<equiv> 17"
abbreviation (input) NLE_MSG_TRUNC :: int where "NLE_MSG_TRUNC \<equiv> 18"
abbreviation (input) NLE_NOADDR :: int where "NLE_NOADDR \<equiv> 19"
abbreviation (input) NLE_MSGTYPE_NOSUPPORT :: int where "NLE_MSGTYPE_NOSUPPORT \<equiv> 22"
abbreviation (input) NLE_BUSY :: int where "NLE_BUSY \<equiv> 25"
abbreviation (input) NLE_PROTO_MISMATCH :: int where "NLE_PROTO_MISMATCH \<equiv> 26"
abbreviation (input) NLE_NOACCESS :: int where "NLE_NOACCESS \<equiv> 27"
abbreviation (input) NLE_PERM :: int where "NLE_PERM \<equiv> 28"
abbreviation (input) NLE_NODEV :: int where "NLE_NODEV \<equiv> 31"

abbreviation (input) EINTR :: int where "EINTR \<equiv> 4"
abbreviation (input) EAGAIN :: int where "EAGAIN \<equiv> 11"

text \<open>The numbers are those of Linux.\<close>

definition nl_syserr2nlerr :: "int \<Rightarrow> int" where
  "nl_syserr2nlerr error =
     (case map_of
        [(9, NLE_BAD_SOCK), (98, NLE_EXIST), (17, NLE_EXIST), (99, NLE_NOADDR), (3, NLE_OBJ_NOTFOUND), (2, NLE_OBJ_NOTFOUND),
         (4, NLE_INTR), (11, NLE_AGAIN), (88, NLE_BAD_SOCK), (92, NLE_INVAL), (14, NLE_INVAL), (13, NLE_NOACCESS), (22, NLE_INVAL),
         (105, NLE_NOMEM), (12, NLE_NOMEM), (97, NLE_AF_NOSUPPORT), (93, NLE_PROTO_MISMATCH), (95, NLE_OPNOTSUPP), (1, NLE_PERM),
         (16, NLE_BUSY), (34, NLE_RANGE), (19, NLE_NODEV)] \<bar>error\<bar> of
        Some e \<Rightarrow> e | None \<Rightarrow> NLE_FAILURE)"

lemma nl_syserr2nlerr_positive: "0 < nl_syserr2nlerr e"
  by (auto simp: nl_syserr2nlerr_def split: option.splits if_splits dest!: map_of_SomeD)

section \<open>Callback sets\<close>

datatype nl_cb_type = NL_CB_VALID | NL_CB_FINISH | NL_CB_OVERRUN | NL_CB_SKIPPED | NL_CB_ACK | NL_CB_MSG_IN
  | NL_CB_MSG_OUT | NL_CB_INVALID | NL_CB_SEQ_CHECK | NL_CB_SEND_ACK

datatype nl_cb_kind = NL_CB_DEFAULT | NL_CB_VERBOSE | NL_CB_DEBUG | NL_CB_CUSTOM

record 'f nl_cb =
  cb_set :: "nl_cb_type \<Rightarrow> 'f option"
  cb_err :: "'f option"
  cb_refcnt :: int

definition nl_cb_set :: "'f nl_cb \<Rightarrow> nl_cb_type \<Rightarrow> nl_cb_kind \<Rightarrow> 'f option \<Rightarrow> 'f nl_cb" where
  "nl_cb_set cb type kind func =
     (if kind = NL_CB_CUSTOM then cb\<lparr>cb_set := (cb_set cb)(type := func)\<rparr> else cb)"

definition nl_cb_err :: "'f nl_cb \<Rightarrow> nl_cb_kind \<Rightarrow> 'f option \<Rightarrow> 'f nl_cb" where
  "nl_cb_err cb kind func = (if kind = NL_CB_CUSTOM then cb\<lparr>cb_err := func\<rparr> else cb)"

definition nl_cb_alloc :: "alloc \<Rightarrow> nl_cb_kind \<Rightarrow> 'f nl_cb option" where
  "nl_cb_alloc mem kind =
     (if \<not> mem 1 then None
      else Some (nl_cb_err
        (fold (\<lambda>type cb. nl_cb_set cb type kind None)
          [NL_CB_VALID, NL_CB_FINISH, NL_CB_OVERRUN, NL_CB_SKIPPED, NL_CB_ACK, NL_CB_MSG_IN, NL_CB_MSG_OUT, NL_CB_INVALID,
           NL_CB_SEQ_CHECK, NL_CB_SEND_ACK]
          \<lparr>cb_set = (\<lambda>_. None), cb_err = None, cb_refcnt = 1\<rparr>) kind None))"

lemma nl_cb_alloc_empty: "nl_cb_alloc mem kind = Some cb \<Longrightarrow> cb = \<lparr>cb_set = (\<lambda>_. None), cb_err = None, cb_refcnt = 1\<rparr>"
  by (auto simp: nl_cb_alloc_def nl_cb_set_def nl_cb_err_def fun_eq_iff split: if_splits)

definition nl_cb_clone :: "alloc \<Rightarrow> 'f nl_cb \<Rightarrow> 'f nl_cb option" where
  "nl_cb_clone mem orig =
     (case nl_cb_alloc mem NL_CB_DEFAULT :: 'f nl_cb option of None \<Rightarrow> None | Some cb \<Rightarrow> Some (orig\<lparr>cb_refcnt := 1\<rparr>))"

text \<open>\<open>Ok None\<close>: the set was freed.\<close>

definition nl_cb_put :: "'f nl_cb \<Rightarrow> 'f nl_cb option outcome" where
  "nl_cb_put cb =
     (let n = cb_refcnt cb - 1
      in if n < 0 then Fail else Ok (if n \<le> 0 then None else Some (cb\<lparr>cb_refcnt := n\<rparr>)))"

section \<open>Sockets\<close>

text \<open>Both \<^verbatim>\<open>noop_seq_check\<close> functions (libnl's and nlmon's) are one symbol; other callbacks belong to the client.\<close>

datatype 'f cb_fn = noop_seq_check | Custom 'f

record 'f nl_sock =
  s_fd :: int
  s_proto :: i32
  s_seq_next :: u32
  s_seq_expect :: u32
  s_peek :: bool
  s_cb :: "'f cb_fn nl_cb"

text \<open>\<open>now\<close>: the clock; \<open>port\<close>: whether a local port was left.\<close>

definition nl_socket_alloc :: "alloc \<Rightarrow> u32 \<Rightarrow> bool \<Rightarrow> 'f nl_sock option" where
  "nl_socket_alloc mem now port =
     (case nl_cb_alloc mem NL_CB_DEFAULT of
        None \<Rightarrow> None
      | Some cb \<Rightarrow>
          if \<not> mem 2 \<or> \<not> port then None
          else Some \<lparr>s_fd = -1, s_proto = 0, s_seq_next = now, s_seq_expect = now, s_peek = False, s_cb = cb\<rparr>)"

definition nl_socket_disable_seq_check :: "'f nl_sock \<Rightarrow> 'f nl_sock" where
  "nl_socket_disable_seq_check sk = sk\<lparr>s_cb := nl_cb_set (s_cb sk) NL_CB_SEQ_CHECK NL_CB_CUSTOM (Some noop_seq_check)\<rparr>"

definition nl_socket_use_seq :: "'f nl_sock \<Rightarrow> u32 \<times> 'f nl_sock" where
  "nl_socket_use_seq sk = (s_seq_next sk, sk\<lparr>s_seq_next := s_seq_next sk + 1\<rparr>)"

definition nl_close :: "'f nl_sock \<Rightarrow> 'f nl_sock" where
  "nl_close sk = sk\<lparr>s_fd := if s_fd sk \<ge> 0 then -1 else s_fd sk, s_proto := 0\<rparr>"

section \<open>Reading a datagram\<close>

text \<open>
  What \<^verbatim>\<open>recvmsg\<close> did: it failed with an error number, or it stored bytes; the flags say that the datagram was
  longer than the buffer (\<^verbatim>\<open>MSG_TRUNC\<close>), that control data was cut off (\<^verbatim>\<open>MSG_CTRUNC\<close>), and that the sender's
  address has the length of a netlink address.
\<close>

datatype recv_result = Recv_Error int | Recv_Data "u8 list" bool bool bool

text \<open>
  \<open>flags\<close>: \<^verbatim>\<open>MSG_PEEK\<close> is set; \<open>buf\<close>: the block, whose length is \<^verbatim>\<open>iov_len\<close>; \<open>grow\<close>: what \<^verbatim>\<open>realloc\<close> puts behind a block of
  the given length when it doubles it. The result is the returned number, the block if one is left to the
  caller, and the results that were not consumed.
\<close>

fun nl_recv_retry :: "(nat \<Rightarrow> u8 list) \<Rightarrow> bool \<Rightarrow> u8 list \<Rightarrow> recv_result list \<Rightarrow> int \<times> u8 list option \<times> recv_result list" where
  "nl_recv_retry grow flags buf [] = (0, None, [])"
| "nl_recv_retry grow flags buf (Recv_Error e # rs) =
     (if e = EINTR then nl_recv_retry grow flags buf rs
      else if e = EAGAIN then (0, None, rs)
      else (- nl_syserr2nlerr e, None, rs))"
| "nl_recv_retry grow flags buf (Recv_Data bs trunc ctrunc name # rs) =
     (if bs = [] then (0, None, rs)
      else let got = take (length buf) bs @ drop (length bs) buf
           in if length buf < length bs \<or> trunc then nl_recv_retry grow flags (got @ grow (length buf)) rs
              else if ctrunc then nl_recv_retry grow flags got rs
              else if flags then nl_recv_retry grow False got rs
              else if \<not> name then (- NLE_NOADDR, None, rs)
              else (int (length bs), Some got, rs))"

definition nl_recv ::
  "alloc \<Rightarrow> (nat \<Rightarrow> u8 list) \<Rightarrow> nat \<Rightarrow> bool \<Rightarrow> recv_result list \<Rightarrow> int \<times> u8 list option \<times> recv_result list" where
  "nl_recv mem grow page_size peek rs =
     (if \<not> mem page_size then (- NLE_NOMEM, None, rs)
      else nl_recv_retry grow peek (replicate page_size 0) rs)"

lemma nl_recv_retry_shorter: "nl_recv_retry grow flags buf rs = (n, r, rs') \<Longrightarrow> 0 < n \<Longrightarrow> length rs' < length rs"
proof (induction grow flags buf rs rule: nl_recv_retry.induct)
  case (2 grow flags buf e rs)
  then show ?case using nl_syserr2nlerr_positive [of e] by (fastforce split: if_splits)
next
  case (3 grow flags buf bs trunc ctrunc name rs)
  then show ?case by (auto simp: Let_def split: if_splits)
qed simp

lemma nl_recv_shorter: "nl_recv mem grow page_size peek rs = (n, r, rs') \<Longrightarrow> 0 < n \<Longrightarrow> length rs' < length rs"
  by (auto simp: nl_recv_def nl_recv_retry_shorter split: if_splits)

lemma nl_recv_retry_block:
  "nl_recv_retry grow flags buf rs = (n, r, rs') \<Longrightarrow> 0 < n \<Longrightarrow> \<exists>b. r = Some b \<and> nat n \<le> length b"
proof (induction grow flags buf rs rule: nl_recv_retry.induct)
  case (2 grow flags buf e rs)
  then show ?case using nl_syserr2nlerr_positive [of e] by (fastforce split: if_splits)
next
  case (3 grow flags buf bs trunc ctrunc name rs)
  then show ?case by (auto simp: Let_def split: if_splits)
qed simp

section \<open>The receive loop\<close>

abbreviation (input) NL_OK :: int where "NL_OK \<equiv> 0"
abbreviation (input) NL_SKIP :: int where "NL_SKIP \<equiv> 1"
abbreviation (input) NL_STOP :: int where "NL_STOP \<equiv> 2"

abbreviation (input) NLMSG_NOOP :: u16 where "NLMSG_NOOP \<equiv> 1"
abbreviation (input) NLMSG_ERROR :: u16 where "NLMSG_ERROR \<equiv> 2"
abbreviation (input) NLMSG_DONE :: u16 where "NLMSG_DONE \<equiv> 3"
abbreviation (input) NLMSG_OVERRUN :: u16 where "NLMSG_OVERRUN \<equiv> 4"

abbreviation (input) NLM_F_MULTI :: u16 where "NLM_F_MULTI \<equiv> 2"
abbreviation (input) NLM_F_ACK :: u16 where "NLM_F_ACK \<equiv> 4"

text \<open>Where control goes after a step: on, or to one of the labels \<^verbatim>\<open>skip\<close>, \<^verbatim>\<open>stop\<close> and \<^verbatim>\<open>out\<close> (with \<^verbatim>\<open>err\<close>).\<close>

datatype flow = Proceed | Skip | Stop | Out int

definition flow_of :: "int \<Rightarrow> flow" where
  "flow_of err = (if err = NL_OK then Proceed else if err = NL_SKIP then Skip else if err = NL_STOP then Stop else Out err)"

text \<open>\<open>messages\<close> counts the messages copied, so that each allocation has its own outcome.\<close>

record 's recv_state =
  seq_expect :: u32
  multipart :: bool
  messages :: nat
  user :: 's

type_synonym 's recv_action = "'s recv_state \<Rightarrow> (flow \<times> 's recv_state) outcome"

definition then_do :: "'s recv_action \<Rightarrow> 's recv_action \<Rightarrow> 's recv_action" where
  "then_do a b st = bind_outcome (a st) (\<lambda>(fl, st). if fl = Proceed then b st else Ok (fl, st))"

text \<open>\<^verbatim>\<open>NL_CB_CALL\<close> if the callback is set, else \<open>otherwise\<close>.\<close>

definition nl_cb_call ::
  "('f \<Rightarrow> u8 list \<Rightarrow> 's \<Rightarrow> (int \<times> 's) outcome) \<Rightarrow> 'f nl_cb \<Rightarrow> nl_cb_type \<Rightarrow> u8 list \<Rightarrow> flow \<Rightarrow> 's recv_action" where
  "nl_cb_call call cb type msg otherwise st =
     (case cb_set cb type of
        None \<Rightarrow> Ok (otherwise, st)
      | Some f \<Rightarrow> bind_outcome (call f msg (user st)) (\<lambda>(err, u). Ok (flow_of err, st\<lparr>user := u\<rparr>)))"

definition check_seq ::
  "('f \<Rightarrow> u8 list \<Rightarrow> 's \<Rightarrow> (int \<times> 's) outcome) \<Rightarrow> 'f nl_cb \<Rightarrow> u8 list \<Rightarrow> u32 \<Rightarrow> 's recv_action" where
  "check_seq call cb msg seq st =
     (if cb_set cb NL_CB_SEQ_CHECK \<noteq> None then nl_cb_call call cb NL_CB_SEQ_CHECK msg Proceed st
      else if seq \<noteq> seq_expect st then nl_cb_call call cb NL_CB_INVALID msg (Out (- NLE_SEQ_MISMATCH)) st
      else Ok (Proceed, st))"

definition note_header :: "u16 \<Rightarrow> u16 \<Rightarrow> 's recv_action" where
  "note_header type flags st =
     Ok (Proceed, st\<lparr>seq_expect := if type \<in> {NLMSG_DONE, NLMSG_ERROR, NLMSG_NOOP, NLMSG_OVERRUN} then seq_expect st + 1 else seq_expect st,
                     multipart := multipart st \<or> and flags NLM_F_MULTI \<noteq> 0\<rparr>)"

definition error_message ::
  "('f \<Rightarrow> u8 list \<Rightarrow> 's \<Rightarrow> (int \<times> 's) outcome) \<Rightarrow> ('f \<Rightarrow> int \<Rightarrow> 's \<Rightarrow> (int \<times> 's) outcome) \<Rightarrow> 'f nl_cb \<Rightarrow>
   u8 list \<Rightarrow> nat \<Rightarrow> nat \<Rightarrow> u8 list \<Rightarrow> 's recv_action" where
  "error_message call call_err cb m hdr len msg st =
     (if len < nlmsg_msg_size 20 then nl_cb_call call cb NL_CB_INVALID msg (Out (- NLE_MSG_TRUNC)) st
      else bind_outcome (read_le 4 m (nlmsg_data hdr)) (\<lambda>e.
        let error = to_int (int e)
        in if error \<noteq> 0 then
             case cb_err cb of
               None \<Rightarrow> Ok (Out (- nl_syserr2nlerr error), st)
             | Some f \<Rightarrow> bind_outcome (call_err f error (user st)) (\<lambda>(err, u).
                 Ok (if err < 0 then Out err
                     else if err = NL_SKIP then Skip
                     else if err = NL_STOP then Out (- nl_syserr2nlerr error)
                     else Proceed, st\<lparr>user := u\<rparr>))
           else nl_cb_call call cb NL_CB_ACK msg Proceed st))"

definition by_type ::
  "('f \<Rightarrow> u8 list \<Rightarrow> 's \<Rightarrow> (int \<times> 's) outcome) \<Rightarrow> ('f \<Rightarrow> int \<Rightarrow> 's \<Rightarrow> (int \<times> 's) outcome) \<Rightarrow> 'f nl_cb \<Rightarrow>
   u8 list \<Rightarrow> nat \<Rightarrow> nat \<Rightarrow> u16 \<Rightarrow> u8 list \<Rightarrow> 's recv_action" where
  "by_type call call_err cb m hdr len type msg st =
     (if type = NLMSG_DONE then nl_cb_call call cb NL_CB_FINISH msg Proceed (st\<lparr>multipart := False\<rparr>)
      else if type = NLMSG_NOOP then nl_cb_call call cb NL_CB_SKIPPED msg Skip st
      else if type = NLMSG_OVERRUN then nl_cb_call call cb NL_CB_OVERRUN msg (Out (- NLE_MSG_OVERFLOW)) st
      else if type = NLMSG_ERROR then error_message call call_err cb m hdr len msg st
      else nl_cb_call call cb NL_CB_VALID msg Proceed st)"

text \<open>One round of the loop up to the label \<^verbatim>\<open>skip\<close>.\<close>

definition recv_one ::
  "('f \<Rightarrow> u8 list \<Rightarrow> 's \<Rightarrow> (int \<times> 's) outcome) \<Rightarrow> ('f \<Rightarrow> int \<Rightarrow> 's \<Rightarrow> (int \<times> 's) outcome) \<Rightarrow> (nat \<Rightarrow> alloc) \<Rightarrow> (nat \<Rightarrow> u8 list) \<Rightarrow>
   'f nl_cb \<Rightarrow> u8 list \<Rightarrow> nat \<Rightarrow> 's recv_action" where
  "recv_one call call_err mem junk cb m hdr st =
     bind_outcome (nlmsg_convert (mem (messages st)) junk m hdr) (\<lambda>r.
       case r of
         None \<Rightarrow> Ok (Out (- NLE_NOMEM), st)
       | Some nm \<Rightarrow>
           bind_outcome (nlh_len m hdr) (\<lambda>len. bind_outcome (nlh_type m hdr) (\<lambda>type.
           bind_outcome (nlh_flags m hdr) (\<lambda>flags. bind_outcome (nlh_seq m hdr) (\<lambda>seq.
             let msg = nm_nlh nm
             in then_do (nl_cb_call call cb NL_CB_MSG_IN msg Proceed)
               (then_do (check_seq call cb msg seq)
               (then_do (note_header type flags)
               (then_do (if and flags NLM_F_ACK \<noteq> 0 then nl_cb_call call cb NL_CB_SEND_ACK msg Proceed else (\<lambda>st. Ok (Proceed, st)))
                 (by_type call call_err cb m hdr len type msg)))) (st\<lparr>messages := messages st + 1\<rparr>))))))"

text \<open>The loop over the messages of a datagram; \<open>n\<close> bytes remain at \<open>hdr\<close>. A pointer before the block is undefined.\<close>

partial_function (option) recv_loop ::
  "('f \<Rightarrow> u8 list \<Rightarrow> 's \<Rightarrow> (int \<times> 's) outcome) \<Rightarrow> ('f \<Rightarrow> int \<Rightarrow> 's \<Rightarrow> (int \<times> 's) outcome) \<Rightarrow> (nat \<Rightarrow> alloc) \<Rightarrow> (nat \<Rightarrow> u8 list) \<Rightarrow>
   'f nl_cb \<Rightarrow> u8 list \<Rightarrow> nat \<Rightarrow> int \<Rightarrow> 's recv_state \<Rightarrow> (flow \<times> 's recv_state) outcome option" where
  "recv_loop call call_err mem junk cb m hdr n st =
     (case nlmsg_ok m hdr n of
        Ok ok \<Rightarrow>
          if \<not> ok then Some (Ok (Proceed, st))
          else (case recv_one call call_err mem junk cb m hdr st of
            Ok (fl, st') \<Rightarrow>
              if fl = Proceed \<or> fl = Skip then
                (case nlmsg_next m hdr n of
                   Ok (hdr', n') \<Rightarrow> if hdr' < 0 then Some UB else recv_loop call call_err mem junk cb m (nat hdr') n' st'
                 | Fail \<Rightarrow> Some Fail | UB \<Rightarrow> Some UB)
              else Some (Ok (fl, st'))
          | Fail \<Rightarrow> Some Fail | UB \<Rightarrow> Some UB)
      | Fail \<Rightarrow> Some Fail | UB \<Rightarrow> Some UB)"

partial_function (option) recvmsgs ::
  "('f \<Rightarrow> u8 list \<Rightarrow> 's \<Rightarrow> (int \<times> 's) outcome) \<Rightarrow> ('f \<Rightarrow> int \<Rightarrow> 's \<Rightarrow> (int \<times> 's) outcome) \<Rightarrow> (nat \<Rightarrow> alloc) \<Rightarrow> (nat \<Rightarrow> u8 list) \<Rightarrow>
   (nat \<Rightarrow> u8 list) \<Rightarrow> nat \<Rightarrow> bool \<Rightarrow> 'f nl_cb \<Rightarrow> recv_result list \<Rightarrow> 's recv_state \<Rightarrow> (int \<times> 's recv_state \<times> recv_result list) outcome option" where
  "recvmsgs call call_err mem junk grow page_size peek cb rs st =
     (case nl_recv (mem (messages st)) grow page_size peek rs of
        (n, r, rs') \<Rightarrow>
          if n \<le> 0 then Some (Ok (n, st, rs'))
          else (case r of
            None \<Rightarrow> Some Fail
          | Some buf \<Rightarrow>
              (case recv_loop call call_err mem junk cb buf 0 n st of
                 None \<Rightarrow> None
               | Some res \<Rightarrow>
                   (case res of
                      Ok (fl, st') \<Rightarrow>
                        (case fl of
                           Stop \<Rightarrow> Some (Ok (0, st', rs'))
                         | Out err \<Rightarrow> Some (Ok (err, st', rs'))
                         | _ \<Rightarrow> if multipart st' then recvmsgs call call_err mem junk grow page_size peek cb rs' st'
                                else Some (Ok (0, st', rs')))
                    | Fail \<Rightarrow> Some Fail | UB \<Rightarrow> Some UB))))"

text \<open>The expected sequence number is a field of the socket, \<^verbatim>\<open>multipart\<close> a local variable.\<close>

definition nl_recvmsgs ::
  "('f \<Rightarrow> u8 list \<Rightarrow> 's \<Rightarrow> (int \<times> 's) outcome) \<Rightarrow> ('f \<Rightarrow> int \<Rightarrow> 's \<Rightarrow> (int \<times> 's) outcome) \<Rightarrow> (nat \<Rightarrow> alloc) \<Rightarrow> (nat \<Rightarrow> u8 list) \<Rightarrow>
   (nat \<Rightarrow> u8 list) \<Rightarrow> nat \<Rightarrow> 'g nl_sock \<Rightarrow> 'f nl_cb \<Rightarrow> recv_result list \<Rightarrow> 's \<Rightarrow>
   (int \<times> 'g nl_sock \<times> 's \<times> recv_result list) outcome option" where
  "nl_recvmsgs call call_err mem junk grow page_size sk cb rs u =
     map_option (\<lambda>r. bind_outcome r (\<lambda>(err, st, rs'). Ok (err, sk\<lparr>s_seq_expect := seq_expect st\<rparr>, user st, rs')))
       (recvmsgs call call_err mem junk grow page_size (s_peek sk) cb rs
          \<lparr>seq_expect = s_seq_expect sk, multipart = False, messages = 0, user = u\<rparr>)"

section \<open>The receive loop returns\<close>

lemma nlmsg_convert_inside:
  assumes "nlmsg_convert mem junk m hdr = Ok (Some nm)"
  shows "\<exists>l. nlh_len m hdr = Ok l \<and> hdr + l \<le> length m"
  using assms by (auto simp: nlmsg_convert_def bind_outcome_Ok_iff read_bytes_def split: option.splits if_splits)

lemma recv_one_inside:
  assumes "recv_one call call_err mem junk cb m hdr st = Ok (fl, st')" "fl = Proceed \<or> fl = Skip"
  shows "\<exists>l. nlh_len m hdr = Ok l \<and> hdr + l \<le> length m"
proof -
  obtain r where r: "nlmsg_convert (mem (messages st)) junk m hdr = Ok r"
    using assms(1) by (auto simp: recv_one_def bind_outcome_Ok_iff)
  moreover have "r \<noteq> None"
  proof
    assume "r = None"
    then show False using assms r by (auto simp: recv_one_def)
  qed
  ultimately show ?thesis using nlmsg_convert_inside by blast
qed

text \<open>The next header is behind this one, or before the block.\<close>

lemma nlmsg_next_later:
  assumes "nlh_len m hdr = Ok l" "hdr + l \<le> length m" "length m < 2 ^ 31" "16 \<le> l" "nlmsg_next m hdr n = Ok (hdr', n')" "0 \<le> hdr'"
  shows "hdr < nat hdr'" "hdr < length m"
proof -
  have eq: "hdr' = int hdr + to_int (int (NLMSG_ALIGN l))" using assms(1,5) by (simp add: nlmsg_next_def Let_def)
  have al: "NLMSG_ALIGN l = NLA_ALIGN l" by (rule NLMSG_ALIGN_eq) (use assms(2,3) in simp)
  have "l \<le> NLA_ALIGN l" "NLA_ALIGN l \<le> l + 3" by (simp_all add: NLA_ALIGN_def)
  then have b: "l \<le> NLMSG_ALIGN l" "int (NLMSG_ALIGN l) \<le> int l + 3" using al by simp_all
  show "hdr < length m" using assms(2,4) by simp
  have "int (NLMSG_ALIGN l) < 2 ^ 31"
  proof (rule ccontr)
    assume "\<not> int (NLMSG_ALIGN l) < 2 ^ 31"
    then have "to_int (int (NLMSG_ALIGN l)) = int (NLMSG_ALIGN l) - 2 ^ 32"
      using b(2) assms(2,3) by (simp add: to_int_def Let_def)
    then show False using eq assms(2,3,6) b(2) by simp
  qed
  then have "to_int (int (NLMSG_ALIGN l)) = int (NLMSG_ALIGN l)" by (simp add: to_int_small)
  then show "hdr < nat hdr'" using eq b(1) assms(4) by simp
qed

lemma recv_loop_returns:
  assumes "length m < 2 ^ 31"
  shows "\<exists>r. recv_loop call call_err mem junk cb m hdr n st = Some r"
proof (induction "length m - hdr" arbitrary: hdr n st rule: less_induct)
  case less
  note step = recv_loop.simps [of call call_err mem junk cb m hdr n st]
  show ?case
  proof (cases "nlmsg_ok m hdr n")
    case (Ok ok)
    show ?thesis
    proof (cases "ok \<and> (\<exists>fl st'. recv_one call call_err mem junk cb m hdr st = Ok (fl, st') \<and> (fl = Proceed \<or> fl = Skip))")
      case True
      then obtain fl st' where one: "recv_one call call_err mem junk cb m hdr st = Ok (fl, st')" "fl = Proceed \<or> fl = Skip" by blast
      obtain l where l: "nlh_len m hdr = Ok l" "hdr + l \<le> length m" using recv_one_inside [OF one] by blast
      have "16 \<le> l" using Ok True l(1) by (simp add: nlmsg_ok_def Let_def split: if_splits)
      obtain hdr' n' where next': "nlmsg_next m hdr n = Ok (hdr', n')" using l(1) by (simp add: nlmsg_next_def Let_def)
      show ?thesis
      proof (cases "hdr' < 0")
        case False
        have "length m - nat hdr' < length m - hdr"
          using nlmsg_next_later [OF l assms \<open>16 \<le> l\<close> next'] False by simp
        from less [OF this] obtain r where "recv_loop call call_err mem junk cb m (nat hdr') n' st' = Some r" by blast
        then show ?thesis using step Ok True one next' False by simp
      qed (use step Ok True one next' in simp)
    next
      case False
      then show ?thesis using step Ok by (cases "recv_one call call_err mem junk cb m hdr st") (auto split: prod.splits)
    qed
  qed (use step in simp_all)
qed

lemma nl_recv_retry_bound:
  assumes "\<And>k. length (grow k) = k" "nl_recv_retry grow flags buf rs = (n, Some b, rs')"
  shows "length b \<le> length buf * 2 ^ length rs"
  using assms
proof (induction grow flags buf rs rule: nl_recv_retry.induct)
  case (2 grow flags buf e rs)
  have "length buf * 2 ^ length rs \<le> length buf * 2 ^ length (Recv_Error e # rs)" by simp
  moreover have "length b \<le> length buf * 2 ^ length rs" using 2 by (simp split: if_splits)
  ultimately show ?case by linarith
next
  case (3 grow flags buf bs trunc ctrunc name rs)
  let ?got = "take (length buf) bs @ drop (length bs) buf"
  have got: "length ?got = length buf" by simp
  have ge: "length buf * 2 ^ length rs \<le> length buf * 2 ^ length (Recv_Data bs trunc ctrunc name # rs)"
    "length buf \<le> length buf * 2 ^ length rs" by simp_all
  consider (trunc) "nl_recv_retry grow flags (?got @ grow (length buf)) rs = (n, Some b, rs')" "bs \<noteq> []" "length buf < length bs \<or> trunc"
    | (ctrunc) "nl_recv_retry grow flags ?got rs = (n, Some b, rs')" "bs \<noteq> []" "\<not> (length buf < length bs \<or> trunc)" "ctrunc"
    | (peek) "nl_recv_retry grow False ?got rs = (n, Some b, rs')" "bs \<noteq> []" "\<not> (length buf < length bs \<or> trunc)" "\<not> ctrunc" "flags"
    | (result) "b = ?got"
    using "3.prems"(2) by (auto simp: Let_def split: if_splits)
  then show ?case
  proof cases
    case trunc
    then have "length b \<le> length (?got @ grow (length buf)) * 2 ^ length rs" using "3.IH"(1) "3.prems"(1) by blast
    moreover have "length (?got @ grow (length buf)) = length buf * 2" using got "3.prems"(1) by (simp only: length_append mult_2_right)
    ultimately show ?thesis by (simp only: mult.assoc length_Cons power_Suc)
  next
    case ctrunc
    then have "length b \<le> length ?got * 2 ^ length rs" using "3.IH"(2) "3.prems"(1) by blast
    then show ?thesis unfolding got using ge by linarith
  next
    case peek
    then have "length b \<le> length ?got * 2 ^ length rs" using "3.IH"(3) "3.prems"(1) by blast
    then show ?thesis unfolding got using ge by linarith
  next
    case result
    then have "length b = length buf" using got by simp
    then show ?thesis using ge by linarith
  qed
qed simp

lemma recvmsgs_returns:
  assumes "\<And>k. length (grow k) = k" "page_size * 2 ^ length rs < 2 ^ 31"
  shows "\<exists>r. recvmsgs call call_err mem junk grow page_size peek cb rs st = Some r"
  using assms(2)
proof (induction rs arbitrary: st rule: length_induct)
  case (1 rs)
  obtain n r rs' where rv: "nl_recv (mem (messages st)) grow page_size peek rs = (n, r, rs')" by (metis prod_cases3)
  note step = recvmsgs.simps [of call call_err mem junk grow page_size peek cb rs st]
  show ?case
  proof (cases "n \<le> 0 \<or> r = None")
    case False
    then obtain buf where buf: "r = Some buf" "0 < n" by auto
    have "nl_recv_retry grow peek (replicate page_size 0) rs = (n, Some buf, rs')"
      using rv buf by (simp add: nl_recv_def split: if_splits)
    from nl_recv_retry_bound [OF assms(1) this] have "length buf < 2 ^ 31" using "1.prems" by simp
    then obtain res where res: "recv_loop call call_err mem junk cb buf 0 n st = Some res" using recv_loop_returns by blast
    have len: "length rs' < length rs" by (rule nl_recv_shorter [OF rv buf(2)])
    then have "2 ^ length rs' \<le> (2 :: nat) ^ length rs" by (simp add: power_increasing)
    then have "page_size * 2 ^ length rs' \<le> page_size * 2 ^ length rs" by (rule mult_le_mono2)
    then have "page_size * 2 ^ length rs' < 2 ^ 31" using "1.prems" by linarith
    then have again: "\<exists>r. recvmsgs call call_err mem junk grow page_size peek cb rs' st' = Some r" for st'
      using "1.IH" len by blast
    show ?thesis using step rv buf res again by (auto split: outcome.splits flow.splits)
  qed (use step rv in auto)
qed



section \<open>Delivery\<close>

text \<open>A message as it stands in a datagram: aligned, with its own length in front.\<close>

definition frame :: "u8 list \<Rightarrow> bool" where
  "frame f \<longleftrightarrow> 16 \<le> length f \<and> 4 dvd length f \<and> length f < 2 ^ 31 \<and> le_val (take 4 f) = length f"

definition frame_type :: "u8 list \<Rightarrow> u16" where "frame_type f = of_nat (le_val (take 2 (drop 4 f)))"
definition frame_flags :: "u8 list \<Rightarrow> u16" where "frame_flags f = of_nat (le_val (take 2 (drop 6 f)))"
definition frame_seq :: "u8 list \<Rightarrow> u32" where "frame_seq f = of_nat (le_val (take 4 (drop 8 f)))"

lemma read_le_frame:
  assumes "m = pre @ f @ post" "i + k \<le> length f"
  shows "read_le k m (length pre + i) = Ok (le_val (take k (drop i f)))"
  using assms by (simp add: read_le_def read_bytes_def)

lemma frame_fields:
  assumes "frame f" "m = pre @ f @ post" "hdr = length pre"
  shows "nlh_len m hdr = Ok (length f)" "nlh_type m hdr = Ok (frame_type f)" "nlh_flags m hdr = Ok (frame_flags f)"
    "nlh_seq m hdr = Ok (frame_seq f)"
  using read_le_frame [OF assms(2), of 0 4] read_le_frame [OF assms(2), of 4 2] read_le_frame [OF assms(2), of 6 2]
    read_le_frame [OF assms(2), of 8 4] assms(1)
  by (simp_all add: frame_def nlh_len_def nlh_type_def nlh_flags_def nlh_seq_def frame_type_def frame_flags_def frame_seq_def assms(3))

lemma frame_align: "frame f \<Longrightarrow> NLMSG_ALIGN (length f) = length f"
  using NLMSG_ALIGN_eq [of "length f"] NLA_ALIGN_id [of "length f"] by (simp add: frame_def)

text \<open>The copy handed to the callbacks is the message.\<close>

lemma nlmsg_convert_frame:
  assumes "frame f" "m = pre @ f @ post" "hdr = length pre" "\<And>k. length (junk k) = k" "\<And>k. mem k"
  shows "\<exists>nm. nlmsg_convert mem junk m hdr = Ok (Some nm) \<and> nm_nlh nm = f"
proof -
  let ?l = "length f"
  have l16: "16 \<le> ?l" using assms(1) by (simp add: frame_def)
  have bytes: "read_bytes m hdr ?l = Ok f" by (simp add: read_bytes_def assms(2,3))
  obtain b where b: "nlmsg_alloc_len mem junk ?l = Ok (Some b)" "length (nm_nlh b) = ?l"
    using l16 assms(4,5) by (simp add: nlmsg_alloc_len_def write_bytes_def)
  then have "write_bytes (nm_nlh b) 0 f = Ok f" by (simp add: write_bytes_def)
  then have "nlmsg_convert mem junk m hdr = Ok (Some (b\<lparr>nm_nlh := f\<rparr>))"
    using frame_fields(1) [OF assms(1-3)] frame_align [OF assms(1)] b bytes by (simp add: nlmsg_convert_def)
  then show ?thesis by simp
qed

lemma frame_ok:
  assumes "frame f" "m = pre @ f @ post" "hdr = length pre" "n = int (length f) + rest" "0 \<le> rest" "n < 2 ^ 31"
  shows "nlmsg_ok m hdr n = Ok True" "nlmsg_next m hdr n = Ok (int (length (pre @ f)), rest)"
proof -
  have "to_size_t n = nat n" using assms(4-6) by (simp add: to_size_t_def)
  then show "nlmsg_ok m hdr n = Ok True"
    using frame_fields(1) [OF assms(1-3)] assms(1,4,5) by (simp add: nlmsg_ok_def Let_def frame_def nat_add_distrib)
  have "to_int (int (length f)) = int (length f)" using assms(1) by (intro to_int_small) (auto simp: frame_def)
  then show "nlmsg_next m hdr n = Ok (int (length (pre @ f)), rest)"
    using frame_fields(1) [OF assms(1-3)] frame_align [OF assms(1)] assms(3,4) by (simp add: nlmsg_next_def Let_def)
qed

definition data_frame :: "u8 list \<Rightarrow> bool" where
  "data_frame f \<longleftrightarrow> frame f \<and> frame_type f \<notin> {NLMSG_NOOP, NLMSG_ERROR, NLMSG_DONE, NLMSG_OVERRUN}"

text \<open>A handler for valid messages, with the sequence check switched off.\<close>

definition event_callbacks :: "('f \<Rightarrow> u8 list \<Rightarrow> 's \<Rightarrow> (int \<times> 's) outcome) \<Rightarrow> 'f nl_cb \<Rightarrow> 'f \<Rightarrow> bool" where
  "event_callbacks call cb h \<longleftrightarrow> cb_set cb NL_CB_MSG_IN = None \<and> cb_set cb NL_CB_SEND_ACK = None \<and> cb_set cb NL_CB_VALID = Some h \<and>
     (\<exists>s. cb_set cb NL_CB_SEQ_CHECK = Some s \<and> (\<forall>msg u. call s msg u = Ok (NL_OK, u)))"

definition after_frame :: "u8 list \<Rightarrow> 's \<Rightarrow> 's recv_state \<Rightarrow> 's recv_state" where
  "after_frame f u st = st\<lparr>messages := messages st + 1, multipart := multipart st \<or> and (frame_flags f) NLM_F_MULTI \<noteq> 0, user := u\<rparr>"

fun deliver :: "(u8 list \<Rightarrow> 's \<Rightarrow> (int \<times> 's) outcome) \<Rightarrow> u8 list list \<Rightarrow> 's recv_action" where
  "deliver handler [] st = Ok (Proceed, st)"
| "deliver handler (f # fs) st =
     bind_outcome (handler f (user st)) (\<lambda>(err, u).
       if flow_of err = Proceed \<or> flow_of err = Skip then deliver handler fs (after_frame f u st)
       else Ok (flow_of err, after_frame f u st))"

lemma recv_one_frame:
  assumes "event_callbacks call cb h" "data_frame f" "m = pre @ f @ post" "hdr = length pre"
    and "\<And>k. length (junk k) = k" "\<And>i k. mem i k"
  shows "recv_one call call_err mem junk cb m hdr st =
    bind_outcome (call h f (user st)) (\<lambda>(err, u). Ok (flow_of err, after_frame f u st))"
proof -
  have f: "frame f" using assms(2) by (simp add: data_frame_def)
  obtain nm where nm: "nlmsg_convert (mem (messages st)) junk m hdr = Ok (Some nm)" "nm_nlh nm = f"
    using nlmsg_convert_frame [OF f assms(3,4,5), of "mem (messages st)"] assms(6) by blast
  obtain s where s: "cb_set cb NL_CB_SEQ_CHECK = Some s" "\<And>msg u. call s msg u = Ok (0, u)"
    using assms(1) by (auto simp: event_callbacks_def)
  have cbs: "cb_set cb NL_CB_MSG_IN = None" "cb_set cb NL_CB_SEND_ACK = None" "cb_set cb NL_CB_VALID = Some h"
    using assms(1) by (simp_all add: event_callbacks_def)
  have t: "frame_type f \<noteq> 1" "frame_type f \<noteq> 2" "frame_type f \<noteq> 3" "frame_type f \<noteq> 4" using assms(2) by (simp_all add: data_frame_def)
  show ?thesis
    using frame_fields [OF f assms(3,4)] nm s cbs t
    by (simp add: recv_one_def then_do_def nl_cb_call_def check_seq_def note_header_def by_type_def flow_of_def after_frame_def)
qed

lemma recv_loop_frames:
  assumes "event_callbacks call cb h" "\<And>k. length (junk k) = k" "\<And>i k. mem i k"
    and "\<forall>f \<in> set fs. data_frame f" "m = pre @ concat fs @ post" "length (concat fs) < 2 ^ 31"
  shows "recv_loop call call_err mem junk cb m (length pre) (int (length (concat fs))) st = Some (deliver (call h) fs st)"
  using assms(4-6)
proof (induction fs arbitrary: pre st)
  case Nil
  then show ?case by (simp add: recv_loop.simps nlmsg_ok_def to_size_t_def)
next
  case (Cons f fs)
  let ?n = "int (length (concat (f # fs)))" and ?rest = "int (length (concat fs))"
  have m: "m = pre @ f @ (concat fs @ post)" using Cons.prems(2) by simp
  have df: "data_frame f" using Cons.prems(1) by simp
  then have f: "frame f" by (simp add: data_frame_def)
  have ok: "nlmsg_ok m (length pre) ?n = Ok True" "nlmsg_next m (length pre) ?n = Ok (int (length (pre @ f)), ?rest)"
    using frame_ok [OF f m refl, of ?n ?rest] Cons.prems(3) by simp_all
  have IH: "recv_loop call call_err mem junk cb m (length (pre @ f)) ?rest st' = Some (deliver (call h) fs st')" for st'
    by (rule Cons.IH) (use Cons.prems in simp_all)
  have one: "recv_one call call_err mem junk cb m (length pre) st =
      bind_outcome (call h f (user st)) (\<lambda>(err, u). Ok (flow_of err, after_frame f u st))"
    by (rule recv_one_frame [OF assms(1) df m refl assms(2,3)])
  note step = recv_loop.simps [of call call_err mem junk cb m "length pre" ?n st]
  show ?case
  proof (cases "call h f (user st)")
    case (Ok r)
    obtain err u where r: "r = (err, u)" by (cases r)
    show ?thesis
    proof (cases "flow_of err = Proceed \<or> flow_of err = Skip")
      case True
      then have "recv_loop call call_err mem junk cb m (length pre) ?n st =
          recv_loop call call_err mem junk cb m (length (pre @ f)) ?rest (after_frame f u st)"
        using step ok one Ok r by (simp del: length_append concat.simps)
      then show ?thesis using IH True Ok r by simp
    next
      case False
      then show ?thesis using step ok one Ok r by (simp del: length_append concat.simps)
    qed
  qed (use step ok one in \<open>simp_all del: length_append concat.simps\<close>)
qed

lemma nl_recv_datagram:
  assumes "mem page_size" "bs \<noteq> []" "length bs \<le> page_size"
  shows "nl_recv mem grow page_size False (Recv_Data bs False False True # rs) =
    (int (length bs), Some (bs @ replicate (page_size - length bs) 0), rs)"
  using assms by (simp add: nl_recv_def Let_def)

lemma concat_frames_nonempty: "fs \<noteq> [] \<Longrightarrow> \<forall>f \<in> set fs. frame f \<Longrightarrow> concat fs \<noteq> []"
  by (cases fs) (auto simp: frame_def)

lemma recvmsgs_step:
  assumes "nl_recv (mem (messages st)) grow page_size peek rs = (n, Some buf, rs')" "0 < n"
    and "recv_loop call call_err mem junk cb buf 0 n st = Some res"
  shows "recvmsgs call call_err mem junk grow page_size peek cb rs st =
    (case res of
       Ok (Stop, st') \<Rightarrow> Some (Ok (0, st', rs'))
     | Ok (Out err, st') \<Rightarrow> Some (Ok (err, st', rs'))
     | Ok (_, st') \<Rightarrow> if multipart st' then recvmsgs call call_err mem junk grow page_size peek cb rs' st' else Some (Ok (0, st', rs'))
     | Fail \<Rightarrow> Some Fail | UB \<Rightarrow> Some UB)"
  using recvmsgs.simps [of call call_err mem junk grow page_size peek cb rs st] assms by (simp split: outcome.split prod.split flow.split)

text \<open>The messages of a datagram that is followed by no other are delivered in order.\<close>

lemma recvmsgs_datagram:
  assumes "event_callbacks call cb h" "\<And>k. length (junk k) = k" "\<And>i k. mem i k"
    and "fs \<noteq> []" "\<forall>f \<in> set fs. data_frame f" "length (concat fs) \<le> page_size" "page_size < 2 ^ 31"
  shows "recvmsgs call call_err mem junk grow page_size False cb [Recv_Data (concat fs) False False True] st =
    Some (bind_outcome (deliver (call h) fs st) (\<lambda>(fl, st'). Ok (case fl of Out err \<Rightarrow> err | _ \<Rightarrow> 0, st', [])))"
proof -
  let ?bs = "concat fs"
  have ne: "?bs \<noteq> []" using concat_frames_nonempty assms(4,5) by (auto simp: data_frame_def)
  have rv: "nl_recv (mem (messages st)) grow page_size False [Recv_Data ?bs False False True] =
      (int (length ?bs), Some (?bs @ replicate (page_size - length ?bs) 0), [])"
    using assms(3,6) ne by (intro nl_recv_datagram) auto
  have loop: "recv_loop call call_err mem junk cb (?bs @ replicate (page_size - length ?bs) 0) 0 (int (length ?bs)) st =
      Some (deliver (call h) fs st)"
    using recv_loop_frames [OF assms(1-3,5), of "?bs @ replicate (page_size - length ?bs) 0" "[]" "replicate (page_size - length ?bs) 0"] assms(6,7)
    by simp
  have empty: "recvmsgs call call_err mem junk grow page_size False cb [] st' = Some (Ok (0, st', []))" for st'
    using assms(3) by (simp add: recvmsgs.simps nl_recv_def)
  have pos: "0 < int (length ?bs)" using ne by (simp del: concat_eq_Nil_conv)
  show ?thesis
    unfolding recvmsgs_step [where junk = junk, OF rv pos loop]
    by (simp add: empty split: outcome.split prod.split flow.split)
qed

text \<open>Without a callback for the sequence check, a datagram that starts with an unexpected number is refused unread.\<close>

lemma recvmsgs_seq_mismatch:
  assumes "cb_set cb NL_CB_MSG_IN = None" "cb_set cb NL_CB_SEQ_CHECK = None" "cb_set cb NL_CB_INVALID = None"
    and "\<And>k. length (junk k) = k" "\<And>i k. mem i k"
    and "frame f" "length (f @ others) \<le> page_size" "page_size < 2 ^ 31" "frame_seq f \<noteq> seq_expect st"
  shows "recvmsgs call call_err mem junk grow page_size False cb (Recv_Data (f @ others) False False True # rs) st =
    Some (Ok (- NLE_SEQ_MISMATCH, st\<lparr>messages := messages st + 1\<rparr>, rs))"
proof -
  let ?bs = "f @ others" and ?m = "f @ others @ replicate (page_size - length (f @ others)) 0"
  have l16: "16 \<le> length f" using assms(6) by (simp add: frame_def)
  then have ne: "f \<noteq> []" by auto
  have rv: "nl_recv (mem (messages st)) grow page_size False (Recv_Data ?bs False False True # rs) = (int (length ?bs), Some ?m, rs)"
    using nl_recv_datagram [where bs = ?bs and rs = rs and grow = grow and mem = "mem (messages st)" and page_size = page_size,
      OF assms(5) _ assms(7)] ne by simp
  obtain nm where nm: "nlmsg_convert (mem (messages st)) junk ?m 0 = Ok (Some nm)"
    using nlmsg_convert_frame [where f = f and pre = "[]" and m = ?m and hdr = 0 and junk = junk and mem = "mem (messages st)",
      OF assms(6) _ _ assms(4) assms(5)] by auto
  have fields: "nlh_len ?m 0 = Ok (length f)" "nlh_type ?m 0 = Ok (frame_type f)" "nlh_flags ?m 0 = Ok (frame_flags f)"
    "nlh_seq ?m 0 = Ok (frame_seq f)"
    using frame_fields [OF assms(6), where pre = "[]" and m = ?m and hdr = 0 and post = "others @ replicate (page_size - length (f @ others)) 0"]
    by simp_all
  have one: "recv_one call call_err mem junk cb ?m 0 st = Ok (Out (- NLE_SEQ_MISMATCH), st\<lparr>messages := messages st + 1\<rparr>)"
    using nm fields assms(1-3,9) by (simp add: recv_one_def then_do_def nl_cb_call_def check_seq_def)
  have "nlmsg_ok ?m 0 (int (length ?bs)) = Ok True"
    using frame_ok(1) [OF assms(6), where pre = "[]" and m = ?m and hdr = 0 and post = "others @ replicate (page_size - length (f @ others)) 0"
      and rest = "int (length others)" and n = "int (length ?bs)"] assms(7,8) by simp
  then have "recv_loop call call_err mem junk cb ?m 0 (int (length ?bs)) st =
      Some (Ok (Out (- NLE_SEQ_MISMATCH), st\<lparr>messages := messages st + 1\<rparr>))"
    using one by (simp add: recv_loop.simps)
  from recvmsgs_step [where junk = junk, OF rv _ this] show ?thesis using l16 by simp
qed


end
