(* ===== verification/Nl_Manager.thy ===== *)
theory Nl_Manager
  imports Nl_Decode Nl_Recv
begin

text \<open>
  The netlink manager, \<^verbatim>\<open>src/src/core/nlmon_netlink.c\<close>, and the message handlers it installs
  (\<^verbatim>\<open>nlmon_nl_route.c\<close>, \<^verbatim>\<open>nlmon_nl_genl.c\<close>, \<^verbatim>\<open>nlmon_nl_diag.c\<close>, \<^verbatim>\<open>nlmon_nl_netfilter.c\<close>), with the part of
  \<^verbatim>\<open>libnl/cache.c\<close> they call. System calls are arguments: what connecting, the socket options and the dump
  requests return. The value of \<^verbatim>\<open>errno\<close> after receiving is an argument too, since the manager reads it whether or not
  a system call failed. The events a handler passes to the callback are collected in order.
\<close>

section \<open>Caches\<close>

text \<open>
  \<^verbatim>\<open>co_msgtypes\<close> is a flexible array member: the list holds the elements its object really has, ended by a negative
  type if the owner wrote one. A parser returns its result and the number of objects it added.
\<close>

record nl_cache_ops =
  co_hdrsize :: nat
  co_msgtypes :: "int list"
  co_msg_parser :: "(u8 list \<Rightarrow> nat \<Rightarrow> (int \<times> nat) outcome) option"

record nl_cache =
  c_nitems :: nat
  c_ops :: nl_cache_ops

definition nl_cache_alloc :: "alloc \<Rightarrow> nl_cache_ops \<Rightarrow> nl_cache option" where
  "nl_cache_alloc mem ops = (if \<not> mem 1 then None else Some \<lparr>c_nitems = 0, c_ops = ops\<rparr>)"

definition nl_cache_clear :: "nl_cache \<Rightarrow> nl_cache" where
  "nl_cache_clear cache = cache\<lparr>c_nitems := 0\<rparr>"

definition nl_cache_nitems :: "nl_cache \<Rightarrow> nat" where
  "nl_cache_nitems cache = c_nitems cache"

text \<open>Reading behind the array and calling a null pointer are undefined.\<close>

fun cache_parse_types ::
  "(u8 list \<Rightarrow> nat \<Rightarrow> (int \<times> nat) outcome) option \<Rightarrow> u16 \<Rightarrow> u8 list \<Rightarrow> nat \<Rightarrow> nat \<Rightarrow> int list \<Rightarrow> (int \<times> nat) outcome" where
  "cache_parse_types parser type m nlh added [] = UB"
| "cache_parse_types parser type m nlh added (t # ts) =
     (if t < 0 then Ok (- NLE_MSGTYPE_NOSUPPORT, added)
      else if t = uint type then
        (case parser of
           None \<Rightarrow> UB
         | Some p \<Rightarrow> bind_outcome (p m nlh) (\<lambda>(err, k).
             if err \<noteq> - NLE_OPNOTSUPP then Ok (err, added + k) else cache_parse_types parser type m nlh (added + k) ts))
      else cache_parse_types parser type m nlh added ts)"

definition nl_cache_parse :: "nl_cache_ops \<Rightarrow> u8 list \<Rightarrow> nat \<Rightarrow> (int \<times> nat) outcome" where
  "nl_cache_parse ops m nlh =
     bind_outcome (nlmsg_valid_hdr m nlh (co_hdrsize ops)) (\<lambda>valid.
       if \<not> valid then Ok (- NLE_MSG_TOOSHORT, 0)
       else bind_outcome (nlh_type m nlh) (\<lambda>type. cache_parse_types (co_msg_parser ops) type m nlh 0 (co_msgtypes ops)))"

definition nl_cache_parse_and_add :: "nl_cache \<Rightarrow> u8 list \<Rightarrow> (int \<times> nl_cache) outcome" where
  "nl_cache_parse_and_add cache m =
     bind_outcome (nl_cache_parse (c_ops cache) m 0) (\<lambda>(err, k). Ok (err, cache\<lparr>c_nitems := c_nitems cache + k\<rparr>))"

text \<open>nlmon's three kinds of cache: neither message types nor a parser are given.\<close>

definition link_cache_ops :: nl_cache_ops where
  "link_cache_ops = \<lparr>co_hdrsize = 16, co_msgtypes = [], co_msg_parser = None\<rparr>"

definition addr_cache_ops :: nl_cache_ops where
  "addr_cache_ops = \<lparr>co_hdrsize = 8, co_msgtypes = [], co_msg_parser = None\<rparr>"

definition route_cache_ops :: nl_cache_ops where
  "route_cache_ops = \<lparr>co_hdrsize = 12, co_msgtypes = [], co_msg_parser = None\<rparr>"

section \<open>The manager\<close>

datatype nl_handler = route_msg_handler | genl_msg_handler | diag_msg_handler | nf_msg_handler

record nlmon_nl_manager =
  route_sock :: "nl_handler nl_sock option"
  genl_sock :: "nl_handler nl_sock option"
  diag_sock :: "nl_handler nl_sock option"
  nf_sock :: "nl_handler nl_sock option"
  route_cb :: "nl_handler cb_fn nl_cb option"
  genl_cb :: "nl_handler cb_fn nl_cb option"
  diag_cb :: "nl_handler cb_fn nl_cb option"
  nf_cb :: "nl_handler cb_fn nl_cb option"
  nl80211_id :: i32
  taskstats_id :: i32
  event_callback :: bool
  enable_route :: bool
  enable_genl :: bool
  enable_diag :: bool
  enable_netfilter :: bool
  link_cache :: "nl_cache option"
  addr_cache :: "nl_cache option"
  route_cache :: "nl_cache option"

definition nlmon_nl_manager_init :: "alloc \<Rightarrow> nlmon_nl_manager option" where
  "nlmon_nl_manager_init mem =
     (if \<not> mem 1 then None
      else Some \<lparr>route_sock = None, genl_sock = None, diag_sock = None, nf_sock = None,
        route_cb = None, genl_cb = None, diag_cb = None, nf_cb = None, nl80211_id = -1, taskstats_id = -1,
        event_callback = False, enable_route = False, enable_genl = False, enable_diag = False, enable_netfilter = False,
        link_cache = None, addr_cache = None, route_cache = None\<rparr>)"

definition nlmon_nl_set_callback :: "nlmon_nl_manager \<Rightarrow> bool \<Rightarrow> nlmon_nl_manager" where
  "nlmon_nl_set_callback mgr cb = mgr\<lparr>event_callback := cb\<rparr>"

subsection \<open>Keeping the caches\<close>

definition nlmon_nl_cache_update_link :: "nlmon_nl_manager \<Rightarrow> u8 list \<Rightarrow> (int \<times> nlmon_nl_manager) outcome" where
  "nlmon_nl_cache_update_link mgr m =
     (case link_cache mgr of
        None \<Rightarrow> Ok (0, mgr)
      | Some cache \<Rightarrow> bind_outcome (nlh_type m 0) (\<lambda>type.
          if type = 16 then bind_outcome (nl_cache_parse_and_add cache m) (\<lambda>(err, cache). Ok (err, mgr\<lparr>link_cache := Some cache\<rparr>))
          else Ok (0, mgr)))"

definition nlmon_nl_cache_update_addr :: "nlmon_nl_manager \<Rightarrow> u8 list \<Rightarrow> (int \<times> nlmon_nl_manager) outcome" where
  "nlmon_nl_cache_update_addr mgr m =
     (case addr_cache mgr of
        None \<Rightarrow> Ok (0, mgr)
      | Some cache \<Rightarrow> bind_outcome (nlh_type m 0) (\<lambda>type.
          if type = 20 then bind_outcome (nl_cache_parse_and_add cache m) (\<lambda>(err, cache). Ok (err, mgr\<lparr>addr_cache := Some cache\<rparr>))
          else Ok (0, mgr)))"

definition nlmon_nl_cache_update_route :: "nlmon_nl_manager \<Rightarrow> u8 list \<Rightarrow> (int \<times> nlmon_nl_manager) outcome" where
  "nlmon_nl_cache_update_route mgr m =
     (case route_cache mgr of
        None \<Rightarrow> Ok (0, mgr)
      | Some cache \<Rightarrow> bind_outcome (nlh_type m 0) (\<lambda>type.
          if type = 24 then bind_outcome (nl_cache_parse_and_add cache m) (\<lambda>(err, cache). Ok (err, mgr\<lparr>route_cache := Some cache\<rparr>))
          else Ok (0, mgr)))"

section \<open>Handlers\<close>

text \<open>\<open>time\<close>: the current time in seconds.\<close>

definition header_event :: "i32 \<Rightarrow> u64 \<Rightarrow> u8 list \<Rightarrow> nat \<Rightarrow> nlmon_event outcome" where
  "header_event protocol time m nlh =
     bind_outcome (nlh_type m nlh) (\<lambda>type. bind_outcome (nlh_flags m nlh) (\<lambda>flags.
     bind_outcome (nlh_seq m nlh) (\<lambda>seq. bind_outcome (nlh_pid m nlh) (\<lambda>pid.
       Ok (zero_event\<lparr>ev_timestamp := time,
             ev_netlink := zero_netlink\<lparr>nl_protocol := protocol, nl_msg_type := type, nl_msg_flags := flags,
               nl_seq := seq, nl_pid := pid\<rparr>\<rparr>)))))"

text \<open>The end of every handler: the event's type is stored, an event that was parsed goes to the callback.\<close>

definition forward :: "nlmon_nl_manager \<Rightarrow> u16 \<Rightarrow> (int \<times> nlmon_event) outcome \<Rightarrow> (int \<times> nlmon_event option) outcome" where
  "forward mgr type r =
     bind_outcome r (\<lambda>(ret, evt).
       if ret < 0 then Ok (NL_SKIP, None)
       else Ok (NL_OK, if event_callback mgr then Some (evt\<lparr>ev_event_type := ucast type\<rparr>) else None))"

definition nlmon_route_msg_handler ::
  "nl_env \<Rightarrow> alloc \<Rightarrow> u64 \<Rightarrow> nlmon_nl_manager \<Rightarrow> u8 list \<Rightarrow> (int \<times> nlmon_event option \<times> nlmon_nl_manager) outcome" where
  "nlmon_route_msg_handler env mem time mgr m =
     bind_outcome (header_event NETLINK_ROUTE (time * 1000000000) m 0) (\<lambda>evt.
       let type = nl_msg_type (ev_netlink evt);
           parsed = (\<lambda>mgr r. bind_outcome (forward mgr type r) (\<lambda>(ret, e). Ok (ret, e, mgr)))
       in if type \<in> {16, 17} then
            bind_outcome (nlmon_nl_cache_update_link mgr m) (\<lambda>(_, mgr). parsed mgr (nlmon_parse_link_msg env mem m 0 evt))
          else if type \<in> {20, 21} then
            bind_outcome (nlmon_nl_cache_update_addr mgr m) (\<lambda>(_, mgr). parsed mgr (nlmon_parse_addr_msg env mem m 0 evt))
          else if type \<in> {24, 25} then
            bind_outcome (nlmon_nl_cache_update_route mgr m) (\<lambda>(_, mgr). parsed mgr (nlmon_parse_route_msg env mem m 0 evt))
          else if type \<in> {28, 29} then parsed mgr (nlmon_parse_neigh_msg env mem m 0 evt)
          else if type = NLMSG_DONE \<or> type = NLMSG_ERROR then Ok (NL_STOP, None, mgr)
          else Ok (NL_SKIP, None, mgr))"

abbreviation (input) SOCK_DIAG_BY_FAMILY :: u16 where "SOCK_DIAG_BY_FAMILY \<equiv> 20"

definition nlmon_diag_msg_handler ::
  "nl_env \<Rightarrow> alloc \<Rightarrow> u64 \<Rightarrow> nlmon_nl_manager \<Rightarrow> u8 list \<Rightarrow> (int \<times> nlmon_event option) outcome" where
  "nlmon_diag_msg_handler env mem time mgr m =
     bind_outcome (header_event NETLINK_SOCK_DIAG (time * 1000000000) m 0) (\<lambda>evt.
       let type = nl_msg_type (ev_netlink evt)
       in if type = SOCK_DIAG_BY_FAMILY then forward mgr type (nlmon_parse_inet_diag_msg env mem m 0 evt)
          else if type = NLMSG_DONE \<or> type = NLMSG_ERROR then Ok (NL_STOP, None)
          else Ok (NL_SKIP, None))"

text \<open>The subsystem is the high byte of the type; only connection tracking (1) is handled.\<close>

definition nlmon_nf_msg_handler ::
  "nl_env \<Rightarrow> u8 list \<Rightarrow> alloc \<Rightarrow> u64 \<Rightarrow> nlmon_nl_manager \<Rightarrow> u8 list \<Rightarrow> (int \<times> nlmon_event option) outcome" where
  "nlmon_nf_msg_handler env tmp mem time mgr m =
     bind_outcome (header_event NETLINK_NETFILTER (time * 1000000000) m 0) (\<lambda>evt.
       let type = nl_msg_type (ev_netlink evt)
       in if type = NLMSG_DONE \<or> type = NLMSG_ERROR then Ok (NL_STOP, None)
          else if drop_bit 8 type = 1 then forward mgr type (nlmon_parse_conntrack_msg env tmp mem m 0 evt)
          else Ok (NL_SKIP, None))"

definition nlmon_genl_msg_handler ::
  "nl_env \<Rightarrow> alloc \<Rightarrow> u64 \<Rightarrow> nlmon_nl_manager \<Rightarrow> u8 list \<Rightarrow> (int \<times> nlmon_event option) outcome" where
  "nlmon_genl_msg_handler env mem time mgr m =
     bind_outcome (header_event NETLINK_GENERIC (time * 1000000000) m 0) (\<lambda>evt.
     bind_outcome (get_u8 m (nlmsg_data 0)) (\<lambda>cmd.
     bind_outcome (get_u8 m (nlmsg_data 0 + 1)) (\<lambda>version.
       let type = nl_msg_type (ev_netlink evt);
           evt = evt\<lparr>ev_netlink := (ev_netlink evt)\<lparr>nl_genl_cmd := cmd, nl_genl_version := version, nl_genl_family_id := type\<rparr>\<rparr>
       in if sint (nl80211_id mgr) > 0 \<and> type = ucast (nl80211_id mgr) then
            forward mgr type (nlmon_parse_nl80211_msg env mem m 0
              (evt\<lparr>ev_netlink := (ev_netlink evt)\<lparr>nl_genl_family_name := ''nl80211''\<rparr>\<rparr>))
          else Ok (NL_SKIP, None))))"

section \<open>Enabling a protocol\<close>

text \<open>What the system does for one protocol: allocations, the local port, the system calls, and the clock.\<close>

record nl_sys =
  sys_sock_mem :: alloc
  sys_port :: bool
  sys_connect :: int
  sys_fd :: int
  sys_nonblocking :: int
  sys_memberships :: int
  sys_cb_mem :: alloc
  sys_now :: u32

abbreviation (input) ENOTCONN :: int where "ENOTCONN \<equiv> 107"
abbreviation (input) EBADF :: int where "EBADF \<equiv> 9"

definition nl_connect :: "nl_sys \<Rightarrow> 'f nl_sock \<Rightarrow> i32 \<Rightarrow> int \<times> 'f nl_sock" where
  "nl_connect sys sk protocol =
     (if sys_connect sys < 0 then (sys_connect sys, sk\<lparr>s_fd := -1\<rparr>)
      else (0, sk\<lparr>s_fd := sys_fd sys, s_proto := protocol\<rparr>))"

definition nl_socket_set_nonblocking :: "nl_sys \<Rightarrow> 'f nl_sock \<Rightarrow> int" where
  "nl_socket_set_nonblocking sys sk = (if s_fd sk = -1 then - NLE_BAD_SOCK else sys_nonblocking sys)"

definition nl_socket_add_memberships :: "nl_sys \<Rightarrow> 'f nl_sock \<Rightarrow> int" where
  "nl_socket_add_memberships sys sk = (if s_fd sk = -1 then - NLE_BAD_SOCK else sys_memberships sys)"

text \<open>
  What the four functions below share: a socket without sequence check, connected and non-blocking; only the route
  socket joins groups. The buffer sizes are set too, but a failure there changes nothing. On an error the socket is freed.
\<close>

definition open_socket :: "nl_sys \<Rightarrow> i32 \<Rightarrow> bool \<Rightarrow> int \<times> nl_handler nl_sock option" where
  "open_socket sys protocol groups =
     (case nl_socket_alloc (sys_sock_mem sys) (sys_now sys) (sys_port sys) of
        None \<Rightarrow> (- ENOMEM, None)
      | Some sk \<Rightarrow>
          (case nl_connect sys (nl_socket_disable_seq_check sk) protocol of
             (ret, sk) \<Rightarrow>
               if ret < 0 then (ret, None)
               else if nl_socket_set_nonblocking sys sk < 0 then (nl_socket_set_nonblocking sys sk, None)
               else if groups \<and> nl_socket_add_memberships sys sk < 0 then (nl_socket_add_memberships sys sk, None)
               else (0, Some sk)))"

definition nlmon_nl_enable_route :: "nl_sys \<Rightarrow> nlmon_nl_manager \<Rightarrow> int \<times> nlmon_nl_manager" where
  "nlmon_nl_enable_route sys mgr =
     (if route_sock mgr \<noteq> None \<and> enable_route mgr then (0, mgr)
      else (case open_socket sys NETLINK_ROUTE True of
        (ret, None) \<Rightarrow> (ret, mgr\<lparr>route_sock := None\<rparr>)
      | (_, Some sk) \<Rightarrow>
          (case nl_cb_alloc (sys_cb_mem sys) NL_CB_DEFAULT of
             None \<Rightarrow> (- ENOMEM, mgr\<lparr>route_sock := None, route_cb := None\<rparr>)
           | Some cb \<Rightarrow>
               (0, mgr\<lparr>route_sock := Some sk,
                     route_cb := Some (nl_cb_set (nl_cb_set cb NL_CB_SEQ_CHECK NL_CB_CUSTOM (Some noop_seq_check))
                                         NL_CB_VALID NL_CB_CUSTOM (Some (Custom route_msg_handler))),
                     enable_route := True\<rparr>))))"

definition nlmon_nl_enable_generic :: "nl_sys \<Rightarrow> nlmon_nl_manager \<Rightarrow> int \<times> nlmon_nl_manager" where
  "nlmon_nl_enable_generic sys mgr =
     (if genl_sock mgr \<noteq> None \<and> enable_genl mgr then (0, mgr)
      else (case open_socket sys NETLINK_GENERIC False of
        (ret, None) \<Rightarrow> (ret, mgr\<lparr>genl_sock := None\<rparr>)
      | (_, Some sk) \<Rightarrow>
          (case nl_cb_alloc (sys_cb_mem sys) NL_CB_DEFAULT of
             None \<Rightarrow> (- ENOMEM, mgr\<lparr>genl_sock := None, genl_cb := None\<rparr>)
           | Some cb \<Rightarrow>
               (0, mgr\<lparr>genl_sock := Some sk,
                     genl_cb := Some (nl_cb_set cb NL_CB_VALID NL_CB_CUSTOM (Some (Custom genl_msg_handler))),
                     enable_genl := True\<rparr>))))"

definition nlmon_nl_enable_diag :: "nl_sys \<Rightarrow> nlmon_nl_manager \<Rightarrow> int \<times> nlmon_nl_manager" where
  "nlmon_nl_enable_diag sys mgr =
     (if diag_sock mgr \<noteq> None \<and> enable_diag mgr then (0, mgr)
      else (case open_socket sys NETLINK_SOCK_DIAG False of
        (ret, None) \<Rightarrow> (ret, mgr\<lparr>diag_sock := None\<rparr>)
      | (_, Some sk) \<Rightarrow>
          (case nl_cb_alloc (sys_cb_mem sys) NL_CB_DEFAULT of
             None \<Rightarrow> (- ENOMEM, mgr\<lparr>diag_sock := None, diag_cb := None\<rparr>)
           | Some cb \<Rightarrow>
               (0, mgr\<lparr>diag_sock := Some sk,
                     diag_cb := Some (nl_cb_set cb NL_CB_VALID NL_CB_CUSTOM (Some (Custom diag_msg_handler))),
                     enable_diag := True\<rparr>))))"

definition nlmon_nl_enable_netfilter :: "nl_sys \<Rightarrow> nlmon_nl_manager \<Rightarrow> int \<times> nlmon_nl_manager" where
  "nlmon_nl_enable_netfilter sys mgr =
     (if nf_sock mgr \<noteq> None \<and> enable_netfilter mgr then (0, mgr)
      else (case open_socket sys NETLINK_NETFILTER False of
        (ret, None) \<Rightarrow> (ret, mgr\<lparr>nf_sock := None\<rparr>)
      | (_, Some sk) \<Rightarrow>
          (case nl_cb_alloc (sys_cb_mem sys) NL_CB_DEFAULT of
             None \<Rightarrow> (- ENOMEM, mgr\<lparr>nf_sock := None, nf_cb := None\<rparr>)
           | Some cb \<Rightarrow>
               (0, mgr\<lparr>nf_sock := Some sk,
                     nf_cb := Some (nl_cb_set cb NL_CB_VALID NL_CB_CUSTOM (Some (Custom nf_msg_handler))),
                     enable_netfilter := True\<rparr>))))"

section \<open>Reconnecting\<close>

definition nl_socket_free :: "'f nl_sock option \<Rightarrow> unit outcome" where
  "nl_socket_free sk = (case sk of None \<Rightarrow> Ok () | Some sk \<Rightarrow> bind_outcome (nl_cb_put (s_cb sk)) (\<lambda>_. Ok ()))"

definition put_callbacks :: "'f nl_cb option \<Rightarrow> unit outcome" where
  "put_callbacks cb = (case cb of None \<Rightarrow> Ok () | Some cb \<Rightarrow> bind_outcome (nl_cb_put cb) (\<lambda>_. Ok ()))"

definition reconnect_route_socket :: "nl_sys \<Rightarrow> nlmon_nl_manager \<Rightarrow> (int \<times> nlmon_nl_manager) outcome" where
  "reconnect_route_socket sys mgr =
     bind_outcome (nl_socket_free (route_sock mgr)) (\<lambda>_. bind_outcome (put_callbacks (route_cb mgr)) (\<lambda>_.
       case nlmon_nl_enable_route sys (mgr\<lparr>route_sock := None, route_cb := None, enable_route := False\<rparr>) of
         (ret, mgr) \<Rightarrow> Ok (if ret < 0 then ret else 0, mgr)))"

definition reconnect_genl_socket :: "nl_sys \<Rightarrow> nlmon_nl_manager \<Rightarrow> (int \<times> nlmon_nl_manager) outcome" where
  "reconnect_genl_socket sys mgr =
     bind_outcome (nl_socket_free (genl_sock mgr)) (\<lambda>_. bind_outcome (put_callbacks (genl_cb mgr)) (\<lambda>_.
       case nlmon_nl_enable_generic sys
              (mgr\<lparr>genl_sock := None, genl_cb := None, enable_genl := False, nl80211_id := -1, taskstats_id := -1\<rparr>) of
         (ret, mgr) \<Rightarrow> Ok (if ret < 0 then ret else 0, mgr)))"

definition reconnect_diag_socket :: "nl_sys \<Rightarrow> nlmon_nl_manager \<Rightarrow> (int \<times> nlmon_nl_manager) outcome" where
  "reconnect_diag_socket sys mgr =
     bind_outcome (nl_socket_free (diag_sock mgr)) (\<lambda>_. bind_outcome (put_callbacks (diag_cb mgr)) (\<lambda>_.
       case nlmon_nl_enable_diag sys (mgr\<lparr>diag_sock := None, diag_cb := None, enable_diag := False\<rparr>) of
         (ret, mgr) \<Rightarrow> Ok (if ret < 0 then ret else 0, mgr)))"

definition reconnect_nf_socket :: "nl_sys \<Rightarrow> nlmon_nl_manager \<Rightarrow> (int \<times> nlmon_nl_manager) outcome" where
  "reconnect_nf_socket sys mgr =
     bind_outcome (nl_socket_free (nf_sock mgr)) (\<lambda>_. bind_outcome (put_callbacks (nf_cb mgr)) (\<lambda>_.
       case nlmon_nl_enable_netfilter sys (mgr\<lparr>nf_sock := None, nf_cb := None, enable_netfilter := False\<rparr>) of
         (ret, mgr) \<Rightarrow> Ok (if ret < 0 then ret else 0, mgr)))"

definition nlmon_nl_reconnect :: "nl_sys \<Rightarrow> nlmon_nl_manager \<Rightarrow> i32 \<Rightarrow> (int \<times> nlmon_nl_manager) outcome" where
  "nlmon_nl_reconnect sys mgr protocol =
     (if protocol = NETLINK_ROUTE then reconnect_route_socket sys mgr
      else if protocol = NETLINK_GENERIC then reconnect_genl_socket sys mgr
      else if protocol = NETLINK_SOCK_DIAG then reconnect_diag_socket sys mgr
      else if protocol = NETLINK_NETFILTER then reconnect_nf_socket sys mgr
      else Ok (- EINVAL, mgr))"

section \<open>Processing\<close>

text \<open>
  The environment of a run: what handlers and receive loop get from allocations (one outcome per message), the clock,
  uninitialised memory, and the size of the receive buffer. The state: calls of handlers so far, manager, and the
  events passed on.
\<close>

record nl_ctx =
  ctx_env :: nl_env
  ctx_handler_mem :: "nat \<Rightarrow> alloc"
  ctx_time :: "nat \<Rightarrow> u64"
  ctx_tmp :: "u8 list"
  ctx_recv_mem :: "nat \<Rightarrow> alloc"
  ctx_junk :: "nat \<Rightarrow> u8 list"
  ctx_grow :: "nat \<Rightarrow> u8 list"
  ctx_page_size :: nat

record nl_run =
  run_calls :: nat
  run_manager :: nlmon_nl_manager
  run_events :: "nlmon_event list"

definition note_event :: "nlmon_nl_manager \<Rightarrow> nlmon_event option \<Rightarrow> nl_run \<Rightarrow> nl_run" where
  "note_event mgr e run = \<lparr>run_calls = run_calls run + 1, run_manager = mgr,
     run_events = run_events run @ (case e of None \<Rightarrow> [] | Some e \<Rightarrow> [e])\<rparr>"

definition call_callback :: "nl_ctx \<Rightarrow> nl_handler cb_fn \<Rightarrow> u8 list \<Rightarrow> nl_run \<Rightarrow> (int \<times> nl_run) outcome" where
  "call_callback ctx f m run =
     (let env = ctx_env ctx; mem = ctx_handler_mem ctx (run_calls run); time = ctx_time ctx (run_calls run);
          mgr = run_manager run; plain = (\<lambda>r. bind_outcome r (\<lambda>(ret, e). Ok (ret, note_event mgr e run)))
      in case f of
           noop_seq_check \<Rightarrow> Ok (NL_OK, run)
         | Custom route_msg_handler \<Rightarrow>
             bind_outcome (nlmon_route_msg_handler env mem time mgr m) (\<lambda>(ret, e, mgr). Ok (ret, note_event mgr e run))
         | Custom genl_msg_handler \<Rightarrow> plain (nlmon_genl_msg_handler env mem time mgr m)
         | Custom diag_msg_handler \<Rightarrow> plain (nlmon_diag_msg_handler env mem time mgr m)
         | Custom nf_msg_handler \<Rightarrow> plain (nlmon_nf_msg_handler env (ctx_tmp ctx) mem time mgr m))"

text \<open>nlmon sets no error callback.\<close>

definition receive ::
  "nl_ctx \<Rightarrow> nl_handler nl_sock \<Rightarrow> nl_handler cb_fn nl_cb \<Rightarrow> recv_result list \<Rightarrow> nl_run \<Rightarrow>
   (int \<times> nl_handler nl_sock \<times> nl_run \<times> recv_result list) outcome option" where
  "receive ctx sk cb rs run =
     nl_recvmsgs (call_callback ctx) (\<lambda>_ _ u. Ok (NL_OK, u)) (ctx_recv_mem ctx) (ctx_junk ctx) (ctx_grow ctx) (ctx_page_size ctx) sk cb rs run"

text \<open>What every processing function makes of the result.\<close>

definition process_result ::
  "nl_sys \<Rightarrow> int \<Rightarrow> i32 \<Rightarrow> int \<Rightarrow> nl_run \<Rightarrow> recv_result list \<Rightarrow> (int \<times> nl_run \<times> recv_result list) outcome" where
  "process_result sys errno protocol ret run rs =
     (if ret < 0 \<and> (ret = - NLE_AGAIN \<or> errno = EAGAIN) then Ok (0, run, rs)
      else if ret < 0 then
        if ret = - NLE_BAD_SOCK \<or> errno = EBADF \<or> errno = ENOTCONN then
          bind_outcome (nlmon_nl_reconnect sys (run_manager run) protocol) (\<lambda>(ret, mgr).
            Ok (if ret < 0 then ret else 0, run\<lparr>run_manager := mgr\<rparr>, rs))
        else Ok (ret, run, rs)
      else Ok (0, run, rs))"

definition nlmon_nl_process_route ::
  "nl_ctx \<Rightarrow> nl_sys \<Rightarrow> int \<Rightarrow> recv_result list \<Rightarrow> nl_run \<Rightarrow> (int \<times> nl_run \<times> recv_result list) outcome option" where
  "nlmon_nl_process_route ctx sys errno rs run =
     (case (route_sock (run_manager run), enable_route (run_manager run), route_cb (run_manager run)) of
        (Some sk, True, Some cb) \<Rightarrow>
          map_option (\<lambda>r. bind_outcome r (\<lambda>(ret, sk, run, rs).
            process_result sys errno NETLINK_ROUTE ret (run\<lparr>run_manager := (run_manager run)\<lparr>route_sock := Some sk\<rparr>\<rparr>) rs))
            (receive ctx sk cb rs run)
      | _ \<Rightarrow> Some (Ok (- EINVAL, run, rs)))"

definition nlmon_nl_process_genl ::
  "nl_ctx \<Rightarrow> nl_sys \<Rightarrow> int \<Rightarrow> recv_result list \<Rightarrow> nl_run \<Rightarrow> (int \<times> nl_run \<times> recv_result list) outcome option" where
  "nlmon_nl_process_genl ctx sys errno rs run =
     (case (genl_sock (run_manager run), enable_genl (run_manager run), genl_cb (run_manager run)) of
        (Some sk, True, Some cb) \<Rightarrow>
          map_option (\<lambda>r. bind_outcome r (\<lambda>(ret, sk, run, rs).
            process_result sys errno NETLINK_GENERIC ret (run\<lparr>run_manager := (run_manager run)\<lparr>genl_sock := Some sk\<rparr>\<rparr>) rs))
            (receive ctx sk cb rs run)
      | _ \<Rightarrow> Some (Ok (- EINVAL, run, rs)))"

definition nlmon_nl_process_diag ::
  "nl_ctx \<Rightarrow> nl_sys \<Rightarrow> int \<Rightarrow> recv_result list \<Rightarrow> nl_run \<Rightarrow> (int \<times> nl_run \<times> recv_result list) outcome option" where
  "nlmon_nl_process_diag ctx sys errno rs run =
     (case (diag_sock (run_manager run), enable_diag (run_manager run), diag_cb (run_manager run)) of
        (Some sk, True, Some cb) \<Rightarrow>
          map_option (\<lambda>r. bind_outcome r (\<lambda>(ret, sk, run, rs).
            process_result sys errno NETLINK_SOCK_DIAG ret (run\<lparr>run_manager := (run_manager run)\<lparr>diag_sock := Some sk\<rparr>\<rparr>) rs))
            (receive ctx sk cb rs run)
      | _ \<Rightarrow> Some (Ok (- EINVAL, run, rs)))"

definition nlmon_nl_process_nf ::
  "nl_ctx \<Rightarrow> nl_sys \<Rightarrow> int \<Rightarrow> recv_result list \<Rightarrow> nl_run \<Rightarrow> (int \<times> nl_run \<times> recv_result list) outcome option" where
  "nlmon_nl_process_nf ctx sys errno rs run =
     (case (nf_sock (run_manager run), enable_netfilter (run_manager run), nf_cb (run_manager run)) of
        (Some sk, True, Some cb) \<Rightarrow>
          map_option (\<lambda>r. bind_outcome r (\<lambda>(ret, sk, run, rs).
            process_result sys errno NETLINK_NETFILTER ret (run\<lparr>run_manager := (run_manager run)\<lparr>nf_sock := Some sk\<rparr>\<rparr>) rs))
            (receive ctx sk cb rs run)
      | _ \<Rightarrow> Some (Ok (- EINVAL, run, rs)))"

section \<open>Caches, families and configuration\<close>

text \<open>\<open>dump\<close>: the result of the request for a full dump.\<close>

definition nlmon_nl_cache_init_link :: "alloc \<Rightarrow> int \<Rightarrow> nlmon_nl_manager \<Rightarrow> int \<times> nlmon_nl_manager" where
  "nlmon_nl_cache_init_link mem dump mgr =
     (if route_sock mgr = None \<or> \<not> enable_route mgr then (- ENOTCONN, mgr)
      else if link_cache mgr \<noteq> None then (0, mgr)
      else (case nl_cache_alloc mem link_cache_ops of
        None \<Rightarrow> (- ENOMEM, mgr\<lparr>link_cache := None\<rparr>)
      | Some cache \<Rightarrow> if dump < 0 then (dump, mgr\<lparr>link_cache := None\<rparr>) else (0, mgr\<lparr>link_cache := Some cache\<rparr>)))"

definition nlmon_nl_cache_init_addr :: "alloc \<Rightarrow> int \<Rightarrow> nlmon_nl_manager \<Rightarrow> int \<times> nlmon_nl_manager" where
  "nlmon_nl_cache_init_addr mem dump mgr =
     (if route_sock mgr = None \<or> \<not> enable_route mgr then (- ENOTCONN, mgr)
      else if addr_cache mgr \<noteq> None then (0, mgr)
      else (case nl_cache_alloc mem addr_cache_ops of
        None \<Rightarrow> (- ENOMEM, mgr\<lparr>addr_cache := None\<rparr>)
      | Some cache \<Rightarrow> if dump < 0 then (dump, mgr\<lparr>addr_cache := None\<rparr>) else (0, mgr\<lparr>addr_cache := Some cache\<rparr>)))"

definition nlmon_nl_cache_init_route :: "alloc \<Rightarrow> int \<Rightarrow> nlmon_nl_manager \<Rightarrow> int \<times> nlmon_nl_manager" where
  "nlmon_nl_cache_init_route mem dump mgr =
     (if route_sock mgr = None \<or> \<not> enable_route mgr then (- ENOTCONN, mgr)
      else if route_cache mgr \<noteq> None then (0, mgr)
      else (case nl_cache_alloc mem route_cache_ops of
        None \<Rightarrow> (- ENOMEM, mgr\<lparr>route_cache := None\<rparr>)
      | Some cache \<Rightarrow> if dump < 0 then (dump, mgr\<lparr>route_cache := None\<rparr>) else (0, mgr\<lparr>route_cache := Some cache\<rparr>)))"

text \<open>Each cache is emptied and a dump requested; the first failure ends the refresh.\<close>

definition nlmon_nl_cache_refresh_all :: "int \<Rightarrow> int \<Rightarrow> int \<Rightarrow> nlmon_nl_manager \<Rightarrow> int \<times> nlmon_nl_manager" where
  "nlmon_nl_cache_refresh_all link_dump addr_dump route_dump mgr =
     (let mgr1 = mgr\<lparr>link_cache := map_option nl_cache_clear (link_cache mgr)\<rparr>
      in if link_cache mgr \<noteq> None \<and> link_dump < 0 then (link_dump, mgr1)
         else let mgr2 = mgr1\<lparr>addr_cache := map_option nl_cache_clear (addr_cache mgr1)\<rparr>
              in if addr_cache mgr \<noteq> None \<and> addr_dump < 0 then (addr_dump, mgr2)
                 else let mgr3 = mgr2\<lparr>route_cache := map_option nl_cache_clear (route_cache mgr2)\<rparr>
                      in if route_cache mgr \<noteq> None \<and> route_dump < 0 then (route_dump, mgr3) else (0, mgr3))"

definition nlmon_nl_get_link_count :: "nlmon_nl_manager \<Rightarrow> int" where
  "nlmon_nl_get_link_count mgr = (case link_cache mgr of None \<Rightarrow> -1 | Some cache \<Rightarrow> int (nl_cache_nitems cache))"

definition nlmon_nl_get_addr_count :: "nlmon_nl_manager \<Rightarrow> int" where
  "nlmon_nl_get_addr_count mgr = (case addr_cache mgr of None \<Rightarrow> -1 | Some cache \<Rightarrow> int (nl_cache_nitems cache))"

definition nlmon_nl_get_route_count :: "nlmon_nl_manager \<Rightarrow> int" where
  "nlmon_nl_get_route_count mgr = (case route_cache mgr of None \<Rightarrow> -1 | Some cache \<Rightarrow> int (nl_cache_nitems cache))"

text \<open>\<open>resolve\<close>: the answer of the kernel's family controller.\<close>

definition nlmon_nl_resolve_family :: "(string \<Rightarrow> int) \<Rightarrow> nlmon_nl_manager \<Rightarrow> string \<Rightarrow> int \<times> nlmon_nl_manager" where
  "nlmon_nl_resolve_family resolve mgr name =
     (if genl_sock mgr = None \<or> \<not> enable_genl mgr then (- ENOTCONN, mgr)
      else let family_id = resolve name
           in if family_id < 0 then (family_id, mgr)
              else (family_id,
                if name = ''nl80211'' then mgr\<lparr>nl80211_id := word_of_int family_id\<rparr>
                else if name = ''taskstats'' then mgr\<lparr>taskstats_id := word_of_int family_id\<rparr>
                else mgr))"

definition nlmon_nl_get_route_fd :: "nlmon_nl_manager \<Rightarrow> int" where
  "nlmon_nl_get_route_fd mgr = (case route_sock mgr of None \<Rightarrow> -1 | Some sk \<Rightarrow> if enable_route mgr then s_fd sk else -1)"

definition nlmon_nl_get_genl_fd :: "nlmon_nl_manager \<Rightarrow> int" where
  "nlmon_nl_get_genl_fd mgr = (case genl_sock mgr of None \<Rightarrow> -1 | Some sk \<Rightarrow> if enable_genl mgr then s_fd sk else -1)"

definition nlmon_nl_get_diag_fd :: "nlmon_nl_manager \<Rightarrow> int" where
  "nlmon_nl_get_diag_fd mgr = (case diag_sock mgr of None \<Rightarrow> -1 | Some sk \<Rightarrow> if enable_diag mgr then s_fd sk else -1)"

definition nlmon_nl_get_nf_fd :: "nlmon_nl_manager \<Rightarrow> int" where
  "nlmon_nl_get_nf_fd mgr = (case nf_sock mgr of None \<Rightarrow> -1 | Some sk \<Rightarrow> if enable_netfilter mgr then s_fd sk else -1)"

text \<open>\<open>so_error\<close>: the pending error of a descriptor, if it can be asked for.\<close>

definition nlmon_nl_is_connected :: "(int \<Rightarrow> int option) \<Rightarrow> nlmon_nl_manager \<Rightarrow> i32 \<Rightarrow> int" where
  "nlmon_nl_is_connected so_error mgr protocol =
     (let status = (\<lambda>sock. case sock of
          None \<Rightarrow> 0
        | Some sk \<Rightarrow> if s_fd sk < 0 then 0 else if so_error (s_fd sk) = Some 0 then 1 else 0)
      in if protocol = NETLINK_ROUTE then status (route_sock mgr)
         else if protocol = NETLINK_GENERIC then status (genl_sock mgr)
         else if protocol = NETLINK_SOCK_DIAG then status (diag_sock mgr)
         else if protocol = NETLINK_NETFILTER then status (nf_sock mgr)
         else - EINVAL)"

text \<open>The part of the configuration that the manager's state depends on; buffer sizes go to the kernel only.\<close>

record nlmon_netlink_config =
  protocols_route :: bool
  protocols_generic :: bool
  protocols_sock_diag :: bool
  protocols_netfilter :: bool
  families :: "string list"
  caching_enabled :: bool
  caching_link_cache :: bool
  caching_addr_cache :: bool
  caching_route_cache :: bool

definition enable_if :: "bool \<Rightarrow> (nlmon_nl_manager \<Rightarrow> int \<times> nlmon_nl_manager) \<Rightarrow> nlmon_nl_manager \<Rightarrow> int \<times> nlmon_nl_manager" where
  "enable_if wanted f mgr = (if wanted then f mgr else (0, mgr))"

text \<open>A protocol that cannot be enabled ends the configuration; families and caches that fail do not.\<close>

definition nlmon_nl_apply_config ::
  "(i32 \<Rightarrow> nl_sys) \<Rightarrow> (string \<Rightarrow> int) \<Rightarrow> alloc \<Rightarrow> int \<times> int \<times> int \<Rightarrow> nlmon_nl_manager \<Rightarrow> nlmon_netlink_config \<Rightarrow> int \<times> nlmon_nl_manager" where
  "nlmon_nl_apply_config sys resolve mem dumps mgr config =
     (case enable_if (protocols_route config) (nlmon_nl_enable_route (sys NETLINK_ROUTE)) mgr of (ret, mgr) \<Rightarrow>
      if ret < 0 then (ret, mgr) else
      case enable_if (protocols_generic config) (nlmon_nl_enable_generic (sys NETLINK_GENERIC)) mgr of (ret, mgr) \<Rightarrow>
      if ret < 0 then (ret, mgr) else
      let mgr = (if protocols_generic config
                 then fold (\<lambda>name mgr. snd (nlmon_nl_resolve_family resolve mgr name)) (families config) mgr else mgr) in
      case enable_if (protocols_sock_diag config) (nlmon_nl_enable_diag (sys NETLINK_SOCK_DIAG)) mgr of (ret, mgr) \<Rightarrow>
      if ret < 0 then (ret, mgr) else
      case enable_if (protocols_netfilter config) (nlmon_nl_enable_netfilter (sys NETLINK_NETFILTER)) mgr of (ret, mgr) \<Rightarrow>
      if ret < 0 then (ret, mgr) else
      let cached = (\<lambda>wanted f mgr. snd (enable_if (caching_enabled config \<and> wanted) f mgr)) in
      (0, cached (caching_route_cache config) (nlmon_nl_cache_init_route mem (snd (snd dumps)))
           (cached (caching_addr_cache config) (nlmon_nl_cache_init_addr mem (fst (snd dumps)))
             (cached (caching_link_cache config) (nlmon_nl_cache_init_link mem (fst dumps)) mgr))))"

section \<open>Events of the route socket\<close>

lemma header_event_message:
  assumes "m = message_bytes (header_bytes type flags seq pid) fam as"
  shows "header_event protocol time m 0 =
    Ok (zero_event\<lparr>ev_timestamp := time, ev_netlink := zero_netlink\<lparr>nl_protocol := protocol, nl_msg_type := type,
      nl_msg_flags := flags, nl_seq := seq, nl_pid := pid\<rparr>\<rparr>)"
  using message_header [OF assms] by (simp add: header_event_def)

text \<open>A message about a link, as the kernel sends it, and the event it stands for.\<close>

record link_msg =
  lm_type :: u16
  lm_flags :: u16
  lm_seq :: u32
  lm_pid :: u32
  lm_info :: "u8 list"
  lm_attrs :: "(nat \<times> u8 list) list"

definition link_bytes :: "link_msg \<Rightarrow> u8 list" where
  "link_bytes l = message_bytes (header_bytes (lm_type l) (lm_flags l) (lm_seq l) (lm_pid l)) (lm_info l) (lm_attrs l)"

definition link_ok :: "link_msg \<Rightarrow> bool" where
  "link_ok l \<longleftrightarrow> lm_type l \<in> {16, 17} \<and> length (lm_info l) = 16 \<and>
     message_ok (header_bytes (lm_type l) (lm_flags l) (lm_seq l) (lm_pid l)) (lm_info l) (lm_attrs l) \<and>
     (case map_of (rev (lm_attrs l)) IFLA_MTU of None \<Rightarrow> True | Some d \<Rightarrow> 4 \<le> length d) \<and>
     (case map_of (rev (lm_attrs l)) IFLA_OPERSTATE of None \<Rightarrow> True | Some d \<Rightarrow> 1 \<le> length d)"

definition link_event :: "nl_env \<Rightarrow> u64 \<Rightarrow> link_msg \<Rightarrow> nlmon_event" where
  "link_event env time l =
     (let li = link_of env (lm_info l) (lm_attrs l)
      in zero_event\<lparr>ev_timestamp := time * 1000000000, ev_event_type := ucast (lm_type l), ev_interface := take 15 (link_ifname li),
           ev_netlink := zero_netlink\<lparr>nl_protocol := NETLINK_ROUTE, nl_msg_type := lm_type l, nl_msg_flags := lm_flags l,
             nl_seq := lm_seq l, nl_pid := lm_pid l, nl_data := NL_DATA_LINK li\<rparr>\<rparr>)"

lemma link_message_handled:
  assumes "link_ok l" "link_cache mgr = None" "event_callback mgr" "mem 1" "16 \<le> IFLA_MAX env"
  shows "nlmon_route_msg_handler env mem time mgr (link_bytes l) = Ok (NL_OK, Some (link_event env time l), mgr)"
proof -
  let ?m = "link_bytes l" and ?li = "link_of env (lm_info l) (lm_attrs l)"
  have m: "?m = message_bytes (header_bytes (lm_type l) (lm_flags l) (lm_seq l) (lm_pid l)) (lm_info l) (lm_attrs l)"
    by (simp add: link_bytes_def)
  have ok: "message_ok (header_bytes (lm_type l) (lm_flags l) (lm_seq l) (lm_pid l)) (lm_info l) (lm_attrs l)" "length (lm_info l) = 16"
    "lm_type l = 16 \<or> lm_type l = 17"
    using assms(1) by (auto simp: link_ok_def)
  have mtu: "4 \<le> length d" if "map_of (rev (lm_attrs l)) IFLA_MTU = Some d" for d using assms(1) that by (simp add: link_ok_def)
  have oper: "1 \<le> length d" if "map_of (rev (lm_attrs l)) IFLA_OPERSTATE = Some d" for d using assms(1) that by (simp add: link_ok_def)
  have p: "nlmon_parse_link_msg env mem ?m 0 evt =
      Ok (0, (set_data (NL_DATA_LINK ?li) evt)\<lparr>ev_interface := take 15 (link_ifname ?li)\<rparr>)" for evt
    by (rule nlmon_parse_link_msg_message [where mem = mem and env = env, OF ok(1) m ok(2) assms(5,4)]) (use mtu oper in blast)+
  show ?thesis
    using ok(3) header_event_message [OF m, of NETLINK_ROUTE "time * 1000000000"]
    by (auto simp: nlmon_route_msg_handler_def nlmon_nl_cache_update_link_def assms(2,3) p forward_def set_data_def zero_event_def
      link_event_def Let_def)
qed

lemma link_frame:
  assumes "link_ok l"
  shows "data_frame (link_bytes l)"
proof -
  let ?h = "header_bytes (lm_type l) (lm_flags l) (lm_seq l) (lm_pid l)"
  let ?n = "16 + length (lm_info l) + length (encode_attrs (lm_attrs l))"
  have m: "link_bytes l = le_bytes 4 ?n @ ?h @ lm_info l @ encode_attrs (lm_attrs l)"
    by (simp add: link_bytes_def message_bytes_def)
  have ok: "4 dvd length (lm_info l)" "?n < 2 ^ 31" "lm_type l = 16 \<or> lm_type l = 17"
    using assms by (auto simp: link_ok_def message_ok_def)
  have "4 dvd length (encode_attrs as)" for as
    by (induction as) (simp_all add: encode_attrs_def dvd_encode_attr)
  then have "4 dvd ?n" using ok(1) by simp
  moreover have "?n mod 256 ^ 4 = ?n" by (rule mod_less) (use ok(2) in simp)
  ultimately have f: "frame (link_bytes l)" using ok(2) by (simp add: frame_def m add.assoc)
  have "nlh_type (link_bytes l) 0 = Ok (lm_type l)"
    by (rule message_header(1)) (simp add: link_bytes_def)
  then have "frame_type (link_bytes l) = lm_type l"
    using frame_fields(2) [OF f, where pre = "[]" and post = "[]"] by simp
  then show ?thesis using f ok(3) by (auto simp: data_frame_def)
qed

definition link_events :: "nl_ctx \<Rightarrow> nat \<Rightarrow> link_msg list \<Rightarrow> nlmon_event list" where
  "link_events ctx k ls = map (\<lambda>(i, l). link_event (ctx_env ctx) (ctx_time ctx i) l) (enumerate k ls)"

lemma deliver_links:
  assumes "\<forall>l \<in> set ls. link_ok l" "link_cache (run_manager (user st)) = None" "event_callback (run_manager (user st))"
    and "\<And>i k. ctx_handler_mem ctx i k" "16 \<le> IFLA_MAX (ctx_env ctx)"
  shows "\<exists>mp. deliver (call_callback ctx (Custom route_msg_handler)) (map link_bytes ls) st =
    Ok (Proceed, st\<lparr>messages := messages st + length ls, multipart := mp,
      user := (user st)\<lparr>run_calls := run_calls (user st) + length ls,
        run_events := run_events (user st) @ link_events ctx (run_calls (user st)) ls\<rparr>\<rparr>)"
  using assms(1-3)
proof (induction ls arbitrary: st)
  case Nil
  then show ?case by (intro exI [of _ "multipart st"]) (simp add: link_events_def)
next
  case (Cons l ls)
  let ?u = "user st" and ?env = "ctx_env ctx"
  let ?e = "link_event ?env (ctx_time ctx (run_calls ?u)) l"
  let ?u' = "note_event (run_manager ?u) (Some ?e) ?u"
  have "nlmon_route_msg_handler ?env (ctx_handler_mem ctx (run_calls ?u)) (ctx_time ctx (run_calls ?u)) (run_manager ?u) (link_bytes l) =
      Ok (0, Some ?e, run_manager ?u)"
    by (rule link_message_handled) (use Cons.prems assms(4,5) in simp_all)
  then have call: "call_callback ctx (Custom route_msg_handler) (link_bytes l) ?u = Ok (0, ?u')"
    by (simp add: call_callback_def Let_def)
  obtain mp where "deliver (call_callback ctx (Custom route_msg_handler)) (map link_bytes ls) (after_frame (link_bytes l) ?u' st) =
      Ok (Proceed, (after_frame (link_bytes l) ?u' st)\<lparr>messages := messages (after_frame (link_bytes l) ?u' st) + length ls, multipart := mp,
        user := ?u'\<lparr>run_calls := run_calls ?u' + length ls, run_events := run_events ?u' @ link_events ctx (run_calls ?u') ls\<rparr>\<rparr>)"
    using Cons.IH [of "after_frame (link_bytes l) ?u' st"] Cons.prems by (auto simp: after_frame_def note_event_def)
  then show ?case
    using call by (intro exI [of _ mp]) (simp add: flow_of_def after_frame_def note_event_def link_events_def)
qed

text \<open>Allocations succeed, new memory has the size asked for, and the receive buffer is below 2 GiB.\<close>

definition ctx_ok :: "nl_ctx \<Rightarrow> bool" where
  "ctx_ok ctx \<longleftrightarrow> (\<forall>i k. ctx_handler_mem ctx i k) \<and> (\<forall>i k. ctx_recv_mem ctx i k) \<and> (\<forall>k. length (ctx_junk ctx k) = k) \<and>
     ctx_page_size ctx < 2 ^ 31 \<and> 16 \<le> IFLA_MAX (ctx_env ctx)"

lemma open_socket_opened:
  assumes "open_socket sys protocol groups = (ret, Some sk)"
  shows "ret = 0 \<and> s_seq_expect sk = sys_now sys \<and> \<not> s_peek sk"
  using assms
  by (auto simp: open_socket_def nl_socket_alloc_def nl_connect_def nl_socket_disable_seq_check_def split: option.splits if_splits)

lemma enable_route_enabled:
  assumes "nlmon_nl_enable_route sys mgr0 = (0, mgr)" "route_sock mgr0 = None"
  shows "\<exists>sk cb. route_sock mgr = Some sk \<and> enable_route mgr \<and> route_cb mgr = Some cb \<and> \<not> s_peek sk \<and>
    event_callbacks (call_callback ctx) cb (Custom route_msg_handler) \<and>
    link_cache mgr = link_cache mgr0 \<and> event_callback mgr = event_callback mgr0"
proof (cases "open_socket sys NETLINK_ROUTE True")
  case (Pair ret r)
  show ?thesis
  proof (cases r)
    case None
    then have "ret < 0"
      using Pair by (auto simp: open_socket_def nl_connect_def split: option.splits if_splits)
    then show ?thesis using assms Pair None by (simp add: nlmon_nl_enable_route_def)
  next
    case (Some sk)
    show ?thesis
    proof (cases "nl_cb_alloc (sys_cb_mem sys) NL_CB_DEFAULT :: nl_handler cb_fn nl_cb option")
      case None
      then show ?thesis using assms Pair Some by (simp add: nlmon_nl_enable_route_def)
    next
      case (Some cb)
      then show ?thesis
        using assms Pair \<open>r = Some sk\<close> open_socket_opened [of sys NETLINK_ROUTE True ret sk] nl_cb_alloc_empty [OF Some]
        by (auto simp: nlmon_nl_enable_route_def event_callbacks_def nl_cb_set_def call_callback_def)
    qed
  qed
qed

text \<open>A datagram of link messages through the whole receiving path of a manager with the route protocol.\<close>

lemma process_route_links:
  assumes en: "route_sock (run_manager run) = Some sk" "enable_route (run_manager run)" "route_cb (run_manager run) = Some cb" "\<not> s_peek sk"
      "event_callbacks (call_callback ctx) cb (Custom route_msg_handler)" "link_cache (run_manager run) = None" "event_callback (run_manager run)"
    and "ctx_ok ctx" "ls \<noteq> []" "\<forall>l \<in> set ls. link_ok l" "length (concat (map link_bytes ls)) \<le> ctx_page_size ctx"
  obtains run' where "nlmon_nl_process_route ctx sys errno [Recv_Data (concat (map link_bytes ls)) False False True] run = Some (Ok (0, run', []))"
    "run_events run' = run_events run @ link_events ctx (run_calls run) ls"
proof -
  let ?st = "\<lparr>seq_expect = s_seq_expect sk, multipart = False, messages = 0, user = run\<rparr>"
  have ctx: "\<And>i k. ctx_handler_mem ctx i k" "\<And>i k. ctx_recv_mem ctx i k" "\<And>k. length (ctx_junk ctx k) = k" "ctx_page_size ctx < 2 ^ 31"
    "16 \<le> IFLA_MAX (ctx_env ctx)"
    using assms(8) by (auto simp: ctx_ok_def)
  have frames: "map link_bytes ls \<noteq> []" "\<forall>f \<in> set (map link_bytes ls). data_frame f" using assms(9,10) link_frame by auto
  obtain st' where d: "deliver (call_callback ctx (Custom route_msg_handler)) (map link_bytes ls) ?st = Ok (Proceed, st')"
    "run_events (user st') = run_events run @ link_events ctx (run_calls run) ls"
    using deliver_links [of ls ?st ctx] assms(10) en(6,7) ctx(1,5) by auto
  have "receive ctx sk cb [Recv_Data (concat (map link_bytes ls)) False False True] run =
      Some (Ok (0, sk\<lparr>s_seq_expect := seq_expect st'\<rparr>, user st', []))"
    using recvmsgs_datagram [where call_err = "\<lambda>_ _ u. Ok (0, u)" and grow = "ctx_grow ctx" and st = ?st and junk = "ctx_junk ctx"
        and mem = "ctx_recv_mem ctx", OF en(5) ctx(3,2) frames assms(11) ctx(4)] en(4) d(1)
    by (simp add: receive_def nl_recvmsgs_def)
  then show thesis using that en(1-3) d(2) by (simp add: nlmon_nl_process_route_def process_result_def)
qed


text \<open>A system in which everything works, and two messages about one interface: it comes up, then it goes away.\<close>

definition sample_env :: nl_env where
  "sample_env = \<lparr>if_indextoname = (\<lambda>_. None), inet_ntop6 = (\<lambda>_. []), IFLA_MAX = 66, IFA_MAX = 11, RTA_MAX = 30, NDA_MAX = 16,
     NL80211_ATTR_MAX = 330, CTA_MAX = 27, CTA_TUPLE_MAX = 3, CTA_IP_MAX = 4, CTA_PROTO_MAX = 9, CTA_PROTOINFO_MAX = 3,
     CTA_PROTOINFO_TCP_MAX = 5, CTA_COUNTERS_MAX = 3\<rparr>"

definition sample_ctx :: nl_ctx where
  "sample_ctx = \<lparr>ctx_env = sample_env, ctx_handler_mem = (\<lambda>_ _. True), ctx_time = (\<lambda>_. 5), ctx_tmp = [], ctx_recv_mem = (\<lambda>_ _. True),
     ctx_junk = (\<lambda>k. replicate k 0), ctx_grow = (\<lambda>k. replicate k 0), ctx_page_size = 16384\<rparr>"

definition sample_sys :: nl_sys where
  "sample_sys = \<lparr>sys_sock_mem = (\<lambda>_. True), sys_port = True, sys_connect = 0, sys_fd = 3, sys_nonblocking = 0, sys_memberships = 0,
     sys_cb_mem = (\<lambda>_. True), sys_now = 1700000000\<rparr>"

definition sample_manager :: nlmon_nl_manager where
  "sample_manager = nlmon_nl_set_callback (the (nlmon_nl_manager_init (\<lambda>_. True))) True"

definition sample_link :: "u16 \<Rightarrow> link_msg" where
  "sample_link type = \<lparr>lm_type = type, lm_flags = 0, lm_seq = 0, lm_pid = 0,
     lm_info = replicate 4 0 @ le_bytes 4 2 @ le_bytes 4 1 @ replicate 4 0, lm_attrs = [(3, [108, 111, 0]), (4, le_bytes 4 1500)]\<rparr>"

lemma sample_ctx_ok: "ctx_ok sample_ctx"
  by (simp add: ctx_ok_def sample_ctx_def sample_env_def)

lemma sample_link_ok:
  assumes "type = 16 \<or> type = 17"
  shows "link_ok (sample_link type)" "length (link_bytes (sample_link type)) = 48"
proof -
  have "length (encode_attrs (lm_attrs (sample_link type))) = 16"
    by (simp add: sample_link_def nla_total_size_def nla_attr_size_def NLA_ALIGN_def)
  moreover have "length (lm_info (sample_link type)) = 16" by (simp add: sample_link_def)
  moreover have "\<forall>a \<in> set (lm_attrs (sample_link type)). attr_ok a" by (simp add: sample_link_def)
  ultimately show "link_ok (sample_link type)" "length (link_bytes (sample_link type)) = 48"
    using assms by (auto simp: link_ok_def message_ok_def link_bytes_def message_bytes_def) (simp_all add: sample_link_def)
qed

lemma sample_enable_route:
  "\<exists>mgr. nlmon_nl_enable_route sample_sys sample_manager = (0, mgr)" "route_sock sample_manager = None"
  "link_cache sample_manager = None" "event_callback sample_manager"
  by (simp_all add: nlmon_nl_enable_route_def open_socket_def nl_socket_alloc_def nl_cb_alloc_def nl_connect_def
    nl_socket_set_nonblocking_def nl_socket_add_memberships_def sample_sys_def sample_manager_def nlmon_nl_manager_init_def nlmon_nl_set_callback_def
    nl_socket_disable_seq_check_def)


section \<open>Events of the other sockets\<close>

text \<open>
  A socket that was enabled by one of the three functions for generic, diagnostic and netfilter messages: its own callback
  set has no sequence check, only the one that was allocated for the manager is used, and it has none.
\<close>

definition checks_sequence :: "nl_handler nl_sock option \<Rightarrow> nl_handler cb_fn nl_cb option \<Rightarrow> u32 \<Rightarrow> bool" where
  "checks_sequence sock cbs now \<longleftrightarrow> (\<exists>sk cb. sock = Some sk \<and> cbs = Some cb \<and> s_seq_expect sk = now \<and> \<not> s_peek sk \<and>
     cb_set cb NL_CB_SEQ_CHECK = None \<and> cb_set cb NL_CB_MSG_IN = None \<and> cb_set cb NL_CB_INVALID = None)"

lemma open_socket_failed: "open_socket sys protocol groups = (ret, None) \<Longrightarrow> ret < 0"
  by (auto simp: open_socket_def nl_connect_def split: option.splits if_splits)

lemma enable_checks:
  "nlmon_nl_enable_generic sys mgr0 = (0, mgr) \<Longrightarrow> genl_sock mgr0 = None \<Longrightarrow> enable_genl mgr \<and> checks_sequence (genl_sock mgr) (genl_cb mgr) (sys_now sys)"
  "nlmon_nl_enable_diag sys mgr0 = (0, mgr) \<Longrightarrow> diag_sock mgr0 = None \<Longrightarrow> enable_diag mgr \<and> checks_sequence (diag_sock mgr) (diag_cb mgr) (sys_now sys)"
  "nlmon_nl_enable_netfilter sys mgr0 = (0, mgr) \<Longrightarrow> nf_sock mgr0 = None \<Longrightarrow> enable_netfilter mgr \<and> checks_sequence (nf_sock mgr) (nf_cb mgr) (sys_now sys)"
  by (auto simp: nlmon_nl_enable_generic_def nlmon_nl_enable_diag_def nlmon_nl_enable_netfilter_def checks_sequence_def nl_cb_set_def
    split: prod.splits option.splits dest!: open_socket_opened open_socket_failed nl_cb_alloc_empty)

lemma receive_seq_mismatch:
  assumes "checks_sequence (Some sk) (Some cb) now" "ctx_ok ctx" "frame f" "length (f @ others) \<le> ctx_page_size ctx" "frame_seq f \<noteq> now"
  shows "receive ctx sk cb (Recv_Data (f @ others) False False True # rs) run = Some (Ok (- NLE_SEQ_MISMATCH, sk, run, rs))"
proof -
  have cb: "s_seq_expect sk = now" "\<not> s_peek sk" "cb_set cb NL_CB_SEQ_CHECK = None" "cb_set cb NL_CB_MSG_IN = None" "cb_set cb NL_CB_INVALID = None"
    using assms(1) by (auto simp: checks_sequence_def)
  have ctx: "\<And>i k. ctx_recv_mem ctx i k" "\<And>k. length (ctx_junk ctx k) = k" "ctx_page_size ctx < 2 ^ 31" using assms(2) by (auto simp: ctx_ok_def)
  show ?thesis
    using recvmsgs_seq_mismatch [where call = "call_callback ctx" and call_err = "\<lambda>_ _ u. Ok (0, u)" and grow = "ctx_grow ctx" and junk = "ctx_junk ctx"
        and mem = "ctx_recv_mem ctx" and rs = rs and st = "\<lparr>seq_expect = s_seq_expect sk, multipart = False, messages = 0, user = run\<rparr>",
        OF cb(4,3,5) ctx(2,1) assms(3,4) ctx(3)] cb(1,2) assms(5)
    by (simp add: receive_def nl_recvmsgs_def)
qed

definition genl_part :: "nlmon_nl_manager \<Rightarrow> nl_handler nl_sock option \<times> nl_handler cb_fn nl_cb option \<times> bool" where
  "genl_part mgr = (genl_sock mgr, genl_cb mgr, enable_genl mgr)"

definition diag_part :: "nlmon_nl_manager \<Rightarrow> nl_handler nl_sock option \<times> nl_handler cb_fn nl_cb option \<times> bool" where
  "diag_part mgr = (diag_sock mgr, diag_cb mgr, enable_diag mgr)"

definition nf_part :: "nlmon_nl_manager \<Rightarrow> nl_handler nl_sock option \<times> nl_handler cb_fn nl_cb option \<times> bool" where
  "nf_part mgr = (nf_sock mgr, nf_cb mgr, enable_netfilter mgr)"

lemmas part_defs = genl_part_def diag_part_def nf_part_def

text \<open>Every step of the configuration leaves the protocols of the other steps alone.\<close>

lemma enable_route_parts:
  "nlmon_nl_enable_route sys mgr = (ret, mgr') \<Longrightarrow> genl_part mgr' = genl_part mgr \<and> diag_part mgr' = diag_part mgr \<and> nf_part mgr' = nf_part mgr"
  by (auto simp: nlmon_nl_enable_route_def part_defs split: if_splits prod.splits option.splits)

lemma enable_generic_parts:
  "nlmon_nl_enable_generic sys mgr = (ret, mgr') \<Longrightarrow> diag_part mgr' = diag_part mgr \<and> nf_part mgr' = nf_part mgr"
  by (auto simp: nlmon_nl_enable_generic_def part_defs split: if_splits prod.splits option.splits)

lemma enable_diag_parts:
  "nlmon_nl_enable_diag sys mgr = (ret, mgr') \<Longrightarrow> genl_part mgr' = genl_part mgr \<and> nf_part mgr' = nf_part mgr"
  by (auto simp: nlmon_nl_enable_diag_def part_defs split: if_splits prod.splits option.splits)

lemma enable_netfilter_parts:
  "nlmon_nl_enable_netfilter sys mgr = (ret, mgr') \<Longrightarrow> genl_part mgr' = genl_part mgr \<and> diag_part mgr' = diag_part mgr"
  by (auto simp: nlmon_nl_enable_netfilter_def part_defs split: if_splits prod.splits option.splits)

lemma resolve_families_parts:
  "genl_part (fold (\<lambda>name mgr. snd (nlmon_nl_resolve_family resolve mgr name)) names mgr) = genl_part mgr \<and>
   diag_part (fold (\<lambda>name mgr. snd (nlmon_nl_resolve_family resolve mgr name)) names mgr) = diag_part mgr \<and>
   nf_part (fold (\<lambda>name mgr. snd (nlmon_nl_resolve_family resolve mgr name)) names mgr) = nf_part mgr"
  by (induction names arbitrary: mgr) (simp_all add: nlmon_nl_resolve_family_def part_defs Let_def)

lemma cache_init_parts:
  "p \<in> {genl_part, diag_part, nf_part} \<Longrightarrow> p (snd (enable_if b (nlmon_nl_cache_init_link mem dump) mgr)) = p mgr"
  "p \<in> {genl_part, diag_part, nf_part} \<Longrightarrow> p (snd (enable_if b (nlmon_nl_cache_init_addr mem dump) mgr)) = p mgr"
  "p \<in> {genl_part, diag_part, nf_part} \<Longrightarrow> p (snd (enable_if b (nlmon_nl_cache_init_route mem dump) mgr)) = p mgr"
  by (auto simp: enable_if_def nlmon_nl_cache_init_link_def nlmon_nl_cache_init_addr_def nlmon_nl_cache_init_route_def part_defs split: option.splits)

lemma enable_zero:
  "nlmon_nl_enable_generic sys mgr = (ret, mgr') \<Longrightarrow> 0 \<le> ret \<Longrightarrow> ret = 0"
  "nlmon_nl_enable_diag sys mgr = (ret, mgr') \<Longrightarrow> 0 \<le> ret \<Longrightarrow> ret = 0"
  "nlmon_nl_enable_netfilter sys mgr = (ret, mgr') \<Longrightarrow> 0 \<le> ret \<Longrightarrow> ret = 0"
  by (auto simp: nlmon_nl_enable_generic_def nlmon_nl_enable_diag_def nlmon_nl_enable_netfilter_def
    split: prod.splits option.splits if_splits dest!: open_socket_failed)

lemma apply_config_checks:
  assumes "nlmon_nl_manager_init mem0 = Some mgr0" "nlmon_nl_apply_config sys resolve mem dumps mgr0 config = (0, mgr)"
    and "protocols_generic config" "protocols_sock_diag config" "protocols_netfilter config"
  shows "enable_genl mgr \<and> checks_sequence (genl_sock mgr) (genl_cb mgr) (sys_now (sys NETLINK_GENERIC))"
    "enable_diag mgr \<and> checks_sequence (diag_sock mgr) (diag_cb mgr) (sys_now (sys NETLINK_SOCK_DIAG))"
    "enable_netfilter mgr \<and> checks_sequence (nf_sock mgr) (nf_cb mgr) (sys_now (sys NETLINK_NETFILTER))"
proof -
  have init: "genl_sock mgr0 = None" "diag_sock mgr0 = None" "nf_sock mgr0 = None"
    using assms(1) by (auto simp: nlmon_nl_manager_init_def split: if_splits)
  obtain r1 m1 where s1: "enable_if (protocols_route config) (nlmon_nl_enable_route (sys NETLINK_ROUTE)) mgr0 = (r1, m1)" by fastforce
  obtain r2 m2 where s2: "nlmon_nl_enable_generic (sys NETLINK_GENERIC) m1 = (r2, m2)" by fastforce
  define m3 where "m3 = fold (\<lambda>name mgr. snd (nlmon_nl_resolve_family resolve mgr name)) (families config) m2"
  obtain r4 m4 where s4: "nlmon_nl_enable_diag (sys NETLINK_SOCK_DIAG) m3 = (r4, m4)" by fastforce
  obtain r5 m5 where s5: "nlmon_nl_enable_netfilter (sys NETLINK_NETFILTER) m4 = (r5, m5)" by fastforce
  have eqs: "r1 \<ge> 0" "r2 \<ge> 0" "r4 \<ge> 0" "r5 \<ge> 0" and mgr: "p mgr = p m5" if "p \<in> {genl_part, diag_part, nf_part}" for p
    using assms(2) that cache_init_parts [of p]
    by (auto simp: nlmon_nl_apply_config_def s1 s2 s4 s5 m3_def [symmetric] enable_if_def [of True] assms(3-5) Let_def split: if_splits)
  have m1: "genl_part m1 = genl_part mgr0" "diag_part m1 = diag_part mgr0" "nf_part m1 = nf_part mgr0"
    using s1 enable_route_parts by (auto simp: enable_if_def split: if_splits)
  have m2: "diag_part m2 = diag_part mgr0" "nf_part m2 = nf_part mgr0" using enable_generic_parts [OF s2] m1 by simp_all
  have m3: "genl_part m3 = genl_part m2" "diag_part m3 = diag_part mgr0" "nf_part m3 = nf_part mgr0"
    using resolve_families_parts m2 by (simp_all add: m3_def)
  have m4: "genl_part m4 = genl_part m2" "nf_part m4 = nf_part mgr0" using enable_diag_parts [OF s4] m3 by simp_all
  have m5: "genl_part m5 = genl_part m2" "diag_part m5 = diag_part m4" using enable_netfilter_parts [OF s5] m4 by simp_all
  have same: "genl_part mgr = genl_part m2" "diag_part mgr = diag_part m4" "nf_part mgr = nf_part m5"
    using mgr [of genl_part] mgr [of diag_part] mgr [of nf_part] m5 by simp_all
  show "enable_genl mgr \<and> checks_sequence (genl_sock mgr) (genl_cb mgr) (sys_now (sys NETLINK_GENERIC))"
    using enable_checks(1) [of "sys NETLINK_GENERIC" m1 m2] enable_zero(1) [OF s2] s2 eqs m1(1) init same(1) by (auto simp: part_defs)
  show "enable_diag mgr \<and> checks_sequence (diag_sock mgr) (diag_cb mgr) (sys_now (sys NETLINK_SOCK_DIAG))"
    using enable_checks(2) [of "sys NETLINK_SOCK_DIAG" m3 m4] enable_zero(2) [OF s4] s4 eqs m3(2) init same(2) by (auto simp: part_defs)
  show "enable_netfilter mgr \<and> checks_sequence (nf_sock mgr) (nf_cb mgr) (sys_now (sys NETLINK_NETFILTER))"
    using enable_checks(3) [of "sys NETLINK_NETFILTER" m4 m5] enable_zero(3) [OF s5] s5 eqs m4(2) init same(3) by (auto simp: part_defs)
qed


text \<open>A connection tracking notification on a system whose clock is not at 0.\<close>

definition sample_config :: nlmon_netlink_config where
  "sample_config = \<lparr>protocols_route = True, protocols_generic = True, protocols_sock_diag = True, protocols_netfilter = True,
     families = [''nl80211''], caching_enabled = False, caching_link_cache = False, caching_addr_cache = False, caching_route_cache = False\<rparr>"

definition sample_notification :: "u8 list" where
  "sample_notification = le_bytes 4 20 @ le_bytes 2 256 @ le_bytes 2 0 @ le_bytes 4 0 @ le_bytes 4 0 @ [2, 0, 0, 0]"

lemma sample_configured:
  "\<exists>mgr. nlmon_nl_apply_config (\<lambda>_. sample_sys) (\<lambda>_. 28) (\<lambda>_. True) (0, 0, 0) (the (nlmon_nl_manager_init (\<lambda>_. True))) sample_config = (0, mgr)"
  by (simp add: nlmon_nl_apply_config_def enable_if_def sample_config_def nlmon_nl_manager_init_def nlmon_nl_enable_route_def
    nlmon_nl_enable_generic_def nlmon_nl_enable_diag_def nlmon_nl_enable_netfilter_def open_socket_def nl_socket_alloc_def nl_cb_alloc_def
    nl_connect_def nl_socket_set_nonblocking_def nl_socket_add_memberships_def nl_socket_disable_seq_check_def sample_sys_def Let_def
    nlmon_nl_resolve_family_def)


section \<open>The link cache\<close>

text \<open>C40. A link cache breaks link monitoring. Once \<open>nlmon_nl_cache_init_link\<close> has created the cache, the handler's behaviour on
  every well-formed RTM_NEWLINK message is undefined: the cache operations of nlmon have no list of message types, so the
  search for the type of the message reads behind the object. (Without the cache, and for RTM_DELLINK, the message is
  handled.)\<close>

theorem link_cache_undefined:
  assumes "nlmon_nl_cache_init_link mem dump mgr0 = (0, mgr)" "link_cache mgr0 = None" "link_ok l" "lm_type l = 16"
  shows "nlmon_route_msg_handler env mem' time mgr (link_bytes l) = UB"
proof -
  have cache: "link_cache mgr = Some \<lparr>c_nitems = 0, c_ops = link_cache_ops\<rparr>"
    using assms(1,2) by (auto simp: nlmon_nl_cache_init_link_def nl_cache_alloc_def split: if_splits)
  let ?m = "link_bytes l"
  have m: "?m = message_bytes (header_bytes (lm_type l) (lm_flags l) (lm_seq l) (lm_pid l)) (lm_info l) (lm_attrs l)"
    by (simp add: link_bytes_def)
  have f: "frame ?m" using link_frame [OF assms(3)] by (simp add: data_frame_def)
  have "32 \<le> length ?m" using assms(3) by (simp add: m message_bytes_def link_ok_def)
  then have "nlmsg_valid_hdr ?m 0 16 = Ok True"
    using frame_fields(1) [OF f, where pre = "[]" and post = "[]"] by (simp add: nlmsg_valid_hdr_def nlmsg_msg_size_def)
  then have "nlmon_nl_cache_update_link mgr ?m = UB"
    using message_header(1) [OF m] assms(4)
    by (simp add: nlmon_nl_cache_update_link_def cache nl_cache_parse_and_add_def nl_cache_parse_def link_cache_ops_def)
  then show ?thesis
    using header_event_message [OF m, of NETLINK_ROUTE "time * 1000000000"] assms(4) by (simp add: nlmon_route_msg_handler_def Let_def)
qed

theorem link_cache_undefined_witness:
  "\<exists>mgr. nlmon_nl_cache_init_link (\<lambda>_. True) 0 (snd (nlmon_nl_enable_route sample_sys sample_manager)) = (0, mgr) \<and>
     nlmon_route_msg_handler sample_env (\<lambda>_. True) 5 mgr (link_bytes (sample_link 16)) = UB"
proof -
  obtain mgr0 where en: "nlmon_nl_enable_route sample_sys sample_manager = (0, mgr0)" using sample_enable_route(1) by blast
  have mgr0: "route_sock mgr0 \<noteq> None" "enable_route mgr0" "link_cache mgr0 = None"
    using enable_route_enabled [OF en sample_enable_route(2)] sample_enable_route(3) by auto
  then have init: "nlmon_nl_cache_init_link (\<lambda>_. True) 0 mgr0 = (0, mgr0\<lparr>link_cache := Some \<lparr>c_nitems = 0, c_ops = link_cache_ops\<rparr>\<rparr>)"
    by (simp add: nlmon_nl_cache_init_link_def nl_cache_alloc_def)
  then show ?thesis
    using link_cache_undefined [OF init mgr0(3) sample_link_ok(1)] en by (simp add: sample_link_def)
qed

end
