(* ===== verification/Nl_Recv_Invariant.thy ===== *)
theory Nl_Recv_Invariant
  imports Nl_Recv
begin

text \<open>
  An invariant rule for the receive loops of \<^verbatim>\<open>Nl_Recv\<close>: whatever every callback preserves of its owner's state, receiving
  preserves. Both loops are partial functions; the rule is proved by their fixed point induction.
\<close>

section \<open>One message\<close>

definition keeps :: "('s \<Rightarrow> bool) \<Rightarrow> 's recv_action \<Rightarrow> bool" where
  "keeps I a \<longleftrightarrow> (\<forall>st fl st'. I (user st) \<longrightarrow> a st = Ok (fl, st') \<longrightarrow> I (user st'))"

definition callbacks_keep :: "('s \<Rightarrow> bool) \<Rightarrow> ('f \<Rightarrow> 'm \<Rightarrow> 's \<Rightarrow> (int \<times> 's) outcome) \<Rightarrow> bool" where
  "callbacks_keep I call \<longleftrightarrow> (\<forall>f m u err u'. I u \<longrightarrow> call f m u = Ok (err, u') \<longrightarrow> I u')"

lemma keepsD: "keeps I a \<Longrightarrow> I (user st) \<Longrightarrow> a st = Ok (fl, st') \<Longrightarrow> I (user st')"
  by (simp add: keeps_def)

lemma keeps_cb_call [intro]: "callbacks_keep I call \<Longrightarrow> keeps I (nl_cb_call call cb type msg otherwise)"
  by (force simp: keeps_def callbacks_keep_def nl_cb_call_def bind_outcome_Ok_iff split: option.splits)

lemma keeps_then_do [intro]:
  assumes "keeps I a" "keeps I b"
  shows "keeps I (then_do a b)"
  unfolding keeps_def
proof (intro allI impI)
  fix st fl st'
  assume I: "I (user st)" and r: "then_do a b st = Ok (fl, st')"
  obtain fl1 st1 where a: "a st = Ok (fl1, st1)" using r by (auto simp: then_do_def bind_outcome_Ok_iff)
  then have I1: "I (user st1)" by (rule keepsD [OF assms(1) I])
  show "I (user st')"
  proof (cases "fl1 = Proceed")
    case True
    then have "b st1 = Ok (fl, st')" using r a by (simp add: then_do_def)
    then show ?thesis by (rule keepsD [OF assms(2) I1])
  next
    case False
    then show ?thesis using r a I1 by (simp add: then_do_def)
  qed
qed

lemma keeps_check_seq [intro]:
  assumes "callbacks_keep I call"
  shows "keeps I (check_seq call cb msg seq)"
  unfolding keeps_def
proof (intro allI impI)
  fix st fl st'
  assume I: "I (user st)" and r: "check_seq call cb msg seq st = Ok (fl, st')"
  show "I (user st')"
    using r keepsD [OF keeps_cb_call [OF assms] I] I by (simp add: check_seq_def split: if_splits)
qed

lemma keeps_note_header [intro]: "keeps I (note_header type flags)"
  by (auto simp: keeps_def note_header_def)

lemma keeps_error_message:
  assumes "callbacks_keep I call" "callbacks_keep I call_err"
  shows "keeps I (error_message call call_err cb m hdr len msg)"
  unfolding keeps_def
proof (intro allI impI)
  fix st fl st'
  assume I: "I (user st)" and r: "error_message call call_err cb m hdr len msg st = Ok (fl, st')"
  note kept = keepsD [OF keeps_cb_call [OF assms(1)] I]
  show "I (user st')"
  proof (cases "len < nlmsg_msg_size 20")
    case True
    then show ?thesis using r kept by (simp add: error_message_def)
  next
    case False
    then obtain e where e: "read_le 4 m (nlmsg_data hdr) = Ok e" using r by (auto simp: error_message_def bind_outcome_Ok_iff)
    show ?thesis
    proof (cases "to_int (int e) = 0")
      case True
      then show ?thesis using r kept False e by (simp add: error_message_def)
    next
      case nonzero: False
      show ?thesis
      proof (cases "cb_err cb")
        case None
        then show ?thesis using r False e nonzero I by (simp add: error_message_def)
      next
        case (Some f)
        then obtain err u where "call_err f (to_int (int e)) (user st) = Ok (err, u)" "st' = st\<lparr>user := u\<rparr>"
          using r False e nonzero by (auto simp: error_message_def bind_outcome_Ok_iff Let_def)
        then show ?thesis using assms(2) I unfolding callbacks_keep_def by auto
      qed
    qed
  qed
qed

lemma keeps_by_type:
  assumes "callbacks_keep I call" "callbacks_keep I call_err"
  shows "keeps I (by_type call call_err cb m hdr len type msg)"
  unfolding keeps_def
proof (intro allI impI)
  fix st fl st'
  assume I: "I (user st)" and r: "by_type call call_err cb m hdr len type msg st = Ok (fl, st')"
  have I': "I (user (st\<lparr>multipart := False\<rparr>))" using I by simp
  note kept = keepsD [OF keeps_cb_call [OF assms(1)] I] keepsD [OF keeps_cb_call [OF assms(1)] I']
    keepsD [OF keeps_error_message [OF assms] I]
  show "I (user st')" using r unfolding by_type_def by (simp split: if_splits) (blast intro: kept)+
qed

lemma keeps_nothing: "keeps I (\<lambda>st. Ok (Proceed, st))"
  by (simp add: keeps_def)

lemma keeps_if: "keeps I a \<Longrightarrow> keeps I b \<Longrightarrow> keeps I (if c then a else b)"
  by simp

lemma keeps_recv_one:
  assumes "callbacks_keep I call" "callbacks_keep I call_err"
  shows "keeps I (recv_one call call_err mem junk cb m hdr)"
proof -
  have "keeps I (then_do (nl_cb_call call cb NL_CB_MSG_IN msg Proceed)
      (then_do (check_seq call cb msg seq)
      (then_do (note_header type flags)
      (then_do (if and flags NLM_F_ACK \<noteq> 0 then nl_cb_call call cb NL_CB_SEND_ACK msg Proceed else (\<lambda>st. Ok (Proceed, st)))
        (by_type call call_err cb m hdr len type msg)))))" for msg seq type flags len
    by (intro keeps_then_do keeps_cb_call keeps_check_seq keeps_note_header keeps_by_type keeps_if keeps_nothing assms)
  note kept = this
  show ?thesis
    unfolding keeps_def
  proof (intro allI impI)
    fix st fl st'
    assume I: "I (user st)" and r: "recv_one call call_err mem junk cb m hdr st = Ok (fl, st')"
    have I1: "I (user (st\<lparr>messages := messages st + 1\<rparr>))" using I by simp
    obtain x where x: "nlmsg_convert (mem (messages st)) junk m hdr = Ok x" using r by (auto simp: recv_one_def bind_outcome_Ok_iff)
    show "I (user st')"
    proof (cases x)
      case None
      then show ?thesis using r x I by (simp add: recv_one_def)
    next
      case (Some nm)
      obtain len type flags seq where h: "nlh_len m hdr = Ok len" "nlh_type m hdr = Ok type" "nlh_flags m hdr = Ok flags" "nlh_seq m hdr = Ok seq"
        using r x Some by (auto simp: recv_one_def bind_outcome_Ok_iff)
      show ?thesis
        by (rule keepsD [OF kept I1]) (use r x Some h in \<open>simp add: recv_one_def Let_def\<close>)
    qed
  qed
qed

section \<open>Both loops\<close>

definition loop_keeps ::
  "('s \<Rightarrow> bool) \<Rightarrow> ('f \<Rightarrow> u8 list \<Rightarrow> 's \<Rightarrow> (int \<times> 's) outcome) \<Rightarrow> ('f \<Rightarrow> int \<Rightarrow> 's \<Rightarrow> (int \<times> 's) outcome) \<Rightarrow> (nat \<Rightarrow> alloc) \<Rightarrow>
   (nat \<Rightarrow> u8 list) \<Rightarrow> 'f nl_cb \<Rightarrow> u8 list \<Rightarrow> nat \<Rightarrow> int \<Rightarrow> 's recv_state \<Rightarrow> (flow \<times> 's recv_state) outcome \<Rightarrow> bool" where
  "loop_keeps I call call_err mem junk cb m hdr n st r \<longleftrightarrow> (callbacks_keep I call \<longrightarrow> callbacks_keep I call_err \<longrightarrow> I (user st) \<longrightarrow>
     (\<forall>fl st'. r = Ok (fl, st') \<longrightarrow> I (user st')))"

lemma keeps_recv_loop:
  assumes "recv_loop call call_err mem junk cb m hdr n st = Some r"
  shows "loop_keeps I call call_err mem junk cb m hdr n st r"
proof (rule recv_loop.raw_induct [where P = "loop_keeps I", OF _ assms])
  fix rec call call_err mem junk cb m hdr n st r
  assume IH: "\<And>call call_err mem junk cb m hdr n st r. rec call call_err mem junk cb m hdr n st = Some r \<Longrightarrow>
      loop_keeps I call call_err mem junk cb m hdr n st r"
  assume step: "(case nlmsg_ok m hdr n of
        Ok ok \<Rightarrow>
          if \<not> ok then Some (Ok (Proceed, st))
          else (case recv_one call call_err mem junk cb m hdr st of
            Ok (fl, st') \<Rightarrow>
              if fl = Proceed \<or> fl = Skip then
                (case nlmsg_next m hdr n of
                   Ok (hdr', n') \<Rightarrow> if hdr' < 0 then Some UB else rec call call_err mem junk cb m (nat hdr') n' st'
                 | Fail \<Rightarrow> Some Fail | UB \<Rightarrow> Some UB)
              else Some (Ok (fl, st'))
          | Fail \<Rightarrow> Some Fail | UB \<Rightarrow> Some UB)
      | Fail \<Rightarrow> Some Fail | UB \<Rightarrow> Some UB) = Some r"
  show "loop_keeps I call call_err mem junk cb m hdr n st r"
    unfolding loop_keeps_def
  proof (intro impI allI)
    fix fl' st''
    assume cb: "callbacks_keep I call" "callbacks_keep I call_err" and I: "I (user st)" and r: "r = Ok (fl', st'')"
    obtain ok where ok: "nlmsg_ok m hdr n = Ok ok" using step r by (cases "nlmsg_ok m hdr n") auto
    show "I (user st'')"
    proof (cases ok)
      case False
      then show ?thesis using step ok r I by simp
    next
      case True
      then obtain fl st' where one: "recv_one call call_err mem junk cb m hdr st = Ok (fl, st')"
        using step ok r by (cases "recv_one call call_err mem junk cb m hdr st") auto
      have I': "I (user st')" by (rule keepsD [OF keeps_recv_one [OF cb] I one])
      show ?thesis
      proof (cases "fl = Proceed \<or> fl = Skip")
        case False
        then show ?thesis using step ok True one r I' by simp
      next
        case go: True
        then obtain hdr' n' where nx: "nlmsg_next m hdr n = Ok (hdr', n')"
          using step ok True one r by (cases "nlmsg_next m hdr n") auto
        have "rec call call_err mem junk cb m (nat hdr') n' st' = Some r"
          using step ok True one go nx r by (simp split: if_splits)
        from IH [OF this] show ?thesis using cb I' r unfolding loop_keeps_def by blast
      qed
    qed
  qed
qed

definition recv_keeps ::
  "('s \<Rightarrow> bool) \<Rightarrow> ('f \<Rightarrow> u8 list \<Rightarrow> 's \<Rightarrow> (int \<times> 's) outcome) \<Rightarrow> ('f \<Rightarrow> int \<Rightarrow> 's \<Rightarrow> (int \<times> 's) outcome) \<Rightarrow> (nat \<Rightarrow> alloc) \<Rightarrow>
   (nat \<Rightarrow> u8 list) \<Rightarrow> (nat \<Rightarrow> u8 list) \<Rightarrow> nat \<Rightarrow> bool \<Rightarrow> 'f nl_cb \<Rightarrow> recv_result list \<Rightarrow> 's recv_state \<Rightarrow>
   (int \<times> 's recv_state \<times> recv_result list) outcome \<Rightarrow> bool" where
  "recv_keeps I call call_err mem junk grow page_size peek cb rs st r \<longleftrightarrow> (callbacks_keep I call \<longrightarrow> callbacks_keep I call_err \<longrightarrow> I (user st) \<longrightarrow>
     (\<forall>err st' rs'. r = Ok (err, st', rs') \<longrightarrow> I (user st')))"

lemma keeps_recvmsgs:
  assumes "recvmsgs call call_err mem junk grow page_size peek cb rs st = Some r"
  shows "recv_keeps I call call_err mem junk grow page_size peek cb rs st r"
proof (rule recvmsgs.raw_induct [where P = "recv_keeps I", OF _ assms])
  fix rec call call_err mem junk grow page_size peek cb rs st r
  assume IH: "\<And>call call_err mem junk grow page_size peek cb rs st r. rec call call_err mem junk grow page_size peek cb rs st = Some r \<Longrightarrow>
      recv_keeps I call call_err mem junk grow page_size peek cb rs st r"
  assume step: "(case nl_recv (mem (messages st)) grow page_size peek rs of
        (n, x, rs') \<Rightarrow>
          if n \<le> 0 then Some (Ok (n, st, rs'))
          else (case x of
            None \<Rightarrow> Some Fail
          | Some buf \<Rightarrow>
              (case recv_loop call call_err mem junk cb buf 0 n st of
                 None \<Rightarrow> None
               | Some res \<Rightarrow>
                   (case res of
                      Ok (fl, st') \<Rightarrow>
                        (case fl of
                           Stop \<Rightarrow> Some (Ok (0, st', rs'))
                         | Out err \<Rightarrow> Some (Ok (err, st', rs'))
                         | _ \<Rightarrow> if multipart st' then rec call call_err mem junk grow page_size peek cb rs' st'
                                else Some (Ok (0, st', rs')))
                    | Fail \<Rightarrow> Some Fail | UB \<Rightarrow> Some UB)))) = Some r"
  show "recv_keeps I call call_err mem junk grow page_size peek cb rs st r"
    unfolding recv_keeps_def
  proof (intro impI allI)
    fix err st'' rs''
    assume cb: "callbacks_keep I call" "callbacks_keep I call_err" and I: "I (user st)" and r: "r = Ok (err, st'', rs'')"
    obtain n x rs' where rv: "nl_recv (mem (messages st)) grow page_size peek rs = (n, x, rs')" by (metis prod_cases3)
    show "I (user st'')"
    proof (cases "n \<le> 0")
      case True
      then show ?thesis using step rv r I by simp
    next
      case False
      then obtain buf where buf: "x = Some buf" using step rv r by (cases x) auto
      then obtain res where res: "recv_loop call call_err mem junk cb buf 0 n st = Some res"
        using step rv False by (cases "recv_loop call call_err mem junk cb buf 0 n st") auto
      then obtain fl st' where fl: "res = Ok (fl, st')" using step rv False buf r by (cases res) auto
      have I': "I (user st')" using keeps_recv_loop [OF res, of I] cb I fl unfolding loop_keeps_def by blast
      show ?thesis
      proof (cases "multipart st' \<and> (fl = Proceed \<or> fl = Skip)")
        case True
        then have "rec call call_err mem junk grow page_size peek cb rs' st' = Some r"
          using step rv False buf res fl by auto
        from IH [OF this] show ?thesis using cb I' r unfolding recv_keeps_def by blast
      next
        case no: False
        then show ?thesis using step rv False buf res fl r I' by (cases fl) auto
      qed
    qed
  qed
qed

lemma nl_recvmsgs_keeps:
  assumes "callbacks_keep I call" "callbacks_keep I call_err" "I u"
    and "nl_recvmsgs call call_err mem junk grow page_size sk cb rs u = Some (Ok (err, sk', u', rs'))"
  shows "I u'"
proof -
  let ?st = "\<lparr>seq_expect = s_seq_expect sk, multipart = False, messages = 0, user = u\<rparr>"
  obtain r where r: "recvmsgs call call_err mem junk grow page_size (s_peek sk) cb rs ?st = Some r"
    using assms(4) by (auto simp: nl_recvmsgs_def)
  then obtain st' where "r = Ok (err, st', rs')" "u' = user st'"
    using assms(4) by (auto simp: nl_recvmsgs_def bind_outcome_Ok_iff)
  then show ?thesis using keeps_recvmsgs [OF r, of I] assms(1-3) unfolding recv_keeps_def by simp
qed

end
