(* ===== verification/Nl_Typing.thy ===== *)
theory Nl_Typing
  imports Nl_Manager Nl_Recv_Invariant Filter_Semantics
begin

text \<open>
  Payload types across components. An event carries its payload as a pointer whose type is known only from protocol and
  message type, and the filter evaluator reads it by the name of the field. This theory shows which events the
  manager produces, and for which filters reading them is defined.
\<close>

section \<open>Kinds\<close>

datatype payload_kind = Link_Payload | Addr_Payload | Route_Payload | Neigh_Payload | Diag_Payload | Ct_Payload | Nl80211_Payload | Qca_Payload

fun kind_of :: "nl_data \<Rightarrow> payload_kind option" where
  "kind_of (NL_DATA_LINK _) = Some Link_Payload"
| "kind_of (NL_DATA_ADDR _) = Some Addr_Payload"
| "kind_of (NL_DATA_ROUTE _) = Some Route_Payload"
| "kind_of (NL_DATA_NEIGH _) = Some Neigh_Payload"
| "kind_of (NL_DATA_DIAG _) = Some Diag_Payload"
| "kind_of (NL_DATA_CONNTRACK _) = Some Ct_Payload"
| "kind_of (NL_DATA_NL80211 _) = Some Nl80211_Payload"
| "kind_of (NL_DATA_QCA_VENDOR _) = Some Qca_Payload"
| "kind_of _ = None"

text \<open>The kinds that a message of a protocol and type is decoded to.\<close>

definition message_kinds :: "i32 \<Rightarrow> u16 \<Rightarrow> payload_kind list" where
  "message_kinds protocol type =
     (if protocol = NETLINK_ROUTE then
        if type \<in> set link_types then [Link_Payload]
        else if type \<in> set addr_types then [Addr_Payload]
        else if type \<in> set route_types then [Route_Payload]
        else if type \<in> set neigh_types then [Neigh_Payload]
        else []
      else if protocol = NETLINK_GENERIC then [Nl80211_Payload, Qca_Payload]
      else if protocol = NETLINK_SOCK_DIAG then [Diag_Payload]
      else if protocol = NETLINK_NETFILTER then [Ct_Payload]
      else [])"

definition event_typed :: "nlmon_event \<Rightarrow> bool" where
  "event_typed e \<longleftrightarrow> (\<exists>k \<in> set (message_kinds (nl_protocol (ev_netlink e)) (nl_msg_type (ev_netlink e))). kind_of (nl_data (ev_netlink e)) = Some k)"

text \<open>The payload a field reads; the other fields are read from the event itself.\<close>

fun field_kind :: "filter_field_type \<Rightarrow> payload_kind option" where
  "field_kind (FILTER_FIELD _) = None"
| "field_kind (FILTER_FIELD_NL _) = None"
| "field_kind (FILTER_FIELD_NL_LINK _) = Some Link_Payload"
| "field_kind (FILTER_FIELD_NL_ADDR _) = Some Addr_Payload"
| "field_kind (FILTER_FIELD_NL_ROUTE _) = Some Route_Payload"
| "field_kind (FILTER_FIELD_NL_NEIGH _) = Some Neigh_Payload"
| "field_kind (FILTER_FIELD_NL_DIAG _) = Some Diag_Payload"
| "field_kind (FILTER_FIELD_NL_CT _) = Some Ct_Payload"
| "field_kind (FILTER_FIELD_NL_NL80211 _) = Some Nl80211_Payload"
| "field_kind (FILTER_FIELD_NL_QCA _) = Some Qca_Payload"

section \<open>Evaluating a filter\<close>

lemma value_not_UB [simp]: "strdup_value mem s \<noteq> UB" "num_u w \<noteq> UB" "num_s v \<noteq> UB"
  by (simp_all add: strdup_value_def num_u_def num_s_def)

lemma extract_not_UB: "extract_basic mem ev b \<noteq> UB" "extract_nl mem nl c \<noteq> UB"
  by (cases b; simp add: extract_basic_def) (cases c; simp add: extract_nl_def)

lemma extract_payload_UB:
  "extract_link mem d b1 = UB \<longleftrightarrow> d \<noteq> NL_DATA_NULL \<and> kind_of d \<noteq> Some Link_Payload"
  "extract_addr mem d b2 = UB \<longleftrightarrow> d \<noteq> NL_DATA_NULL \<and> kind_of d \<noteq> Some Addr_Payload"
  "extract_route mem d b3 = UB \<longleftrightarrow> d \<noteq> NL_DATA_NULL \<and> kind_of d \<noteq> Some Route_Payload"
  "extract_neigh mem d b4 = UB \<longleftrightarrow> d \<noteq> NL_DATA_NULL \<and> kind_of d \<noteq> Some Neigh_Payload"
  "extract_diag mem d b5 = UB \<longleftrightarrow> d \<noteq> NL_DATA_NULL \<and> kind_of d \<noteq> Some Diag_Payload"
  "extract_ct mem d b6 = UB \<longleftrightarrow> d \<noteq> NL_DATA_NULL \<and> kind_of d \<noteq> Some Ct_Payload"
  "extract_nl80211 mem d b7 = UB \<longleftrightarrow> d \<noteq> NL_DATA_NULL \<and> kind_of d \<noteq> Some Nl80211_Payload"
  "extract_qca mem d b8 = UB \<longleftrightarrow> d \<noteq> NL_DATA_NULL \<and> kind_of d \<noteq> Some Qca_Payload"
  subgoal by (cases d) (cases b1, simp_all add: extract_link_def)+
  subgoal by (cases d) (cases b2, simp_all add: extract_addr_def)+
  subgoal by (cases d) (cases b3, simp_all add: extract_route_def)+
  subgoal by (cases d) (cases b4, simp_all add: extract_neigh_def)+
  subgoal by (cases d) (cases b5, simp_all add: extract_diag_def)+
  subgoal by (cases d) (cases b6, simp_all add: extract_ct_def)+
  subgoal by (cases d) (cases b7, simp_all add: extract_nl80211_def)+
  subgoal by (cases d) (cases b8, simp_all add: extract_qca_def)+
  done

text \<open>Reading is undefined exactly when there is a payload of another kind than the field's.\<close>

lemma extract_field_UB:
  "extract_field mem ev (field_code f) = UB \<longleftrightarrow>
     field_kind f \<noteq> None \<and> nl_data (ev_netlink ev) \<noteq> NL_DATA_NULL \<and> kind_of (nl_data (ev_netlink ev)) \<noteq> field_kind f"
  by (cases f) (simp_all add: extract_field_def field_of_code_code Let_def extract_not_UB extract_payload_UB)

function fields_of :: "filter_node \<Rightarrow> filter_field_type list" where
  "fields_of (FILTER_NODE_FIELD f) = [f]"
| "fields_of (FILTER_NODE_STRING s) = []"
| "fields_of (FILTER_NODE_NUMBER v) = []"
| "fields_of (FILTER_NODE_NOT n) = fields_of n"
| "fields_of (FILTER_NODE_LIST ns) = concat (map fields_of ns)"
| "fields_of (FILTER_NODE_BINARY t l r) = fields_of l @ fields_of r"
  by pat_completeness auto
termination
  by (relation "measure size") (auto simp: less_Suc_eq_le size_list_estimation')

lemma bind_outcome_not_UB: "x \<noteq> UB \<Longrightarrow> (\<And>a. f a \<noteq> UB) \<Longrightarrow> bind_outcome x f \<noteq> UB"
  by (cases x) auto

lemma bind_outcome_UB_iff: "bind_outcome x f = UB \<longleftrightarrow> x = UB \<or> (\<exists>a. x = Ok a \<and> f a = UB)"
  by (cases x) auto

lemma node_value_defined:
  "(\<And>f. f \<in> set (fields_of n) \<Longrightarrow> extract_field (\<lambda>_. True) ev (field_code f) \<noteq> UB) \<Longrightarrow> node_value rc re ev n \<noteq> UB"
  "(\<And>f. f \<in> set (concat (map fields_of ns)) \<Longrightarrow> extract_field (\<lambda>_. True) ev (field_code f) \<noteq> UB) \<Longrightarrow> item_values rc re ev ns \<noteq> UB"
proof (induction rc re ev n and rc re ev ns rule: node_value_item_values.induct)
  case (6 rc re ev t l r)
  have l: "node_value rc re ev l \<noteq> UB" using "6.IH"(1) "6.prems" by simp
  have r: "f \<in> set (fields_of r) \<Longrightarrow> extract_field (\<lambda>_. True) ev (field_code f) \<noteq> UB" for f using "6.prems" by simp
  have "(if t = FILTER_NODE_AND then if x = FILTER_VALUE_BOOL False then Ok x else node_value rc re ev r
       else if t = FILTER_NODE_OR then if x = FILTER_VALUE_BOOL True then Ok x else node_value rc re ev r
       else if t = FILTER_NODE_IN then
         (case r of
            FILTER_NODE_LIST items \<Rightarrow>
              bind_outcome (item_values rc re ev items) (\<lambda>ys. Ok (FILTER_VALUE_BOOL (\<exists>y \<in> set ys. value_relation FILTER_NODE_EQ x y)))
          | _ \<Rightarrow> Fail)
       else bind_outcome (node_value rc re ev r) (\<lambda>y. Ok (FILTER_VALUE_BOOL (binary_value rc re t x y)))) \<noteq> UB" for x
  proof -
    consider "t = FILTER_NODE_AND" | "t = FILTER_NODE_OR" | "t = FILTER_NODE_IN"
      | "t \<noteq> FILTER_NODE_AND" "t \<noteq> FILTER_NODE_OR" "t \<noteq> FILTER_NODE_IN" by blast
    then show ?thesis
    proof cases
      case 1
      then show ?thesis using "6.IH"(2) r by auto
    next
      case 2
      then show ?thesis using "6.IH"(3) r by auto
    next
      case 3
      then show ?thesis using "6.IH"(4) r by (cases r) (auto simp: bind_outcome_UB_iff)
    next
      case 4
      then show ?thesis using "6.IH"(5) r by (auto simp: bind_outcome_UB_iff)
    qed
  qed
  then show ?case unfolding node_value.simps(6) by (rule bind_outcome_not_UB [OF l])
qed (auto simp: bind_outcome_UB_iff)

definition reads_only :: "payload_kind option \<Rightarrow> filter_node \<Rightarrow> bool" where
  "reads_only k n \<longleftrightarrow> (\<forall>f \<in> set (fields_of n). field_kind f = None \<or> field_kind f = k)"

lemma filter_matches_defined:
  assumes "reads_only (kind_of (nl_data (ev_netlink ev))) n"
  shows "\<exists>b. filter_matches rc re ev n = Ok b"
proof -
  have "node_value rc re ev n \<noteq> UB"
    by (rule node_value_defined(1)) (use assms in \<open>auto simp: reads_only_def extract_field_UB\<close>)
  then show ?thesis by (cases "node_value rc re ev n") (auto simp: filter_matches_def)
qed

section \<open>What the parsers produce\<close>

text \<open>\<open>yields P r\<close>: if \<open>r\<close> is a parsed event, \<open>P\<close> holds of it.\<close>

definition yields :: "('e \<Rightarrow> bool) \<Rightarrow> (int \<times> 'e) outcome \<Rightarrow> bool" where
  "yields P r \<longleftrightarrow> (\<forall>ret e. r = Ok (ret, e) \<longrightarrow> \<not> ret < 0 \<longrightarrow> P e)"

lemma yields_Ok: "(\<not> ret < 0 \<Longrightarrow> P e) \<Longrightarrow> yields P (Ok (ret, e))"
  by (simp add: yields_def)

lemma yields_bind: "(\<And>a. x = Ok a \<Longrightarrow> yields P (f a)) \<Longrightarrow> yields P (bind_outcome x f)"
  by (cases x) (simp_all add: yields_def)

lemma yields_if: "(c \<Longrightarrow> yields P a) \<Longrightarrow> (\<not> c \<Longrightarrow> yields P b) \<Longrightarrow> yields P (if c then a else b)"
  by simp

lemma yields_let: "yields P (f a) \<Longrightarrow> yields P (let x = a in f x)"
  by simp

lemma yields_prod: "(\<And>a b. p = (a, b) \<Longrightarrow> yields P (f a b)) \<Longrightarrow> yields P (case p of (a, b) \<Rightarrow> f a b)"
  by (cases p) simp

lemmas yields_intros = yields_Ok yields_bind yields_if yields_let yields_prod

text \<open>The payload has the given kind and protocol and type are unchanged.\<close>

definition carries :: "nlmon_event \<Rightarrow> payload_kind list \<Rightarrow> nlmon_event \<Rightarrow> bool" where
  "carries evt ks e \<longleftrightarrow> nl_protocol (ev_netlink e) = nl_protocol (ev_netlink evt) \<and> nl_msg_type (ev_netlink e) = nl_msg_type (ev_netlink evt) \<and>
     (\<exists>k \<in> set ks. kind_of (nl_data (ev_netlink e)) = Some k)"

lemma link_yields: "yields (carries evt [Link_Payload]) (nlmon_parse_link_msg env mem m nlh evt)"
  unfolding nlmon_parse_link_msg_def by (intro yields_intros) (simp_all add: carries_def set_data_def)

lemma addr_yields: "yields (carries evt [Addr_Payload]) (nlmon_parse_addr_msg env mem m nlh evt)"
  unfolding nlmon_parse_addr_msg_def by (intro yields_intros) (simp_all add: carries_def set_data_def)

lemma neigh_yields: "yields (carries evt [Neigh_Payload]) (nlmon_parse_neigh_msg env mem m nlh evt)"
  unfolding nlmon_parse_neigh_msg_def by (intro yields_intros) (simp_all add: carries_def set_data_def)

lemma diag_yields: "yields (carries evt [Diag_Payload]) (nlmon_parse_inet_diag_msg env mem m nlh evt)"
  unfolding nlmon_parse_inet_diag_msg_def by (intro yields_intros) (simp_all add: carries_def set_data_def)

lemma conntrack_yields: "yields (carries evt [Ct_Payload]) (nlmon_parse_conntrack_msg env tmp mem m nlh evt)"
  unfolding nlmon_parse_conntrack_msg_def by (intro yields_intros) (simp_all add: carries_def set_data_def)

lemma carries_interface [simp]: "carries evt ks (e\<lparr>ev_interface := s\<rparr>) = carries evt ks e" "carries (evt\<lparr>ev_interface := s\<rparr>) ks e = carries evt ks e"
  by (simp_all add: carries_def)

lemma carries_set_data: "kind_of d = Some k \<Longrightarrow> k \<in> set ks \<Longrightarrow> carries evt ks (set_data d evt)"
  by (auto simp: carries_def set_data_def)

lemma on_attr_cases: "on_attr tb t x f = Ok y \<Longrightarrow> y = x \<or> (\<exists>a. f a = Ok y)"
  by (auto simp: on_attr_def split: if_splits option.splits)

lemma route_oif:
  assumes "on_attr tb t (ri, evt) (\<lambda>a. bind_outcome (nla_get_u32 m a) (\<lambda>v.
      Ok (ri\<lparr>route_oif := v\<rparr>, evt\<lparr>ev_interface := name_or env v (ev_interface evt)\<rparr>))) = Ok (ri', evt')"
  shows "ev_netlink evt' = ev_netlink evt"
  using on_attr_cases [OF assms] by (auto simp: bind_outcome_Ok_iff)

lemma route_yields: "yields (carries evt [Route_Payload]) (nlmon_parse_route_msg env mem m nlh evt)"
  unfolding nlmon_parse_route_msg_def
  by (intro yields_intros) (simp_all add: carries_def set_data_def route_oif)

lemma yields_need_attr: "(\<And>a. yields P (f a)) \<Longrightarrow> yields P (need_attr tb t evt f)"
  by (auto simp: need_attr_def yields_def split: if_splits option.splits)

lemma qca_interface:
  assumes "on_attr tb t evt (\<lambda>a. bind_outcome (nla_get_u32 m a) (\<lambda>v.
      Ok (evt\<lparr>ev_interface := name_or env v (ev_interface evt)\<rparr>))) = Ok evt'"
  shows "ev_netlink evt' = ev_netlink evt"
  using on_attr_cases [OF assms] by (auto simp: bind_outcome_Ok_iff)

lemma qca_yields: "yields (carries evt [Nl80211_Payload, Qca_Payload]) (nlmon_parse_qca_vendor_msg env mem m nlh evt)"
  unfolding nlmon_parse_qca_vendor_msg_def
  by (intro yields_intros yields_need_attr) (simp_all add: carries_def set_data_def qca_interface)

lemma nl80211_attrs_event:
  assumes "nl80211_attrs env m tb wi evt = Ok (wi', evt')"
  shows "ev_netlink evt' = ev_netlink evt"
proof -
  obtain wi1 wi2 :: nlmon_nl80211_info where "on_attr tb NL80211_ATTR_IFINDEX (wi1\<lparr>nl80211_ifindex := -1\<rparr>, evt) (\<lambda>a.
         bind_outcome (nla_get_u32 m a) (\<lambda>v.
           let s = name_or env v []
           in Ok (wi1\<lparr>nl80211_ifindex := v, nl80211_ifname := s\<rparr>, evt\<lparr>ev_interface := take 15 s\<rparr>))) = Ok (wi2, evt')"
    using assms by (auto simp: nl80211_attrs_def bind_outcome_Ok_iff)
  from on_attr_cases [OF this] show ?thesis by (auto simp: bind_outcome_Ok_iff Let_def)
qed

lemma carries_same: "ev_netlink evt' = ev_netlink evt \<Longrightarrow> carries evt' = carries evt"
  by (simp add: carries_def fun_eq_iff)

lemma nl80211_yields: "yields (carries evt [Nl80211_Payload, Qca_Payload]) (nlmon_parse_nl80211_msg env mem m nlh evt)"
proof -
  have vendor: "yields (carries evt [Nl80211_Payload, Qca_Payload]) (nlmon_parse_qca_vendor_msg env mem m nlh evt')"
    if "ev_netlink evt' = ev_netlink evt" for evt'
    using qca_yields [of evt'] carries_same [OF that] by simp
  show ?thesis
    unfolding nlmon_parse_nl80211_msg_def
    by (intro yields_intros vendor) (auto simp: carries_def set_data_def nl80211_attrs_event)
qed

section \<open>Every event of the manager is well typed\<close>

definition emits_typed :: "(int \<times> nlmon_event option) outcome \<Rightarrow> bool" where
  "emits_typed r \<longleftrightarrow> (\<forall>ret e. r = Ok (ret, Some e) \<longrightarrow> event_typed e)"

lemma forward_typed:
  assumes "yields (carries evt ks) r" "set ks \<subseteq> set (message_kinds (nl_protocol (ev_netlink evt)) (nl_msg_type (ev_netlink evt)))"
  shows "emits_typed (forward mgr type r)"
  using assms by (fastforce simp: emits_typed_def forward_def bind_outcome_Ok_iff yields_def carries_def event_typed_def split: if_splits)

lemma header_event_fields:
  assumes "header_event protocol time m nlh = Ok evt"
  shows "nl_protocol (ev_netlink evt) = protocol"
  using assms by (auto simp: header_event_def bind_outcome_Ok_iff)

lemma route_handler_typed:
  assumes "nlmon_route_msg_handler env mem time mgr m = Ok (ret, Some e, mgr')"
  shows "event_typed e"
proof -
  obtain evt where evt: "header_event NETLINK_ROUTE (time * 1000000000) m 0 = Ok evt"
    using assms by (auto simp: nlmon_route_msg_handler_def bind_outcome_Ok_iff)
  let ?type = "nl_msg_type (ev_netlink evt)"
  have p: "nl_protocol (ev_netlink evt) = NETLINK_ROUTE" by (rule header_event_fields [OF evt])
  consider (link) mgr1 where "?type \<in> {16, 17}" "forward mgr1 ?type (nlmon_parse_link_msg env mem m 0 evt) = Ok (ret, Some e)"
    | (addr) mgr1 where "?type \<in> {20, 21}" "forward mgr1 ?type (nlmon_parse_addr_msg env mem m 0 evt) = Ok (ret, Some e)"
    | (route) mgr1 where "?type \<in> {24, 25}" "forward mgr1 ?type (nlmon_parse_route_msg env mem m 0 evt) = Ok (ret, Some e)"
    | (neigh) mgr1 where "?type \<in> {28, 29}" "forward mgr1 ?type (nlmon_parse_neigh_msg env mem m 0 evt) = Ok (ret, Some e)"
    using assms evt by (auto simp: nlmon_route_msg_handler_def bind_outcome_Ok_iff Let_def split: if_splits)
  then show ?thesis
  proof cases
    case link
    then show ?thesis using forward_typed [OF link_yields, where type = ?type] p
      by (force simp: message_kinds_def link_types_def emits_typed_def)
  next
    case addr
    then show ?thesis using forward_typed [OF addr_yields, where type = ?type] p
      by (force simp: message_kinds_def link_types_def addr_types_def emits_typed_def)
  next
    case route
    then show ?thesis using forward_typed [OF route_yields, where type = ?type] p
      by (force simp: message_kinds_def link_types_def addr_types_def route_types_def emits_typed_def)
  next
    case neigh
    then show ?thesis using forward_typed [OF neigh_yields, where type = ?type] p
      by (force simp: message_kinds_def link_types_def addr_types_def route_types_def neigh_types_def emits_typed_def)
  qed
qed

lemma handlers_typed:
  "emits_typed (nlmon_diag_msg_handler env mem time mgr m)"
  "emits_typed (nlmon_nf_msg_handler env tmp mem time mgr m)"
  "emits_typed (nlmon_genl_msg_handler env mem time mgr m)"
proof -
  have bind: "emits_typed (bind_outcome x f)" if "\<And>a. x = Ok a \<Longrightarrow> emits_typed (f a)" for x :: "'x outcome" and f
    using that by (cases x) (simp_all add: emits_typed_def)
  have none: "emits_typed (Ok (ret, None))" for ret by (simp add: emits_typed_def)
  show "emits_typed (nlmon_diag_msg_handler env mem time mgr m)"
    unfolding nlmon_diag_msg_handler_def
  proof (rule bind)
    fix evt
    assume "header_event NETLINK_SOCK_DIAG (time * 1000000000) m 0 = Ok evt"
    then have "nl_protocol (ev_netlink evt) = NETLINK_SOCK_DIAG" by (rule header_event_fields)
    then show "emits_typed (let type = nl_msg_type (ev_netlink evt)
       in if type = SOCK_DIAG_BY_FAMILY then forward mgr type (nlmon_parse_inet_diag_msg env mem m 0 evt)
          else if type = NLMSG_DONE \<or> type = NLMSG_ERROR then Ok (NL_STOP, None) else Ok (NL_SKIP, None))"
      using forward_typed [OF diag_yields] none by (simp add: message_kinds_def Let_def)
  qed
  show "emits_typed (nlmon_nf_msg_handler env tmp mem time mgr m)"
    unfolding nlmon_nf_msg_handler_def
  proof (rule bind)
    fix evt
    assume "header_event NETLINK_NETFILTER (time * 1000000000) m 0 = Ok evt"
    then have "nl_protocol (ev_netlink evt) = NETLINK_NETFILTER" by (rule header_event_fields)
    then show "emits_typed (let type = nl_msg_type (ev_netlink evt)
       in if type = NLMSG_DONE \<or> type = NLMSG_ERROR then Ok (NL_STOP, None)
          else if drop_bit 8 type = 1 then forward mgr type (nlmon_parse_conntrack_msg env tmp mem m 0 evt)
          else Ok (NL_SKIP, None))"
      using forward_typed [OF conntrack_yields] none by (simp add: message_kinds_def Let_def)
  qed
  have genl: "emits_typed (forward mgr type (nlmon_parse_nl80211_msg env mem m 0 evt))"
    if "nl_protocol (ev_netlink evt) = NETLINK_GENERIC" for evt type
    using forward_typed [OF nl80211_yields, of evt] that by (simp add: message_kinds_def)
  show "emits_typed (nlmon_genl_msg_handler env mem time mgr m)"
    unfolding nlmon_genl_msg_handler_def Let_def
    by (intro bind) (auto intro!: genl none dest: header_event_fields)
qed

definition typed_run :: "nl_run \<Rightarrow> bool" where
  "typed_run rn \<longleftrightarrow> (\<forall>e \<in> set (run_events rn). event_typed e)"

lemma call_callback_typed: "callbacks_keep typed_run (call_callback ctx)"
  unfolding callbacks_keep_def
proof (intro allI impI)
  fix f m rn err rn'
  assume rn: "typed_run rn" and r: "call_callback ctx f m rn = Ok (err, rn')"
  have note_event: "typed_run (note_event mgr e rn)" if "case e of None \<Rightarrow> True | Some e \<Rightarrow> event_typed e" for mgr e
    using rn that by (auto simp: typed_run_def note_event_def split: option.splits)
  let ?env = "ctx_env ctx" and ?mem = "ctx_handler_mem ctx (run_calls rn)" and ?time = "ctx_time ctx (run_calls rn)" and ?mgr = "run_manager rn"
  have other: "typed_run (note_event ?mgr e rn)" if "emits_typed x" "x = Ok (err, e)" for x e
    using note_event that by (cases e) (auto simp: emits_typed_def)
  show "typed_run rn'"
  proof (cases f)
    case noop_seq_check
    then show ?thesis using r rn by (simp add: call_callback_def)
  next
    case (Custom h)
    show ?thesis
    proof (cases h)
      case route_msg_handler
      then obtain e mgr where e: "nlmon_route_msg_handler ?env ?mem ?time ?mgr m = Ok (err, e, mgr)" "rn' = note_event mgr e rn"
        using r Custom by (auto simp: call_callback_def Let_def bind_outcome_Ok_iff)
      have "case e of None \<Rightarrow> True | Some e \<Rightarrow> event_typed e" using e(1) route_handler_typed by (cases e) auto
      then show ?thesis using note_event e(2) by simp
    next
      case genl_msg_handler
      then show ?thesis using r Custom other [OF handlers_typed(3)] by (auto simp: call_callback_def Let_def bind_outcome_Ok_iff)
    next
      case diag_msg_handler
      then show ?thesis using r Custom other [OF handlers_typed(1)] by (auto simp: call_callback_def Let_def bind_outcome_Ok_iff)
    next
      case nf_msg_handler
      then show ?thesis using r Custom other [OF handlers_typed(2)] by (auto simp: call_callback_def Let_def bind_outcome_Ok_iff)
    qed
  qed
qed

lemma receive_typed:
  assumes "receive ctx sk cb rs rn = Some (Ok (ret, sk', rn', rs'))" "typed_run rn"
  shows "typed_run rn'"
proof (rule nl_recvmsgs_keeps [OF call_callback_typed _ assms(2)])
  show "callbacks_keep typed_run (\<lambda>_ _ u. Ok (NL_OK, u))" by (simp add: callbacks_keep_def)
qed (use assms(1) in \<open>simp add: receive_def\<close>)

lemma process_result_events: "process_result sys errno protocol ret rn rs = Ok (ret', rn', rs') \<Longrightarrow> run_events rn' = run_events rn"
  by (auto simp: process_result_def bind_outcome_Ok_iff split: if_splits)

lemma process_typed:
  assumes "p \<in> {nlmon_nl_process_route, nlmon_nl_process_genl, nlmon_nl_process_diag, nlmon_nl_process_nf}"
    and "p ctx sys errno rs rn = Some (Ok (ret, rn', rs'))" "typed_run rn"
  shows "typed_run rn'"
proof -
  consider (same) "run_events rn' = run_events rn"
    | (received) sk cb r sk' run1 rs1 where "receive ctx sk cb rs rn = Some (Ok (r, sk', run1, rs1))" "run_events rn' = run_events run1"
    using assms(1,2)
    by (auto simp: nlmon_nl_process_route_def nlmon_nl_process_genl_def nlmon_nl_process_diag_def nlmon_nl_process_nf_def bind_outcome_Ok_iff
      split: option.splits bool.splits dest!: process_result_events)
  then show ?thesis
  proof cases
    case received
    then show ?thesis using receive_typed [OF received(1) assms(3)] by (simp add: typed_run_def)
  qed (use assms(3) in \<open>simp add: typed_run_def\<close>)
qed

section \<open>Typed events and filters\<close>

text \<open>C8. Filters and events fit together. Whatever arrives on the sockets, an event that one of the four process functions
  passes on carries a payload of the kind that its protocol and message type stand for; so a compiled filter that reads, besides
  the fields of every event, only payload fields of that kind (a generic message may be of two kinds, then none) is evaluated on it with no undefined behaviour: within as many
  steps as it has instructions the evaluator returns a verdict, the one that the tree has by its meaning. (A filter that reads
  the fields of another payload is not covered: then reading is undefined.)\<close>

theorem typed_events_evaluate:
  assumes "p \<in> {nlmon_nl_process_route, nlmon_nl_process_genl, nlmon_nl_process_diag, nlmon_nl_process_nf}"
    and "p ctx sys errno rs rn = Some (Ok (ret, rn', rs'))" "run_events rn = []" "ev \<in> set (run_events rn')"
    and "\<forall>k \<in> set (message_kinds (nl_protocol (ev_netlink ev)) (nl_msg_type (ev_netlink ev))). reads_only (Some k) n"
    and "mem_ok mem" "fe_valid e" "fe_ast e = Some n" "filter_compile mem (Some e) = Some bc"
    and "instruction_count bc < 2 ^ 31" "instruction_count bc \<le> fuel"
  shows "event_typed ev \<and> (\<exists>b. filter_matches rc re ev n = Ok b \<and>
    filter_eval fuel mem rc re (Some bc) (Some ev) None = Some (Ok (b, None)))"
proof -
  have "typed_run rn'" by (rule process_typed [OF assms(1,2)]) (simp add: typed_run_def assms(3))
  then have typed: "event_typed ev" using assms(4) by (simp add: typed_run_def)
  then have "reads_only (kind_of (nl_data (ev_netlink ev))) n" using assms(5) by (auto simp: event_typed_def)
  then obtain b where b: "filter_matches rc re ev n = Ok b" using filter_matches_defined by blast
  obtain c where "compiled_form bc n c" using filter_compile_form [OF assms(6-9)] .
  then have "filter_eval fuel mem rc re (Some bc) (Some ev) None = Some (Ok (b, None))"
    using b filter_eval_no_context [OF assms(6) _ assms(10,11), of n c rc re ev] by simp
  then show ?thesis using typed b by blast
qed

text \<open>The filter \<open>netlink.link.mtu > 1000\<close> on the event of a link message.\<close>

definition mtu_node :: filter_node where
  "mtu_node = FILTER_NODE_BINARY FILTER_NODE_GT (FILTER_NODE_FIELD (FILTER_FIELD_NL_LINK LINK_MTU)) (FILTER_NODE_NUMBER 1000)"

definition mtu_expr :: filter_expr where
  "mtu_expr = sample_expr\<lparr>fe_ast := Some mtu_node\<rparr>"

lemma mtu_compiles: "\<exists>bc. filter_compile (\<lambda>_. True) (Some mtu_expr) = Some bc \<and> instruction_count bc = 4"
proof -
  have "map_option instruction_count (filter_compile (\<lambda>_. True) (Some mtu_expr)) = Some 4" by code_simp
  then show ?thesis by auto
qed

lemma sample_link_received:
  obtains rn' where
    "nlmon_nl_process_route sample_ctx sample_sys 0 [Recv_Data (concat (map link_bytes [sample_link 16])) False False True]
       \<lparr>run_calls = 0, run_manager = snd (nlmon_nl_enable_route sample_sys sample_manager), run_events = []\<rparr> = Some (Ok (0, rn', []))"
    "run_events rn' = link_events sample_ctx 0 [sample_link 16]"
proof -
  obtain mgr where mgr: "nlmon_nl_enable_route sample_sys sample_manager = (0, mgr)" using sample_enable_route(1) by blast
  obtain sk cb where en: "route_sock mgr = Some sk" "enable_route mgr" "route_cb mgr = Some cb" "\<not> s_peek sk"
    "event_callbacks (call_callback sample_ctx) cb (Custom route_msg_handler)" "link_cache mgr = None" "event_callback mgr"
    using enable_route_enabled [OF mgr sample_enable_route(2), of sample_ctx] sample_enable_route(3,4) by auto
  show thesis
    by (rule process_route_links [of "\<lparr>run_calls = 0, run_manager = mgr, run_events = []\<rparr>" sk cb sample_ctx "[sample_link 16]" sample_sys 0])
      (use en sample_ctx_ok sample_link_ok mgr that in \<open>auto simp: sample_ctx_def [THEN arg_cong [where f = ctx_page_size]]\<close>)
qed

theorem typed_events_evaluate_witness:
  "\<exists>rn' ev bc b. nlmon_nl_process_route sample_ctx sample_sys 0 [Recv_Data (concat (map link_bytes [sample_link 16])) False False True]
       \<lparr>run_calls = 0, run_manager = snd (nlmon_nl_enable_route sample_sys sample_manager), run_events = []\<rparr> = Some (Ok (0, rn', [])) \<and>
     run_events rn' = [ev] \<and> filter_compile (\<lambda>_. True) (Some mtu_expr) = Some bc \<and>
     filter_eval 4 (\<lambda>_. True) Some prefix_match (Some bc) (Some ev) None = Some (Ok (b, None))"
proof -
  obtain rn' where r: "nlmon_nl_process_route sample_ctx sample_sys 0 [Recv_Data (concat (map link_bytes [sample_link 16])) False False True]
       \<lparr>run_calls = 0, run_manager = snd (nlmon_nl_enable_route sample_sys sample_manager), run_events = []\<rparr> = Some (Ok (0, rn', []))"
    "run_events rn' = link_events sample_ctx 0 [sample_link 16]"
    by (rule sample_link_received)
  obtain bc where bc: "filter_compile (\<lambda>_. True) (Some mtu_expr) = Some bc" "instruction_count bc = 4" using mtu_compiles by blast
  define ev where "ev = hd (link_events sample_ctx 0 [sample_link 16])"
  have ev: "run_events rn' = [ev]" by (simp add: r(2) link_events_def ev_def)
  have kinds: "nl_protocol (ev_netlink ev) = NETLINK_ROUTE" "nl_msg_type (ev_netlink ev) = 16"
    by (simp_all add: ev_def link_events_def link_event_def sample_link_def Let_def)
  have reads: "\<forall>k \<in> set (message_kinds (nl_protocol (ev_netlink ev)) (nl_msg_type (ev_netlink ev))). reads_only (Some k) mtu_node"
    unfolding kinds by (simp add: message_kinds_def link_types_def reads_only_def mtu_node_def)
  have "\<exists>b. filter_eval 4 (\<lambda>_. True) Some prefix_match (Some bc) (Some ev) None = Some (Ok (b, None))"
    using typed_events_evaluate [where p = nlmon_nl_process_route and ev = ev and fuel = 4 and rc = Some and re = prefix_match,
        OF _ r(1) _ _ reads _ _ _ bc(1)] bc(2) ev
    by (auto simp: mem_ok_def mtu_expr_def sample_expr_def)
  then show ?thesis using r(1) ev bc(1) by blast
qed

end
