(* ===== verification/Spec2Isabelle.thy ===== *)
theory Spec2Isabelle
  imports Ring_Concurrency Filter_Semantics Filter_Disasm Filter_Manager Rate_Limiter Object_Pool Thread_Pool Netlink_Attr Netlink_Msg Nl_Decode Nl_Recv Nl_Manager Nl_Recv_Invariant Nl_Typing
begin

text \<open>
  \<^bold>\<open>nlmon\<close>, a monitor of netlink events for Linux: a verification of its core. All paths below are relative to \<^verbatim>\<open>src/\<close>.

  \<^bold>\<open>The program.\<close> The netlink manager (\<^verbatim>\<open>src/core/nlmon_netlink.c\<close>) opens a socket per protocol with the bundled library
  \<^verbatim>\<open>libnl/\<close>, receives datagrams, and has each message decoded into an event (\<^verbatim>\<open>src/core/nlmon_nl_route.c\<close>,
  \<^verbatim>\<open>nlmon_nl_genl.c\<close>, \<^verbatim>\<open>nlmon_nl_diag.c\<close>, \<^verbatim>\<open>nlmon_nl_netfilter.c\<close>). Events go through a ring buffer (\<^verbatim>\<open>ring_buffer.c\<close>) to a pool of
  worker threads (\<^verbatim>\<open>thread_pool.c\<close>), limited by token buckets (\<^verbatim>\<open>rate_limiter.c\<close>) and stored in recycled objects
  (\<^verbatim>\<open>object_pool.c\<close>). Filters, written in a small language, are parsed (\<^verbatim>\<open>filter_parser.c\<close>), compiled to bytecode
  (\<^verbatim>\<open>filter_compiler.c\<close>), run on events by an interpreter (\<^verbatim>\<open>filter_eval.c\<close>) and kept under names, with counters and a storage
  file, by the filter manager (\<^verbatim>\<open>filter_manager.c\<close>).

  \<^bold>\<open>Foundations.\<close> \<^verbatim>\<open>NL_Prelude\<close>: C integer types as words, the outcomes \<open>Ok\<close>, \<open>Fail\<close> and \<open>UB\<close> of code that may give up or be
  undefined, circular windows of arrays. \<^verbatim>\<open>C_Lib\<close> and \<^verbatim>\<open>C_Print\<close>: the part of the C library that is used. \<^verbatim>\<open>Bounded_Fifo\<close> and
  \<^verbatim>\<open>Named_Table\<close>: two contracts as locales, \<open>bounded_fifo\<close> interpreted by the ring buffer and \<open>named_table\<close> by the filter
  manager, whose properties as queue and as table rest on the interpreted facts.

  \<^bold>\<open>Queue.\<close> \<^verbatim>\<open>Ring_Buffer\<close> models \<^verbatim>\<open>ring_buffer.c\<close> function by function on an array, 64-bit positions and counters; the queue is
  a bounded FIFO, and the observers and statistics are those of the history of calls. \<^verbatim>\<open>Ring_Concurrency\<close> has every memory access of
  \<^verbatim>\<open>ring_buffer_enqueue\<close> and \<^verbatim>\<open>ring_buffer_dequeue\<close> as a step; one producer and one consumer see a FIFO, two consumers do not.

  \<^bold>\<open>Filters.\<close> \<^verbatim>\<open>Filter_Syntax\<close>, \<^verbatim>\<open>Filter_Lexer\<close> and \<^verbatim>\<open>Filter_Parser\<close> follow \<^verbatim>\<open>filter_parser.c\<close>: the lexer scans the tokens of a
  declarative tokeniser and locates them, the parser accepts exactly the language of an inductive grammar and builds its
  trees. \<^verbatim>\<open>Nl_Event\<close> is \<^verbatim>\<open>struct nlmon_event\<close>. \<^verbatim>\<open>Filter_Compiler\<close> and \<^verbatim>\<open>Filter_Eval\<close> follow \<^verbatim>\<open>filter_compiler.c\<close> and
  \<^verbatim>\<open>filter_eval.c\<close>; \<^verbatim>\<open>Filter_Semantics\<close> gives trees a meaning and shows that the compiled code computes it; \<^verbatim>\<open>Filter_Disasm\<close>
  is the disassembler. \<^verbatim>\<open>Filter_Manager\<close> is the table of filters, the evaluation of all of them, and saving and loading through
  a buffered stream. The theorem of this theory joins the parts: from text to verdict.

  \<^bold>\<open>Resources.\<close> \<^verbatim>\<open>Rate_Limiter\<close>: the bucket never holds more than its burst, admits at most burst plus rate times time up to
  rounding, and the hash table of buckets behaves as a map. \<^verbatim>\<open>Object_Pool\<close>: no live object is handed out twice.
  \<^verbatim>\<open>Thread_Pool\<close>: every submitted item runs exactly once, in order, and a graceful shutdown ends; the properties also
  state where the pool hangs and where waiting returns too early.

  \<^bold>\<open>Netlink.\<close> \<^verbatim>\<open>Netlink_Attr\<close> and \<^verbatim>\<open>Netlink_Msg\<close> follow \<^verbatim>\<open>libnl/attr.c\<close>, \<^verbatim>\<open>libnl/msg.c\<close> and their headers on blocks of bytes, with a read or
  write outside a block undefined: parsing is in bounds, and inverts construction. \<^verbatim>\<open>Nl_Decode\<close> has the parsers from messages to
  events and \<^verbatim>\<open>libnl/genl.c\<close>. \<^verbatim>\<open>Nl_Recv\<close> follows \<^verbatim>\<open>nl_recv\<close> and \<^verbatim>\<open>nl_recvmsgs\<close> of \<^verbatim>\<open>libnl/nl.c\<close> and the callback sets;
  \<^verbatim>\<open>Nl_Recv_Invariant\<close> is a rule for what receiving preserves. \<^verbatim>\<open>Nl_Manager\<close> is the manager with its handlers, caches,
  configuration and reconnection: link messages arrive as the right events, and two defects are stated. \<^verbatim>\<open>Nl_Typing\<close>
  joins the manager with the filters: which events arrive, and which filters may be evaluated on them.

  \<^bold>\<open>Fuel and bounds.\<close> The interpreter has an argument \<open>fuel\<close>, the number of steps, because arbitrary bytecode may loop; for
  compiled code as many steps as instructions are enough, and twice the length of the text plus one for a filter given as
  text. The parser's fuel (\<open>parse_fuel\<close>) is computed from the text and is shown to be enough. Receive loops and the
  loop that loads filters are partial functions to \<open>option\<close>, where \<open>None\<close> is not returning; that they return is proved. Texts
  are shorter than \<open>2^29\<close>, programs than \<open>2^31\<close>, blocks than \<open>2^31\<close> bytes, because the code counts in \<^verbatim>\<open>int\<close>.

  \<^bold>\<open>Idealisations.\<close> Allocation is an argument that says which requests succeed, or \<open>mem_ok\<close> where a property needs that all do. Numbers of
  type \<^verbatim>\<open>double\<close> are rationals that are rounded after every operation, monotonically and with a bounded relative
  error; underflow, overflow and NaN are outside. Atomic operations are sequentially consistent. Calls of the rate limiter's
  map, of the object pool and of the filter manager do not overlap. The default attributes of \<^verbatim>\<open>pthread_mutex_init\<close> and
  \<^verbatim>\<open>pthread_cond_init\<close> make them succeed. The size of the stream buffer of \<^verbatim>\<open>fopen\<close> is an argument, and the round trip through
  the storage file needs that the file fits it. Regular expressions, the clock, interface names, \<^verbatim>\<open>inet_ntop\<close> for IPv6, the kernel's results of system calls and its
  header constants are arguments. The byte order is little-endian, a pointer has 8 bytes.

  \<^bold>\<open>Not modelled.\<close> The event processor, which only connects the parts above; hooks, correlation, detectors and alerts;
  trackers and profiling; the older multi-protocol interface; error texts, limits, message pool and fast paths of the netlink code;
  QCA and WMI control; libnl's registries, sending and printing; configuration files, export, storage, web interface, plugins,
  command line and \<^verbatim>\<open>nlmon.c\<close>. They are input and output, calls of external libraries, or analysis on top of the events.
  Functions that only free memory are left out, except where freeing is what a property is about.
\<close>

section \<open>From the text of a filter to its verdict\<close>

text \<open>The instructions a tree compiles to, and that the text bounds them.\<close>

function code_size :: "filter_node \<Rightarrow> nat" where
  "code_size (FILTER_NODE_FIELD f) = 1"
| "code_size (FILTER_NODE_STRING s) = 1"
| "code_size (FILTER_NODE_NUMBER v) = 1"
| "code_size (FILTER_NODE_NOT n) = code_size n + 1"
| "code_size (FILTER_NODE_LIST ns) = sum_list (map code_size ns)"
| "code_size (FILTER_NODE_BINARY t l r) = code_size l + code_size r + 2"
  by pat_completeness auto
termination
  by (relation "measure size") (auto simp: less_Suc_eq_le size_list_estimation')

lemma code_length:
  "code_for S n c \<Longrightarrow> length c \<le> code_size n"
  "code_items S ns c \<Longrightarrow> length c \<le> sum_list (map code_size ns)"
  by (induction rule: code_for_code_items.inducts) simp_all

lemma grammar_size:
  "g_prim ts n ts' \<Longrightarrow> code_size n + 2 * length ts' \<le> 2 * length ts"
  "g_items ts ns ts' \<Longrightarrow> sum_list (map code_size ns) + 2 * length ts' \<le> 2 * length ts"
  "g_cmp ts n ts' \<Longrightarrow> code_size n + 2 * length ts' \<le> 2 * length ts"
  "g_not ts n ts' \<Longrightarrow> code_size n + 2 * length ts' \<le> 2 * length ts"
  "g_and ts n ts' \<Longrightarrow> code_size n + 2 * length ts' \<le> 2 * length ts"
  "g_and_rest a ts n ts' \<Longrightarrow> code_size n + 2 * length ts' \<le> code_size a + 2 * length ts"
  "g_or ts n ts' \<Longrightarrow> code_size n + 2 * length ts' \<le> 2 * length ts"
  "g_or_rest a ts n ts' \<Longrightarrow> code_size n + 2 * length ts' \<le> code_size a + 2 * length ts"
  by (induction rule: g_prim_g_items_g_cmp_g_not_g_and_g_and_rest_g_or_g_or_rest.inducts) simp_all

text \<open>C4. The filter language works end to end. When the text of a filter (shorter than \<open>2^29\<close> characters) has the tree \<open>n\<close>
  by the grammar, every \<open>IN\<close> in the tree has a list on its right and lists occur nowhere else, and no allocation fails, then
  parsing and compiling succeed, and evaluating the bytecode with a fresh context ends, after at most twice the length of the
  text plus one steps of the interpreter, with what the tree means on the event: with its verdict where the meaning is a
  verdict, and with undefined behaviour exactly where the meaning reads a payload of another kind than the event's.\<close>

theorem filter_pipeline:
  assumes "NUL \<notin> set s" "length s < 2 ^ 29" "mem_ok mem" "g_or (tokens s) n [(TOKEN_EOF, v)]" "compilable n"
    and "2 * length s + 1 \<le> fuel"
  shows "\<exists>e bc. filter_parse (Some s) = Some e \<and> filter_compile mem (Some e) = Some bc \<and>
    filter_eval fuel mem rc re (Some bc) (Some ev) None =
      Some (bind_outcome (filter_matches rc re ev n) (\<lambda>b. Ok (b, None)))"
proof -
  obtain e where e: "filter_parse (Some s) = Some e" "fe_valid e" "fe_ast e = Some n"
    using filter_parse_accepts [OF assms(1)] assms(4) by metis
  obtain bc c where bc: "filter_compile mem (Some e) = Some bc" "bc_instructions bc = c @ [OP_RETURN]"
    "code_for (bc_strings bc) n c" "length (bc_strings bc) \<le> length c"
    by (rule filter_compile_code [OF assms(3) e(2,3) assms(5)])
  have "length c \<le> 2 * length s"
    using code_length(1) [OF bc(3)] grammar_size(7) [OF assms(4)] length_tokens [of s] by simp
  then have "instruction_count bc < 2 ^ 31" "instruction_count bc \<le> fuel"
    using bc(2) assms(2,6) by simp_all
  then show ?thesis
    using e(1) bc filter_eval_no_context [OF assms(3)] unfolding compiled_form_def by metis
qed

theorem filter_pipeline_witness:
  "\<exists>e bc. filter_parse (Some ''sequence == 7'') = Some e \<and> filter_compile (\<lambda>_. True) (Some e) = Some bc \<and>
     filter_eval 40 (\<lambda>_. True) Some prefix_match (Some bc) (Some sample_event) None = Some (Ok (True, None))"
proof -
  define n where "n = FILTER_NODE_BINARY FILTER_NODE_EQ (FILTER_NODE_FIELD (parse_field_name ''sequence''))
    (FILTER_NODE_NUMBER (atoll ''7''))"
  have "tokens ''sequence == 7'' =
      [(TOKEN_FIELD, Some ''sequence''), (TOKEN_EQ, None), (TOKEN_NUMBER, Some ''7''), (TOKEN_EOF, None)]"
    by code_simp
  then have g: "g_or (tokens ''sequence == 7'') n [(TOKEN_EOF, None)]"
    by (auto intro!: disj conj conj_end disj_end unnegated compare field number simp: cmp_op_def n_def)
  have "parse_field_name ''sequence'' = FILTER_FIELD SEQUENCE" "dec_val 0 ''7'' = 7" by code_simp+
  moreover from this have "atoll ''7'' = 7" by (simp add: atoll_def LLONG_MAX_def)
  ultimately have n: "n = FILTER_NODE_BINARY FILTER_NODE_EQ (FILTER_NODE_FIELD (FILTER_FIELD SEQUENCE)) (FILTER_NODE_NUMBER 7)"
    by (simp add: n_def)
  have "filter_matches Some prefix_match sample_event n = Ok True" unfolding n by code_simp
  moreover have "compilable n" unfolding n by simp
  ultimately show ?thesis
    using filter_pipeline [of "''sequence == 7''" "\<lambda>_. True", OF _ _ _ g, of 40 Some prefix_match sample_event]
    by (simp add: mem_ok_def)
qed

end
